(* ===== verification/Prelude.thy ===== *)
theory Prelude
  imports "HOL-Library.Word" "HOL-Library.Monad_Syntax" "HOL-Library.Multiset"
begin

text \<open>
  Shared vocabulary of the development: Rust's fixed-width unsigned integers and their
  arithmetic, and the generic facts on words, options and lists that the component
  theories use.

  Rust's \<open>+\<close>, \<open>-\<close> and \<open>*\<close> on unsigned integers panic on overflow in a build with
  overflow checks (the \<open>dev\<close> and \<open>ci\<close> profiles of the workspace's Cargo.toml) and wrap
  around in a build without them (the \<open>release\<close> profile). The flag \<open>oc\<close> of
  \<open>rust_add\<close>, \<open>rust_sub\<close> and \<open>rust_mul\<close> says which build is meant; the value \<open>None\<close> is
  a panic. Every operation of the model that performs such arithmetic takes the flag, so
  a theorem about an arbitrary \<open>oc\<close> speaks about every build.
\<close>

type_synonym u8 = "8 word"
type_synonym u32 = "32 word"
type_synonym u64 = "64 word"
type_synonym u128 = "128 word"
type_synonym u256 = "256 word"
type_synonym bytes = "u8 list"

named_theorems rust_ok \<open>conditions under which Rust arithmetic neither panics nor wraps\<close>
named_theorems rust_dest \<open>what a returned result of Rust arithmetic says\<close>

definition rust_add :: "bool \<Rightarrow> 'a::len word \<Rightarrow> 'a word \<Rightarrow> 'a word option" where
  "rust_add oc a b = (if oc \<and> 2 ^ LENGTH('a) \<le> unat a + unat b then None else Some (a + b))"

definition rust_sub :: "bool \<Rightarrow> 'a::len word \<Rightarrow> 'a word \<Rightarrow> 'a word option" where
  "rust_sub oc a b = (if oc \<and> a < b then None else Some (a - b))"

definition rust_mul :: "bool \<Rightarrow> 'a::len word \<Rightarrow> 'a word \<Rightarrow> 'a word option" where
  "rust_mul oc a b = (if oc \<and> 2 ^ LENGTH('a) \<le> unat a * unat b then None else Some (a * b))"

definition saturating_add :: "'a::len word \<Rightarrow> 'a word \<Rightarrow> 'a word" where
  "saturating_add a b = (if 2 ^ LENGTH('a) \<le> unat a + unat b then - 1 else a + b)"

definition saturating_sub :: "'a::len word \<Rightarrow> 'a word \<Rightarrow> 'a word" where
  "saturating_sub a b = (if a < b then 0 else a - b)"

text \<open>A loop over a list whose body may panic: the first panic ends it.\<close>

fun fold_opt :: "('a \<Rightarrow> 's \<Rightarrow> 's option) \<Rightarrow> 'a list \<Rightarrow> 's \<Rightarrow> 's option" where
  "fold_opt f [] s = Some s"
| "fold_opt f (x # xs) s = f x s \<bind> fold_opt f xs"

subsection \<open>Reading machine arithmetic back as natural numbers\<close>

lemma unat_add_ok [rust_ok]:
  "unat (a :: 'a::len word) + unat b < 2 ^ LENGTH('a) \<Longrightarrow> unat (a + b) = unat a + unat b"
  by (simp add: unat_word_ariths)

lemma unat_mult_ok [rust_ok]:
  "unat (a :: 'a::len word) * unat b < 2 ^ LENGTH('a) \<Longrightarrow> unat (a * b) = unat a * unat b"
  by (simp add: unat_word_ariths)

lemma unat_sub_ok [rust_ok]: "b \<le> (a :: 'a::len word) \<Longrightarrow> unat (a - b) = unat a - unat b"
  by (rule unat_sub)

lemma unat_less_exp: "unat (a :: 'a::len word) < 2 ^ LENGTH('a)"
  by (rule unsigned_less)

lemma rust_add_ok [rust_ok]:
  "unat (a :: 'a::len word) + unat b < 2 ^ LENGTH('a) \<Longrightarrow> rust_add oc a b = Some (a + b)"
  by (simp add: rust_add_def)

lemma rust_sub_ok [rust_ok]: "b \<le> (a :: 'a::len word) \<Longrightarrow> rust_sub oc a b = Some (a - b)"
  by (simp add: rust_sub_def not_less)

lemma rust_mul_ok [rust_ok]:
  "unat (a :: 'a::len word) * unat b < 2 ^ LENGTH('a) \<Longrightarrow> rust_mul oc a b = Some (a * b)"
  by (simp add: rust_mul_def)

lemma rust_wrapping [simp]:
  "rust_add False a b = Some (a + b)"
  "rust_sub False a b = Some (a - b)"
  "rust_mul False a b = Some (a * b)"
  by (simp_all add: rust_add_def rust_sub_def rust_mul_def)

lemma rust_add_SomeD [rust_dest]: "rust_add oc a b = Some c \<Longrightarrow> c = a + b"
  by (simp add: rust_add_def split: if_splits)

lemma rust_sub_SomeD [rust_dest]: "rust_sub oc a b = Some c \<Longrightarrow> c = a - b"
  by (simp add: rust_sub_def split: if_splits)

lemma rust_mul_SomeD [rust_dest]: "rust_mul oc a b = Some c \<Longrightarrow> c = a * b"
  by (simp add: rust_mul_def split: if_splits)

text \<open>With overflow checks on, a returned sum or product is the mathematical one.\<close>

lemma rust_add_checkedD:
  "rust_add True (a :: 'a::len word) b = Some c \<Longrightarrow> unat c = unat a + unat b"
  by (auto simp: rust_add_def rust_ok split: if_splits)

lemma rust_mul_checkedD:
  "rust_mul True (a :: 'a::len word) b = Some c \<Longrightarrow> unat c = unat a * unat b"
  by (auto simp: rust_mul_def rust_ok split: if_splits)

lemma unat_saturating_add:
  "unat (saturating_add a (b :: 'a::len word)) = min (unat a + unat b) (2 ^ LENGTH('a) - 1)"
proof -
  have "unat (- 1 :: 'a word) = 2 ^ LENGTH('a) - 1" by (simp add: unsigned_minus_1_eq_mask mask_eq_exp_minus_1)
  then show ?thesis by (auto simp: saturating_add_def rust_ok)
qed

lemma unat_saturating_sub [simp]:
  "unat (saturating_sub a (b :: 'a::len word)) = unat a - unat b"
  by (auto simp: saturating_sub_def rust_ok word_less_nat_alt not_less word_le_nat_alt)

lemma saturating_sub_le: "saturating_sub a b \<le> (a :: 'a::len word)"
  by (simp add: word_le_nat_alt)

lemma unat_numeral_small:
  "(numeral n :: nat) < 2 ^ LENGTH('a::len) \<Longrightarrow> unat (numeral n :: 'a word) = numeral n"
  by (metis unat_bintrunc take_bit_nat_eq_self)

lemma unat_of_nat_u64: "n < 2 ^ 64 \<Longrightarrow> unat (of_nat n :: u64) = n"
  by (simp add: unat_of_nat take_bit_nat_eq_self)

lemma unat_ucast_up: "LENGTH('a::len) \<le> LENGTH('b::len) \<Longrightarrow>
    unat (ucast (a :: 'a word) :: 'b word) = unat a"
  by (simp add: unsigned_ucast_eq take_bit_nat_eq_self unsigned_take_bit_eq
      order_less_le_trans [OF unsigned_less])

lemma unat_ucast_small: "unat (a :: 'a::len word) < 2 ^ LENGTH('b::len) \<Longrightarrow>
    unat (ucast a :: 'b word) = unat a"
  by (simp add: unsigned_ucast_eq take_bit_nat_eq_self)

lemma unat_min [simp]: "unat (min a (b :: 'a::len word)) = min (unat a) (unat b)"
  by (simp add: min_def word_le_nat_alt)

lemma unat_max [simp]: "unat (max a (b :: 'a::len word)) = max (unat a) (unat b)"
  by (simp add: max_def word_le_nat_alt)

lemma unat_word_div [simp]: "unat ((a :: 'a::len word) div b) = unat a div unat b"
  by (rule unat_div)

subsection \<open>Loops that may panic\<close>

lemma fold_opt_append:
  "fold_opt f (xs @ ys) s = fold_opt f xs s \<bind> fold_opt f ys"
  by (induction xs arbitrary: s) (auto split: bind_splits)

lemma fold_opt_inv:
  assumes "fold_opt f xs s = Some t" and "I s"
    and "\<And>x s t. x \<in> set xs \<Longrightarrow> I s \<Longrightarrow> f x s = Some t \<Longrightarrow> I t"
  shows "I t"
  using assms
proof (induction xs arbitrary: s)
  case (Cons x xs)
  then obtain u where "f x s = Some u" and "fold_opt f xs u = Some t"
    by (auto simp: bind_eq_Some_conv)
  with Cons show ?case by (metis list.set_intros)
qed simp

lemma fold_opt_total:
  assumes "I s" and "\<And>x s. x \<in> set xs \<Longrightarrow> I s \<Longrightarrow> \<exists>t. f x s = Some t \<and> I t"
  shows "\<exists>t. fold_opt f xs s = Some t \<and> I t"
  using assms
proof (induction xs arbitrary: s)
  case (Cons x xs)
  then obtain u where "f x s = Some u" and "I u" by (meson list.set_intros(1))
  with Cons show ?case by simp
qed simp

end
