(* ===== verification/F64.thy ===== *)
theory F64
  imports Complex_Main "HOL-Library.Log_Nat" Prelude
begin

text \<open>
  Rust's \<open>f64\<close>: IEEE 754 binary64 arithmetic with rounding to the nearest representable
  value, ties to even. A finite value is the rational number it stands for; \<open>rnd\<close> rounds a
  rational to 53 significant bits with the exponent bounded below (subnormal numbers),
  and a result of magnitude \<open>2^1024\<close> or more is infinite. The two zeros are one value
  here: the programs modelled never divide by a floating-point zero and never look at the
  sign of a zero, so nothing tells them apart.

  The theorems used elsewhere: rounding is monotone, fixes integers below \<open>2^53\<close> and keeps
  the sign.
\<close>

datatype f64 = Finite rat | Infinite bool | NaN \<comment> \<open>the flag of an infinity is its sign\<close>

definition rne_int :: "rat \<Rightarrow> int" where
  "rne_int x =
     (let q = \<lfloor>x\<rfloor>; r = x - of_int q
      in if r < 1 / 2 \<or> (r = 1 / 2 \<and> even q) then q else q + 1)"

definition ilog2 :: "rat \<Rightarrow> int" where
  "ilog2 x =
     (if 1 \<le> x then int (floorlog 2 (nat \<lfloor>x\<rfloor>)) - 1
      else - int (floorlog 2 (nat (\<lceil>1 / x\<rceil> - 1))))"

definition ulp_exp :: "rat \<Rightarrow> int" where
  "ulp_exp x = max (ilog2 \<bar>x\<bar> - 52) (- 1074)"

definition rnd :: "rat \<Rightarrow> rat" where
  "rnd x = (if x = 0 then 0 else of_int (rne_int (x / 2 powi ulp_exp x)) * 2 powi ulp_exp x)"

definition to_f64 :: "rat \<Rightarrow> f64" where
  "to_f64 x = (let r = rnd x in if 2 ^ 1024 \<le> \<bar>r\<bar> then Infinite (r < 0) else Finite r)"

fun f64_neg :: "f64 \<Rightarrow> f64" where
  "f64_neg (Finite a) = Finite (- a)"
| "f64_neg (Infinite s) = Infinite (\<not> s)"
| "f64_neg NaN = NaN"

fun f64_add :: "f64 \<Rightarrow> f64 \<Rightarrow> f64" where
  "f64_add (Finite a) (Finite b) = to_f64 (a + b)"
| "f64_add NaN _ = NaN"
| "f64_add _ NaN = NaN"
| "f64_add (Infinite s) (Finite _) = Infinite s"
| "f64_add (Finite _) (Infinite s) = Infinite s"
| "f64_add (Infinite s) (Infinite s') = (if s = s' then Infinite s else NaN)"

definition f64_sub :: "f64 \<Rightarrow> f64 \<Rightarrow> f64" where
  "f64_sub x y = f64_add x (f64_neg y)"

fun f64_mul :: "f64 \<Rightarrow> f64 \<Rightarrow> f64" where
  "f64_mul (Finite a) (Finite b) = to_f64 (a * b)"
| "f64_mul NaN _ = NaN"
| "f64_mul _ NaN = NaN"
| "f64_mul (Infinite s) (Finite b) = (if b = 0 then NaN else Infinite (s \<noteq> (b < 0)))"
| "f64_mul (Finite a) (Infinite s) = (if a = 0 then NaN else Infinite (s \<noteq> (a < 0)))"
| "f64_mul (Infinite s) (Infinite s') = Infinite (s \<noteq> s')"

fun f64_div :: "f64 \<Rightarrow> f64 \<Rightarrow> f64" where
  "f64_div (Finite a) (Finite b) =
     (if b = 0 then (if a = 0 then NaN else Infinite (a < 0)) else to_f64 (a / b))"
| "f64_div NaN _ = NaN"
| "f64_div _ NaN = NaN"
| "f64_div (Infinite s) (Finite b) = Infinite (s \<noteq> (b < 0))"
| "f64_div (Finite a) (Infinite s) = Finite 0"
| "f64_div (Infinite s) (Infinite s') = NaN"

text \<open>The casts: from an unsigned integer (rounded), and back (truncated and saturated).\<close>

definition f64_of_word :: "'a::len word \<Rightarrow> f64" where
  "f64_of_word w = to_f64 (of_nat (unat w))"

fun f64_to_word :: "f64 \<Rightarrow> 'a::len word" where
  "f64_to_word (Finite a) =
     (if a \<le> 0 then 0 else if 2 ^ LENGTH('a) \<le> a then - 1 else word_of_int \<lfloor>a\<rfloor>)"
| "f64_to_word (Infinite neg) = (if neg then 0 else - 1)"
| "f64_to_word NaN = 0"

subsection \<open>Rounding to an integer\<close>

lemma rne_int_bounds: "\<lfloor>x\<rfloor> \<le> rne_int x \<and> rne_int x \<le> \<lfloor>x\<rfloor> + 1"
  by (simp add: rne_int_def Let_def)

lemma rne_int_of_int [simp]: "rne_int (of_int n) = n"
  by (simp add: rne_int_def)

lemma rne_int_mono:
  assumes "x \<le> y"
  shows "rne_int x \<le> rne_int y"
proof (cases "\<lfloor>x\<rfloor> = \<lfloor>y\<rfloor>")
  case True
  then show ?thesis using assms by (auto simp: rne_int_def Let_def)
next
  case False
  then have "\<lfloor>x\<rfloor> + 1 \<le> \<lfloor>y\<rfloor>" using floor_mono [OF assms] by simp
  then show ?thesis using rne_int_bounds [of x] rne_int_bounds [of y] by linarith
qed

subsection \<open>Rounding to 53 bits\<close>

lemma ilog2_bounds:
  assumes "0 < x"
  shows "2 powi ilog2 x \<le> x \<and> x < 2 powi (ilog2 x + 1)"
proof (cases "1 \<le> x")
  case True
  define n where "n = nat \<lfloor>x\<rfloor>"
  define k where "k = floorlog 2 n"
  have n: "0 < n" "of_nat n \<le> x" "x < of_nat n + 1"
    using True by (auto simp: n_def le_floor_iff) linarith+
  have "0 < k" using n(1) by (simp add: k_def floorlog_def)
  have b: "2 ^ (k - 1) \<le> n" "n < 2 ^ k" using floorlog_bounds [of n 2] n(1) by (auto simp: k_def)
  have "(2 :: rat) ^ (k - 1) \<le> of_nat n" "of_nat n + 1 \<le> (2 :: rat) ^ k"
    using b by (metis of_nat_le_iff of_nat_numeral of_nat_power,
        metis Suc_leI of_nat_Suc add.commute of_nat_le_iff of_nat_numeral of_nat_power)
  moreover have e: "ilog2 x = int (k - 1)" "ilog2 x + 1 = int k"
    using True \<open>0 < k\<close> by (auto simp: ilog2_def k_def n_def)
  ultimately show ?thesis using n unfolding e(2) unfolding e(1) power_int_of_nat by linarith
next
  case False
  define n where "n = nat (\<lceil>1 / x\<rceil> - 1)"
  define k where "k = floorlog 2 n"
  have "1 < 1 / x" using False assms by simp
  then have n: "0 < n" "of_nat n < 1 / x" "1 / x \<le> of_nat n + 1"
    by (auto simp: n_def) linarith+
  have "0 < k" using n(1) by (simp add: k_def floorlog_def)
  have b: "2 ^ (k - 1) \<le> n" "n < 2 ^ k" using floorlog_bounds [of n 2] n(1) by (auto simp: k_def)
  have "(2 :: rat) ^ (k - 1) \<le> of_nat n" "of_nat n + 1 \<le> (2 :: rat) ^ k"
    using b by (metis of_nat_le_iff of_nat_numeral of_nat_power,
        metis Suc_leI of_nat_Suc add.commute of_nat_le_iff of_nat_numeral of_nat_power)
  then have "2 ^ (k - 1) < 1 / x" "1 / x \<le> 2 ^ k" using n by linarith+
  then have "1 / 2 ^ k \<le> x" "x < 1 / 2 ^ (k - 1)" using assms by (simp_all add: field_simps)
  moreover have e: "ilog2 x = - int k" "ilog2 x + 1 = - int (k - 1)"
    using False \<open>0 < k\<close> by (auto simp: ilog2_def k_def n_def)
  ultimately show ?thesis
    unfolding e(2) unfolding e(1) power_int_minus power_int_of_nat by (simp add: inverse_eq_divide)
qed

lemma powi_mono: "i \<le> j \<Longrightarrow> (2 :: rat) powi i \<le> 2 powi j"
  by (rule power_int_increasing) simp_all

lemma powi_int_ratio:
  assumes "e \<le> k"
  shows "(2 :: rat) powi k / 2 powi e = of_int (2 ^ nat (k - e))"
proof -
  have "(2 :: rat) powi k = 2 powi (k - e) * 2 powi e"
    by (simp add: power_int_add [symmetric])
  also have "(2 :: rat) powi (k - e) = 2 ^ nat (k - e)"
    using assms power_int_of_nat [of "2 :: rat" "nat (k - e)"] by simp
  finally show ?thesis by simp
qed

lemma ilog2_mono:
  assumes "0 < x" and "x \<le> y"
  shows "ilog2 x \<le> ilog2 y"
proof (rule ccontr)
  assume "\<not> ilog2 x \<le> ilog2 y"
  then have "(2 :: rat) powi (ilog2 y + 1) \<le> 2 powi ilog2 x" by (intro powi_mono) simp
  then show False using ilog2_bounds [of x] ilog2_bounds [of y] assms by simp
qed

text \<open>Rounding on a fixed grid of spacing \<open>2^e\<close>.\<close>

definition grid_rnd :: "int \<Rightarrow> rat \<Rightarrow> rat" where
  "grid_rnd e x = of_int (rne_int (x / 2 powi e)) * 2 powi e"

lemma rnd_grid: "x \<noteq> 0 \<Longrightarrow> rnd x = grid_rnd (ulp_exp x) x"
  by (simp add: rnd_def grid_rnd_def)

lemma grid_rnd_mono: "x \<le> y \<Longrightarrow> grid_rnd e x \<le> grid_rnd e y"
  unfolding grid_rnd_def
  by (intro mult_right_mono) (simp_all add: rne_int_mono divide_right_mono)

lemma grid_rnd_powi: "e \<le> k \<Longrightarrow> grid_rnd e (2 powi k) = 2 powi k"
proof -
  assume "e \<le> k"
  then have "(2 :: rat) powi k / 2 powi e = of_int (2 ^ nat (k - e))" by (rule powi_int_ratio)
  then show ?thesis by (simp only: grid_rnd_def rne_int_of_int) (simp add: field_simps)
qed

lemma grid_rnd_nonneg: "0 \<le> x \<Longrightarrow> 0 \<le> grid_rnd e x"
  using grid_rnd_mono [of 0 x e] rne_int_of_int [of 0] by (simp add: grid_rnd_def)

lemma rnd_nonneg: "0 \<le> x \<Longrightarrow> 0 \<le> rnd x"
  by (cases "x = 0") (simp_all add: rnd_def [of 0] rnd_grid grid_rnd_nonneg)

lemma rnd_mono_pos:
  assumes "0 < x" and "x \<le> y"
  shows "rnd x \<le> rnd y"
proof -
  have y: "0 < y" using assms by simp
  have le: "ilog2 x \<le> ilog2 y" using ilog2_mono [OF assms] .
  show ?thesis
  proof (cases "ulp_exp x = ulp_exp y")
    case True
    then show ?thesis using assms y by (simp add: rnd_grid grid_rnd_mono)
  next
    case False
    then have lt: "ilog2 x < ilog2 y" using le assms y by (auto simp: ulp_exp_def)
    have e: "ulp_exp x \<le> ilog2 y" "ulp_exp y \<le> ilog2 y"
      using False le assms y by (auto simp: ulp_exp_def max_def split: if_splits)
    have "(2 :: rat) powi (ilog2 x + 1) \<le> 2 powi ilog2 y" using lt by (intro powi_mono) simp
    then have "x \<le> 2 powi ilog2 y" using ilog2_bounds [OF assms(1)] by simp
    then have "grid_rnd (ulp_exp x) x \<le> 2 powi ilog2 y"
      using grid_rnd_mono grid_rnd_powi [OF e(1)] by metis
    also have "\<dots> \<le> grid_rnd (ulp_exp y) y"
      using grid_rnd_mono ilog2_bounds [OF y] grid_rnd_powi [OF e(2)] by metis
    finally show ?thesis using assms y by (simp add: rnd_grid)
  qed
qed

lemma rnd_mono: "0 \<le> x \<Longrightarrow> x \<le> y \<Longrightarrow> rnd x \<le> rnd y"
  using rnd_mono_pos [of x y] rnd_nonneg [of y] by (cases "x = 0") (auto simp: rnd_def [of 0])

lemma rnd_zero [simp]: "rnd 0 = 0"
  by (simp add: rnd_def)

lemma ilog2_one: "ilog2 1 = 0"
  by (simp add: ilog2_def compute_floorlog)

lemma rnd_one [simp]: "rnd 1 = 1"
proof -
  have "ulp_exp 1 = - 52" by (simp add: ulp_exp_def ilog2_one)
  then show ?thesis using grid_rnd_powi [of "- 52" 0] by (simp add: rnd_grid)
qed

lemma rnd_unit: "0 \<le> x \<Longrightarrow> x \<le> 1 \<Longrightarrow> 0 \<le> rnd x \<and> rnd x \<le> 1"
  using rnd_mono [of x 1] rnd_nonneg [of x] by simp

lemma rnd_of_nat:
  assumes "n < 2 ^ 53"
  shows "rnd (of_nat n) = of_nat n"
proof (cases "n = 0")
  case False
  then have pos: "(0 :: rat) < of_nat n" by simp
  have "ilog2 (of_nat n) < 53"
  proof (rule ccontr)
    assume "\<not> ilog2 (of_nat n) < 53"
    then have "(2 :: rat) powi (int 53) \<le> 2 powi ilog2 (of_nat n)" by (intro powi_mono) simp
    then have "(2 :: rat) ^ 53 \<le> of_nat n"
      using ilog2_bounds [OF pos] by (simp only: power_int_of_nat) linarith
    then have "2 ^ 53 \<le> n" by (metis of_nat_le_iff of_nat_numeral of_nat_power)
    then show False using assms by simp
  qed
  then have e: "ulp_exp (of_nat n) \<le> 0" by (simp add: ulp_exp_def)
  have "(of_nat n :: rat) / 2 powi ulp_exp (of_nat n) = of_int (int n * 2 ^ nat (- ulp_exp (of_nat n)))"
    using powi_int_ratio [OF e] by (simp add: field_simps)
  then show ?thesis
    using False by (simp only: rnd_def rne_int_of_int) (simp add: field_simps)
qed simp

subsection \<open>Evaluating a rounding\<close>

text \<open>
  Evaluating a rounding on integers: once the binary exponent is known, the significand is
  the quotient of two integers, rounded.
\<close>

definition rne_frac :: "int \<Rightarrow> int \<Rightarrow> int" where
  "rne_frac a b = (let q = a div b; r = a mod b
     in if 2 * r < b \<or> (2 * r = b \<and> even q) then q else q + 1)"

lemma rne_int_frac:
  assumes "0 < b"
  shows "rne_int (of_int a / of_int b) = rne_frac a b"
proof -
  have f: "\<lfloor>of_int a / of_int b :: rat\<rfloor> = a div b" by (rule floor_divide_of_int_eq)
  have "(of_int a / of_int b :: rat) - of_int (a div b) = of_int (a mod b) / of_int b"
    using assms by (simp add: field_simps flip: of_int_mult of_int_add)
  moreover have "(of_int (a mod b) / of_int b < (1 / 2 :: rat)) = (of_int (2 * (a mod b)) < (of_int b :: rat))"
    "(of_int (a mod b) / of_int b = (1 / 2 :: rat)) = (of_int (2 * (a mod b)) = (of_int b :: rat))"
    using assms by (simp_all add: divide_less_eq divide_eq_eq ac_simps)
  ultimately show ?thesis by (simp only: rne_int_def f Let_def rne_frac_def of_int_less_iff of_int_eq_iff)
qed

lemma ilog2_unique:
  assumes "2 powi e \<le> x" and "x < 2 powi (e + 1)"
  shows "ilog2 x = e"
proof -
  have "0 < x" using assms(1) zero_less_power_int [of "2 :: rat" e] by linarith
  note b = ilog2_bounds [OF this]
  have "\<not> ilog2 x + 1 \<le> e" using powi_mono [of "ilog2 x + 1" e] b assms by linarith
  moreover have "\<not> e + 1 \<le> ilog2 x" using powi_mono [of "e + 1" "ilog2 x"] b assms by linarith
  ultimately show ?thesis by linarith
qed

lemma rnd_frac:
  assumes "0 < b" and "2 powi e \<le> (of_int a / of_int b :: rat)"
    and "(of_int a / of_int b :: rat) < 2 powi (e + 1)" and "e = 52 - int s" and "s \<le> 1074"
  shows "rnd (of_int a / of_int b) = of_int (rne_frac (a * 2 ^ s) b) / 2 ^ s"
proof -
  let ?x = "of_int a / of_int b :: rat"
  have pos: "0 < ?x" using assms(2) zero_less_power_int [of "2 :: rat" e] by linarith
  have u: "ulp_exp ?x = - int s"
    using ilog2_unique [OF assms(2,3)] assms(4,5) unfolding ulp_exp_def abs_of_pos [OF pos] by simp
  have "?x / 2 powi (- int s) = of_int (a * 2 ^ s) / of_int b"
    by (simp add: power_int_minus divide_inverse)
  moreover have "rnd ?x = of_int (rne_int (?x / 2 powi (- int s))) * 2 powi (- int s)"
    using less_imp_neq [OF pos] by (subst rnd_def, subst if_not_P) (metis, simp only: u)
  ultimately have "rnd ?x = of_int (rne_frac (a * 2 ^ s) b) * 2 powi (- int s)"
    by (simp only: rne_int_frac [OF assms(1)])
  then show ?thesis by (simp add: power_int_minus divide_inverse)
qed

lemma to_f64_small:
  assumes "0 \<le> x" and "x \<le> 2 ^ 52"
  shows "to_f64 x = Finite (rnd x)"
proof -
  have "rnd x \<le> rnd (of_nat (2 ^ 52))" using assms by (intro rnd_mono) simp_all
  also have "\<dots> = 2 ^ 52" by (subst rnd_of_nat) simp_all
  also have "(2 ^ 52 :: rat) < 2 ^ 1024" by (rule power_strict_increasing) simp_all
  finally have "\<not> 2 ^ 1024 \<le> \<bar>rnd x\<bar>" using rnd_nonneg [OF assms(1)] by (simp only: abs_of_nonneg not_le)
  then show ?thesis by (simp only: to_f64_def Let_def if_False)
qed

lemma f64_of_word_small:
  assumes "unat w < 2 ^ 52"
  shows "f64_of_word w = Finite (of_nat (unat w))"
proof -
  have "(of_nat (unat w) :: rat) \<le> 2 ^ 52" using assms by (metis of_nat_le_iff of_nat_numeral of_nat_power less_imp_le)
  then have "to_f64 (of_nat (unat w)) = Finite (rnd (of_nat (unat w)))" by (intro to_f64_small of_nat_0_le_iff)
  moreover have "rnd (of_nat (unat w)) = of_nat (unat w)" using assms by (intro rnd_of_nat) simp
  ultimately show ?thesis by (simp only: f64_of_word_def)
qed

lemma rnd_eval:
  assumes "0 < b" and "b \<le> a * 2 ^ k" and "a * 2 ^ k < 2 * b" and "k \<le> 1022" and "0 < d"
    and "rne_frac (a * 2 ^ (52 + k)) b * d = c * 2 ^ (52 + k)"
  shows "rnd (of_int a / of_int b) = of_int c / of_int d"
proof -
  have "(of_int b :: rat) \<le> of_int (a * 2 ^ k)" "of_int (a * 2 ^ k) < (of_int (2 * b) :: rat)"
    using assms(2,3) by (simp_all only: of_int_le_iff of_int_less_iff)
  then have "2 powi - int k \<le> (of_int a / of_int b :: rat)" "(of_int a / of_int b :: rat) < 2 powi (- int k + 1)"
    using assms(1) by (simp_all add: power_int_minus power_int_diff field_simps)
  from rnd_frac [OF assms(1) this, of "52 + k"] assms(4)
  have "rnd (of_int a / of_int b) = of_int (rne_frac (a * 2 ^ (52 + k)) b) / of_int (2 ^ (52 + k))" by simp
  also have "\<dots> = of_int c / of_int d"
  proof (subst frac_eq_eq)
    show "of_int (rne_frac (a * 2 ^ (52 + k)) b) * of_int d = of_int c * (of_int (2 ^ (52 + k)) :: rat)"
      using assms(6) by (simp only: flip: of_int_mult)
  qed (use assms(5) in simp_all)
  finally show ?thesis .
qed

lemma rnd_pow2: "rnd (2 ^ n) = 2 ^ n"
proof -
  have "ilog2 (2 ^ n) = int n" by (rule ilog2_unique) (simp_all add: power_int_add)
  then have "ulp_exp (2 ^ n) \<le> int n" by (simp add: ulp_exp_def)
  from grid_rnd_powi [OF this] show ?thesis by (simp add: rnd_grid)
qed

lemma to_f64_le:
  assumes "0 \<le> x" and "x \<le> 2 ^ n" and "n < 1024"
  shows "to_f64 x = Finite (rnd x)"
proof -
  have "rnd x \<le> 2 ^ n" using rnd_mono [OF assms(1,2)] by (simp add: rnd_pow2)
  also have "(2 ^ n :: rat) < 2 ^ 1024" using assms(3) by (rule power_strict_increasing) simp
  finally have "\<not> 2 ^ 1024 \<le> \<bar>rnd x\<bar>" using rnd_nonneg [OF assms(1)] by (simp only: abs_of_nonneg not_le)
  then show ?thesis by (simp only: to_f64_def Let_def if_False)
qed

lemma f64_of_u64: "f64_of_word (w :: u64) = Finite (rnd (of_nat (unat w)))"
proof -
  have "(of_nat (unat w) :: rat) \<le> of_nat (2 ^ 64)" using unat_less_exp [of w] by (simp only: of_nat_le_iff) simp
  then have "(of_nat (unat w) :: rat) \<le> 2 ^ 64" by (simp only: of_nat_power of_nat_numeral)
  then show ?thesis unfolding f64_of_word_def by (intro to_f64_le [of _ 64] of_nat_0_le_iff) simp_all
qed

end
