(* ===== verification/Message.thy ===== *)
theory Message
  imports Prelude
begin

text \<open>
  The transaction intent of crates/bulkmail/src/message.rs and the production clock of
  clock.rs: the record \<open>message\<close>, its constructors, the effective priority with its age
  and deadline terms, the retry budget and the expiry test. The theorems give the value
  of each operation in natural-number arithmetic, the range in which no build panics or
  wraps, the agreement of \<open>is_expired\<close> with the deadline term, and the monotonicity of
  the priority while the message waits.
\<close>

type_synonym address = "160 word"

definition MAX_PRIORITY :: u32 where "MAX_PRIORITY = 100"
definition BLOCK_TIME_MS :: u64 where "BLOCK_TIME_MS = 2000"
definition POINTS_PER_BLOCK :: u32 where "POINTS_PER_BLOCK = 1"
definition MAX_RETRIES :: u32 where "MAX_RETRIES = 3"
definition DEADLINE_BOOST_NEAR_BLOCKS :: u64 where "DEADLINE_BOOST_NEAR_BLOCKS = 2"
definition DEADLINE_BOOST_FAR_BLOCKS :: u64 where "DEADLINE_BOOST_FAR_BLOCKS = 10"

text \<open>
  \<open>SystemClock::now_ms\<close>: the argument is the system time in nanoseconds relative to the
  Unix epoch. A time before the epoch reads as zero, and the millisecond count is cut to
  64 bits by the cast.
\<close>

definition system_clock_now_ms :: "int \<Rightarrow> u64" where
  "system_clock_now_ms t = (if t < 0 then 0 else word_of_int (t div 1000000))"

record message =
  msg_to :: "address option"
  msg_value :: u256
  msg_data :: bytes
  msg_gas :: u64
  priority :: u32
  deadline_ms :: "u32 option"
  created_at_ms :: u64
  retry_count :: u32

definition message_new ::
  "address option \<Rightarrow> u64 \<Rightarrow> u256 \<Rightarrow> bytes \<Rightarrow> u32 \<Rightarrow> u32 option \<Rightarrow> u64 \<Rightarrow> message" where
  "message_new to gas val data prio deadline now =
     \<lparr>msg_to = to, msg_value = val, msg_data = data, msg_gas = gas,
      priority = min prio MAX_PRIORITY, deadline_ms = deadline,
      created_at_ms = now, retry_count = 0\<rparr>"

definition message_default :: "u64 \<Rightarrow> message" where
  "message_default now =
     \<lparr>msg_to = None, msg_value = 0, msg_data = [], msg_gas = 0,
      priority = 0, deadline_ms = None, created_at_ms = now, retry_count = 0\<rparr>"

definition deadline_factor :: "bool \<Rightarrow> message \<Rightarrow> u64 \<Rightarrow> u32 option option" where
  "deadline_factor oc m now =
     (case deadline_ms m of
        None \<Rightarrow> Some None
      | Some d \<Rightarrow> do {
          abs_deadline \<leftarrow> rust_add oc (created_at_ms m) (ucast d);
          if abs_deadline \<le> now then Some (Some 0)
          else do {
            remaining_ms \<leftarrow> rust_sub oc abs_deadline now;
            let remaining_blocks = remaining_ms div BLOCK_TIME_MS;
            if remaining_blocks < DEADLINE_BOOST_NEAR_BLOCKS then Some (Some MAX_PRIORITY)
            else if remaining_blocks < DEADLINE_BOOST_FAR_BLOCKS then do {
              range \<leftarrow> rust_sub oc DEADLINE_BOOST_FAR_BLOCKS DEADLINE_BOOST_NEAR_BLOCKS;
              dist_from_near \<leftarrow> rust_sub oc remaining_blocks DEADLINE_BOOST_NEAR_BLOCKS;
              let max_boost = (ucast MAX_PRIORITY :: u64);
              let min_boost = max_boost div 3;
              span \<leftarrow> rust_sub oc max_boost min_boost;
              scaled \<leftarrow> rust_mul oc span dist_from_near;
              boost \<leftarrow> rust_sub oc max_boost (scaled div range);
              Some (Some (ucast boost))
            }
            else Some None
          }
        })"

definition effective_priority :: "bool \<Rightarrow> message \<Rightarrow> u64 \<Rightarrow> u32 option" where
  "effective_priority oc m now =
     do {
       factor \<leftarrow> deadline_factor oc m now;
       if factor = Some 0 then Some 0
       else do {
         let deadline_term = (case factor of None \<Rightarrow> 0 | Some x \<Rightarrow> x);
         let age_ms = saturating_sub now (created_at_ms m);
         age_factor \<leftarrow> rust_mul oc (ucast (age_ms div BLOCK_TIME_MS)) POINTS_PER_BLOCK;
         a \<leftarrow> rust_add oc (priority m) (retry_count m);
         b \<leftarrow> rust_add oc a age_factor;
         rust_add oc b deadline_term
       }
     }"

definition can_retry :: "message \<Rightarrow> bool" where
  "can_retry m \<longleftrightarrow> retry_count m < MAX_RETRIES"

definition increment_retry :: "message \<Rightarrow> message \<times> bool" where
  "increment_retry m =
     (let m' = m\<lparr>retry_count := saturating_add (retry_count m) 1\<rparr> in (m', can_retry m'))"

definition is_expired :: "bool \<Rightarrow> message \<Rightarrow> u64 \<Rightarrow> bool option" where
  "is_expired oc m now =
     (case deadline_ms m of
        None \<Rightarrow> Some False
      | Some d \<Rightarrow> do {
          abs_deadline \<leftarrow> rust_add oc (created_at_ms m) (ucast d);
          Some (abs_deadline \<le> now)
        })"

text \<open>
  The specification side: the same quantities over the natural numbers, where nothing
  overflows.
\<close>

definition expiry :: "message \<Rightarrow> nat option" where
  "expiry m = map_option (\<lambda>d. unat (created_at_ms m) + unat d) (deadline_ms m)"

definition expired_at :: "message \<Rightarrow> nat \<Rightarrow> bool" where
  "expired_at m t = (case expiry m of None \<Rightarrow> False | Some e \<Rightarrow> e \<le> t)"

definition boost_blocks :: "nat \<Rightarrow> nat" where
  "boost_blocks b = (if b < 2 then 100 else if b < 10 then 100 - 67 * (b - 2) div 8 else 0)"

definition boost_at :: "message \<Rightarrow> nat \<Rightarrow> nat" where
  "boost_at m t = (case expiry m of None \<Rightarrow> 0 | Some e \<Rightarrow> boost_blocks ((e - t) div 2000))"

definition priority_at :: "message \<Rightarrow> nat \<Rightarrow> nat" where
  "priority_at m t =
     (if expired_at m t then 0
      else unat (priority m) + unat (retry_count m)
           + (t - unat (created_at_ms m)) div 2000 + boost_at m t)"

text \<open>
  A message in the range the library works in: the priority as \<open>message_new\<close> clamps it,
  the retry counter as the sender leaves it, and a creation time far enough from the end
  of the 64-bit range that the longest deadline still fits.
\<close>

definition wf_message :: "message \<Rightarrow> bool" where
  "wf_message m \<longleftrightarrow>
     priority m \<le> MAX_PRIORITY \<and> retry_count m \<le> MAX_RETRIES \<and>
     unat (created_at_ms m) < 2 ^ 64 - 2 ^ 32"

lemmas message_consts = MAX_PRIORITY_def BLOCK_TIME_MS_def POINTS_PER_BLOCK_def MAX_RETRIES_def
  DEADLINE_BOOST_NEAR_BLOCKS_def DEADLINE_BOOST_FAR_BLOCKS_def

subsection \<open>Constructors and the retry budget\<close>

lemma wf_message_new:
  "unat now < 2 ^ 64 - 2 ^ 32 \<Longrightarrow> wf_message (message_new to gas val data prio deadline now)"
  by (simp add: wf_message_def message_new_def message_consts)

lemma unat_MAX_RETRIES [simp]: "unat MAX_RETRIES = 3"
  by (simp add: message_consts)

lemma can_retry_iff: "can_retry m \<longleftrightarrow> unat (retry_count m) < 3"
  by (simp add: can_retry_def word_less_nat_alt)

lemma increment_retry_count:
  "unat (retry_count (fst (increment_retry m))) = min (Suc (unat (retry_count m))) (2 ^ 32 - 1)"
  by (simp add: increment_retry_def Let_def unat_saturating_add)

lemma increment_retry_snd: "snd (increment_retry m) \<longleftrightarrow> unat (retry_count m) < 2"
  using increment_retry_count [of m]
  by (auto simp: increment_retry_def Let_def can_retry_iff)

lemma increment_retry_frame [simp]:
  "msg_to (fst (increment_retry m)) = msg_to m"
  "msg_value (fst (increment_retry m)) = msg_value m"
  "msg_data (fst (increment_retry m)) = msg_data m"
  "msg_gas (fst (increment_retry m)) = msg_gas m"
  "priority (fst (increment_retry m)) = priority m"
  "deadline_ms (fst (increment_retry m)) = deadline_ms m"
  "created_at_ms (fst (increment_retry m)) = created_at_ms m"
  by (simp_all add: increment_retry_def Let_def)

lemma expiry_increment_retry [simp]: "expiry (fst (increment_retry m)) = expiry m"
  by (simp add: expiry_def)

subsection \<open>Expiry and the deadline term\<close>

lemma abs_deadline_ok:
  assumes "wf_message m"
  shows "rust_add oc (created_at_ms m) (ucast (d :: u32)) = Some (created_at_ms m + ucast d)"
    and "unat (created_at_ms m + ucast d) = unat (created_at_ms m) + unat d"
proof -
  have "unat (ucast d :: u64) = unat d" by (simp add: unat_ucast_up)
  moreover have "unat d < 2 ^ 32" using unsigned_less [of d] by simp
  ultimately have "unat (created_at_ms m) + unat (ucast d :: u64) < 2 ^ 64"
    using assms by (simp add: wf_message_def)
  then show "rust_add oc (created_at_ms m) (ucast d) = Some (created_at_ms m + ucast d)"
    and "unat (created_at_ms m + ucast d) = unat (created_at_ms m) + unat d"
    using \<open>unat (ucast d :: u64) = unat d\<close> by (simp_all add: rust_ok)
qed

lemma is_expired_eq:
  "wf_message m \<Longrightarrow> is_expired oc m now = Some (expired_at m (unat now))"
  by (auto simp: is_expired_def expired_at_def expiry_def abs_deadline_ok word_le_nat_alt
      split: option.splits)

lemma boost_arith:
  fixes b :: u64
  assumes "2 \<le> unat b" and "unat b < 10"
  shows "(do {
      range \<leftarrow> rust_sub oc DEADLINE_BOOST_FAR_BLOCKS DEADLINE_BOOST_NEAR_BLOCKS;
      dist \<leftarrow> rust_sub oc b DEADLINE_BOOST_NEAR_BLOCKS;
      let max_boost = (ucast MAX_PRIORITY :: u64);
      let min_boost = max_boost div 3;
      span \<leftarrow> rust_sub oc max_boost min_boost;
      scaled \<leftarrow> rust_mul oc span dist;
      boost \<leftarrow> rust_sub oc max_boost (scaled div range);
      Some (Some (ucast boost :: u32))
    }) = Some (Some (of_nat (boost_blocks (unat b))))"
proof -
  have "unat b \<in> {2, 3, 4, 5, 6, 7, 8, 9}" using assms by auto
  then have "b \<in> {2, 3, 4, 5, 6, 7, 8, 9}"
    by (auto simp: word_unat_eq_iff)
  then show ?thesis
    by (elim insertE emptyE)
      (simp_all add: message_consts rust_sub_def rust_mul_def boost_blocks_def)
qed

lemma deadline_factor_eq:
  assumes "wf_message m"
  shows "deadline_factor oc m now = Some (case expiry m of None \<Rightarrow> None
     | Some e \<Rightarrow> if e \<le> unat now then Some 0
         else let b = (e - unat now) div 2000
              in if b < 10 then Some (of_nat (boost_blocks b)) else None)"
proof (cases "deadline_ms m")
  case None
  then show ?thesis by (simp add: deadline_factor_def expiry_def)
next
  case (Some d)
  define a where "a = created_at_ms m + ucast d"
  have a: "unat a = unat (created_at_ms m) + unat d"
    "rust_add oc (created_at_ms m) (ucast d) = Some a"
    using abs_deadline_ok [OF assms] by (simp_all add: a_def)
  show ?thesis
  proof (cases "a \<le> now")
    case True
    then show ?thesis using Some a by (simp add: deadline_factor_def expiry_def word_le_nat_alt)
  next
    case False
    then have le: "now \<le> a" by simp
    define b where "b = (a - now) div 2000"
    have b: "unat b = (unat a - unat now) div 2000"
      using le by (simp add: b_def rust_ok)
    have near: "unat b < 2 \<Longrightarrow> boost_blocks (unat b) = 100" by (simp add: boost_blocks_def)
    have cmp: "b < 2 \<longleftrightarrow> unat b < 2" "b < 10 \<longleftrightarrow> unat b < 10"
      by (simp_all add: word_less_nat_alt)
    have "deadline_factor oc m now =
        (if unat b < 10 then Some (Some (of_nat (boost_blocks (unat b)))) else Some None)"
      using Some a(2) False boost_arith [of b oc] near
      by (auto simp: deadline_factor_def Let_def rust_sub_ok [OF le] message_consts
          b_def [symmetric] cmp)
    then show ?thesis
      using Some a False b by (simp add: expiry_def word_le_nat_alt Let_def)
  qed
qed

lemma boost_blocks_range: "b < 10 \<Longrightarrow> 42 \<le> boost_blocks b \<and> boost_blocks b \<le> 100"
proof -
  assume "b < 10"
  then have "67 * (b - 2) div 8 \<le> 58" by (intro div_le_mono [of _ 469 8, simplified]) simp
  then have "42 \<le> 100 - 67 * (b - 2) div 8" by linarith
  then show ?thesis using \<open>b < 10\<close> unfolding boost_blocks_def by (simp only: if_True) auto
qed

lemma boost_blocks_far: "\<not> b < 10 \<Longrightarrow> boost_blocks b = 0"
  by (simp add: boost_blocks_def)

lemma boost_blocks_antimono:
  assumes "b \<le> b'"
  shows "boost_blocks b' \<le> boost_blocks b"
proof -
  have "67 * (b - 2) div 8 \<le> 67 * (b' - 2) div 8" using assms by (intro div_le_mono) simp
  then have "100 - 67 * (b' - 2) div 8 \<le> 100 - 67 * (b - 2) div 8" by (rule diff_le_mono2)
  then show ?thesis using assms unfolding boost_blocks_def by (auto simp only: split: if_splits)
qed

lemma boost_at_le: "boost_at m t \<le> 100"
  using boost_blocks_range
  by (auto simp: boost_at_def boost_blocks_def split: option.splits)

lemma boost_at_mono:
  "t \<le> t' \<Longrightarrow> boost_at m t \<le> boost_at m t'"
  by (auto simp: boost_at_def split: option.splits intro!: boost_blocks_antimono div_le_mono)

lemma unat_of_nat_boost [simp]: "b < 10 \<Longrightarrow> unat (of_nat (boost_blocks b) :: u32) = boost_blocks b"
  using boost_blocks_range [of b] by (simp add: unat_of_nat take_bit_nat_eq_self)

lemma deadline_factor_value:
  assumes "wf_message m"
  obtains f where "deadline_factor oc m now = Some f"
    and "f = Some 0 \<longleftrightarrow> expired_at m (unat now)"
    and "\<not> expired_at m (unat now) \<Longrightarrow>
           unat (case f of None \<Rightarrow> 0 | Some x \<Rightarrow> x) = boost_at m (unat now)"
proof -
  have nz: "(of_nat (boost_blocks b) :: u32) \<noteq> 0" if "b < 10" for b
    using boost_blocks_range [OF that] unat_of_nat_boost [OF that] by (metis unat_0 not_numeral_le_zero)
  show ?thesis
    by (rule that, rule deadline_factor_eq [OF assms])
      (auto simp: expired_at_def boost_at_def Let_def nz boost_blocks_far
        dest: nz split: option.splits)
qed

subsection \<open>The effective priority\<close>

text \<open>
  The age of the message, in blocks, leaves room for the other three terms. With a
  creation time of this century that holds until the year 2242.
\<close>

definition age_in_range :: "message \<Rightarrow> u64 \<Rightarrow> bool" where
  "age_in_range m now \<longleftrightarrow> (unat now - unat (created_at_ms m)) div 2000 < 2 ^ 32 - 203"

lemma effective_priority_value:
  assumes wf: "wf_message m" and age: "age_in_range m now"
  obtains p where "effective_priority oc m now = Some p" and "unat p = priority_at m (unat now)"
proof -
  obtain f where f: "deadline_factor oc m now = Some f"
    and exp: "f = Some 0 \<longleftrightarrow> expired_at m (unat now)"
    and boost: "\<not> expired_at m (unat now) \<Longrightarrow>
      unat (case f of None \<Rightarrow> 0 | Some x \<Rightarrow> x) = boost_at m (unat now)"
    using deadline_factor_value [OF wf] by metis
  show ?thesis
  proof (cases "expired_at m (unat now)")
    case True
    then show ?thesis using that [of 0] f exp by (simp add: effective_priority_def priority_at_def)
  next
    case False
    define d where "d = (case f of None \<Rightarrow> 0 | Some x \<Rightarrow> x)"
    define g where "g = (ucast (saturating_sub now (created_at_ms m) div BLOCK_TIME_MS) :: u32)"
    have d: "unat d = boost_at m (unat now)" using boost False by (simp add: d_def)
    have g: "unat g = (unat now - unat (created_at_ms m)) div 2000"
      using age by (simp add: g_def unat_ucast_small message_consts age_in_range_def)
    have small: "unat (priority m) \<le> 100" "unat (retry_count m) \<le> 3" "unat d \<le> 100"
      "unat g < 2 ^ 32 - 203"
      using wf age boost_at_le [of m "unat now"]
      by (simp_all add: wf_message_def message_consts word_le_nat_alt d g age_in_range_def)
    define p where "p = priority m + retry_count m + g + d"
    have "effective_priority oc m now = Some p"
      using f exp False small
      by (simp add: effective_priority_def Let_def rust_ok p_def message_consts
          g_def [symmetric, unfolded message_consts] d_def [symmetric])
    moreover have "unat p = priority_at m (unat now)"
      using False small by (simp add: p_def rust_ok priority_at_def g d)
    ultimately show ?thesis using that by blast
  qed
qed

lemma priority_at_mono:
  assumes "t \<le> t'" and "\<not> expired_at m t'"
  shows "priority_at m t \<le> priority_at m t'"
proof -
  have "\<not> expired_at m t"
    using assms by (auto simp: expired_at_def split: option.splits)
  moreover have "(t - unat (created_at_ms m)) div 2000 \<le> (t' - unat (created_at_ms m)) div 2000"
    using assms(1) by (intro div_le_mono) simp
  ultimately show ?thesis
    using assms boost_at_mono [of t t' m] by (simp add: priority_at_def)
qed

subsection \<open>Properties\<close>

lemma iterate_increment_retry:
  "k < 2 ^ 32 \<Longrightarrow> retry_count m = 0 \<Longrightarrow>
   unat (retry_count (((\<lambda>m. fst (increment_retry m)) ^^ k) m)) = k"
  by (induction k) (simp_all add: increment_retry_count)



text \<open>
  The two places that look at the deadline agree: \<open>is_expired\<close> holds exactly when the
  deadline term is \<open>Some 0\<close>, which is exactly when the absolute expiry time has been
  reached, and then the effective priority is 0. A boost of a live message is never the
  sentinel 0.
\<close>
lemma expiry_tests_agree:
  assumes "wf_message m"
  shows "is_expired oc m now = Some (expired_at m (unat now)) \<and>
    (deadline_factor oc m now = Some (Some 0) \<longleftrightarrow> expired_at m (unat now)) \<and>
    (expired_at m (unat now) \<longrightarrow> effective_priority oc m now = Some 0)"
proof -
  obtain f where "deadline_factor oc m now = Some f" and "f = Some 0 \<longleftrightarrow> expired_at m (unat now)"
    using deadline_factor_value [OF assms] by metis
  then show ?thesis
    by (simp add: is_expired_eq [OF assms] effective_priority_def)
qed

text \<open>
  While a message waits its priority never falls: for two times of which the later is
  still before the deadline, the effective priority at the later time is at least the one
  at the earlier time (ageing and the deadline boost both only grow).
\<close>
lemma waiting_never_lowers_priority:
  assumes "wf_message m" and "age_in_range m now'" and "now \<le> now'"
    and "is_expired oc m now' = Some False"
    and "effective_priority oc m now = Some p" and "effective_priority oc m now' = Some p'"
  shows "p \<le> p'"
proof -
  have le: "unat now \<le> unat now'" using assms(3) by (simp add: word_le_nat_alt)
  have "age_in_range m now"
    using assms(2) le div_le_mono [of "unat now - unat (created_at_ms m)"
        "unat now' - unat (created_at_ms m)" 2000]
    by (simp add: age_in_range_def)
  then have "unat p = priority_at m (unat now)" "unat p' = priority_at m (unat now')"
    using effective_priority_value [OF assms(1), of _ oc] assms(2,5,6) by (metis option.inject)+
  moreover have "\<not> expired_at m (unat now')"
    using assms(4) by (simp add: is_expired_eq [OF assms(1)])
  ultimately show ?thesis
    using priority_at_mono [OF le] by (simp add: word_le_nat_alt)
qed

text \<open>
  The retry budget: after \<open>k\<close> increments a new message has retry count \<open>k\<close>, and the
  next increment reports that a retry is allowed exactly for \<open>k < 2\<close>. So a message gets
  two retries after its first attempt before the third increment reports exhaustion.
\<close>
lemma retry_budget:
  assumes "k < 2 ^ 32"
  shows "let m = ((\<lambda>m. fst (increment_retry m)) ^^ k) (message_new to gas val data prio deadline now)
    in unat (retry_count m) = k \<and> (snd (increment_retry m) \<longleftrightarrow> k < 2) \<and> (can_retry m \<longleftrightarrow> k < 3)"
  using iterate_increment_retry [OF assms, of "message_new to gas val data prio deadline now"]
  by (simp add: Let_def increment_retry_snd can_retry_iff message_new_def)

text \<open>
  The deadline boost of a live message is at least 42 and at most 100 and never grows
  with the time left: it falls linearly from 100 at two blocks to 42 at nine blocks and
  there is none from ten blocks on.
\<close>
lemma deadline_boost_range:
  assumes "wf_message m" and "expiry m = Some e" and "unat now < e"
  shows "(\<exists>x. deadline_factor oc m now = Some (Some x) \<and> 42 \<le> x \<and> x \<le> 100
            \<and> unat x = boost_blocks ((e - unat now) div 2000) \<and> (e - unat now) div 2000 < 10)
    \<or> (deadline_factor oc m now = Some None \<and> 10 \<le> (e - unat now) div 2000)"
proof (cases "(e - unat now) div 2000 < 10")
  case True
  then show ?thesis
    using assms boost_blocks_range [OF True]
    by (simp add: deadline_factor_eq Let_def word_le_nat_alt)
next
  case False
  then show ?thesis using assms by (simp add: deadline_factor_eq Let_def)
qed

end
