(* ===== verification/Adapter.thy ===== *)
theory Adapter
  imports Message
begin

text \<open>
  The chain-agnostic vocabulary: the error types of crates/bulkmail/src/lib.rs and
  chain.rs, and the types and traits of adapter/mod.rs. A trait is the record of functions
  a \<open>ChainAdapter\<close> supplies; what its implementations promise each other is a locale.
  Errors and texts of the third-party crates are kept as far as the source looks at them:
  of an RPC error only the code of an error response is ever inspected.
\<close>

type_synonym b256 = "256 word"

datatype rpc_error = ErrorResp int string | OtherRpcError string

datatype chain_error = Rpc rpc_error | Subscription string | Signing string

datatype error =
    RpcError rpc_error
  | SigningError string
  | PendingTransactionError string
  | TooManyDependencies u64
  | GasPriceError string
  | MessageExpired
  | RetriesExceeded
  | FeeIncreasesExceeded
  | GasPriceTooLow
  | SimulationFailed
  | ChainError chain_error
  | TransactionDropped b256
  | TransactionReverted b256
  | SubscriptionClosed
  | SolanaError string

type_synonym 'a result = "error + 'a"

datatype 'id send_outcome = Confirmed 'id | Dropped 'id | Reverted 'id

datatype transaction_status =
    StatusPending
  | StatusConfirmed u64
  | StatusFinalized u64
  | StatusFailed string
  | StatusExpired

datatype ('fee, 'tok) retry_decision = Resubmit 'fee 'tok | Requeue | Abandon

text \<open>Durations are counted in nanoseconds, instants in nanoseconds of a monotonic clock.\<close>

type_synonym duration = nat

record ('fee, 'tok, 'id) pending_transaction =
  pend_msg :: message
  pend_tx_id :: 'id
  pend_fee :: 'fee
  pend_replay_token :: 'tok
  pend_created_at :: duration
  pend_replacement_count :: u32

text \<open>
  The components a \<open>ChainAdapter\<close> binds together, as the sender calls them: \<open>'r\<close> is the
  state of its replay protection and \<open>'f\<close> that of its fee manager. \<open>None\<close> is a call that
  does not return (it panics). What the outside world answers is an argument: \<open>'rep\<close> are
  the answers to one submission and \<open>'sync\<close> those to one synchronisation with the chain.
\<close>

record ('r, 'f, 'fee, 'tok, 'id, 'rep, 'sync) chain_adapter =
  client_send :: "bool \<Rightarrow> message \<Rightarrow> 'fee \<Rightarrow> 'tok \<Rightarrow> 'rep \<Rightarrow> 'id send_outcome result option"
  replay_next :: "bool \<Rightarrow> 'r \<Rightarrow> ('tok \<times> 'r) option"
  replay_release :: "'tok \<Rightarrow> 'r \<Rightarrow> 'r"
  replay_sync :: "bool \<Rightarrow> 'sync \<Rightarrow> 'r \<Rightarrow> (unit result \<times> 'r) option"
  fee_params :: "bool \<Rightarrow> u32 \<Rightarrow> 'f \<Rightarrow> 'fee result option"
  handle_confirmed :: "bool \<Rightarrow> ('fee, 'tok, 'id) pending_transaction \<Rightarrow> duration \<Rightarrow> 'f \<times> 'r \<Rightarrow> ('f \<times> 'r) option"
  handle_dropped :: "bool \<Rightarrow> ('fee, 'tok, 'id) pending_transaction \<Rightarrow> 'f \<times> 'r \<Rightarrow>
    (('fee, 'tok) retry_decision \<times> 'f \<times> 'r) option"

text \<open>
  What a replay protection with exclusive tokens promises. \<open>busy\<close> is the set of tokens
  that must not be handed out: spent ones and ones in use. \<open>fits k\<close> bounds the state so
  that the next token exists; every hand-out raises the bound by one, nothing else does.
\<close>

locale exclusive_tokens =
  fixes next_token :: "'r \<Rightarrow> ('tok \<times> 'r) option"
    and release :: "'tok \<Rightarrow> 'r \<Rightarrow> 'r"
    and advance :: "'tok \<Rightarrow> 'r \<Rightarrow> 'r"
    and busy :: "'r \<Rightarrow> 'tok set"
    and fits :: "nat \<Rightarrow> 'r \<Rightarrow> bool"
    and bounded :: "nat \<Rightarrow> 'tok \<Rightarrow> bool"
    and limit :: nat
  assumes next_total: "fits k r \<Longrightarrow> k < limit \<Longrightarrow> \<exists>t r'. next_token r = Some (t, r')"
    and next_fresh: "fits k r \<Longrightarrow> k < limit \<Longrightarrow> next_token r = Some (t, r') \<Longrightarrow>
      t \<notin> busy r \<and> busy r' = insert t (busy r) \<and> fits (Suc k) r'"
    and release_busy: "busy r - {t} \<subseteq> busy (release t r) \<and> busy (release t r) \<subseteq> busy r"
    and release_fits: "fits k r \<Longrightarrow> fits k (release t r)"
    and advance_busy: "busy r \<subseteq> busy (advance t r)"
    and advance_fits: "fits k r \<Longrightarrow> bounded k t \<Longrightarrow> fits k (advance t r)"
    and fits_mono: "fits k r \<Longrightarrow> k \<le> k' \<Longrightarrow> fits k' r"
    and bounded_mono: "bounded k t \<Longrightarrow> k \<le> k' \<Longrightarrow> bounded k' t"

datatype 'tok token_op = TakeToken | ReleaseToken 'tok | AdvanceTo 'tok

context exclusive_tokens
begin

text \<open>A history of operations, and the tokens it hands out.\<close>

fun run_ops :: "'tok token_op list \<Rightarrow> 'r \<Rightarrow> ('tok list \<times> 'r) option" where
  "run_ops [] r = Some ([], r)"
| "run_ops (TakeToken # ops) r =
     (case next_token r of None \<Rightarrow> None
      | Some (t, r') \<Rightarrow> map_option (\<lambda>(ts, r''). (t # ts, r'')) (run_ops ops r'))"
| "run_ops (ReleaseToken t # ops) r = run_ops ops (release t r)"
| "run_ops (AdvanceTo t # ops) r = run_ops ops (advance t r)"

lemma run_ops_never_hands_out_busy:
  assumes "run_ops ops r = Some (ts, r')" and "fits k r" and "k + length ops \<le> limit"
    and "\<forall>t'. AdvanceTo t' \<in> set ops \<longrightarrow> bounded k t'"
    and "ReleaseToken t \<notin> set ops" and "t \<in> busy r"
  shows "t \<notin> set ts \<and> t \<in> busy r'"
  using assms
proof (induction ops r arbitrary: ts k rule: run_ops.induct)
  case (1 r)
  then show ?case by simp
next
  case (2 ops r)
  then obtain u s us where n: "next_token r = Some (u, s)" and ops: "run_ops ops s = Some (us, r')"
    and ts: "ts = u # us" by (auto split: option.splits)
  have u: "u \<notin> busy r" "busy s = insert u (busy r)" "fits (Suc k) s"
    using next_fresh [OF "2.prems"(2) _ n] "2.prems"(3) by auto
  have "t \<notin> set us \<and> t \<in> busy r'"
    using "2.prems" u ops by (intro "2.IH" [OF n refl, of us "Suc k"]) (auto intro: bounded_mono)
  then show ?case using u "2.prems"(6) ts by auto
next
  case (3 u ops r)
  have "t \<in> busy (release u r)" using release_busy [of r u] "3.prems"(5,6) by auto
  then show ?case using "3.prems" by (intro "3.IH" [of ts k]) (auto intro: release_fits)
next
  case (4 u ops r)
  have "t \<in> busy (advance u r)" using advance_busy [of r u] "4.prems"(6) by auto
  then show ?case using "4.prems" by (intro "4.IH" [of ts k]) (auto intro: advance_fits)
qed

lemma run_ops_distinct:
  assumes "run_ops ops r = Some (ts, r')" and "fits k r" and "k + length ops \<le> limit"
    and "\<forall>t'. AdvanceTo t' \<in> set ops \<longrightarrow> bounded k t'" and "\<forall>t. ReleaseToken t \<notin> set ops"
  shows "distinct ts"
  using assms
proof (induction ops r arbitrary: ts k rule: run_ops.induct)
  case (2 ops r)
  then obtain u s us where n: "next_token r = Some (u, s)" and ops: "run_ops ops s = Some (us, r')"
    and ts: "ts = u # us" by (auto split: option.splits)
  have u: "busy s = insert u (busy r)" "fits (Suc k) s"
    using next_fresh [OF "2.prems"(2) _ n] "2.prems"(3) by auto
  have rest: "Suc k + length ops \<le> limit" "\<forall>t'. AdvanceTo t' \<in> set ops \<longrightarrow> bounded (Suc k) t'"
    "\<forall>t. ReleaseToken t \<notin> set ops"
    using "2.prems" by (auto intro: bounded_mono)
  have "u \<notin> set us"
    using run_ops_never_hands_out_busy [OF ops u(2) rest(1,2), of u] rest(3) u(1) by auto
  then show ?case using "2.IH" [OF n refl ops u(2) rest] ts by simp
next
  case (3 u ops r)
  then show ?case by (intro "3.IH" [of ts k]) (auto intro: release_fits)
next
  case (4 u ops r)
  then show ?case by (intro "4.IH" [of ts k]) (auto intro: advance_fits)
qed simp

lemma run_ops_total:
  assumes "fits k r" and "k + length ops \<le> limit"
    and "\<forall>t'. AdvanceTo t' \<in> set ops \<longrightarrow> bounded k t'"
  shows "\<exists>ts r'. run_ops ops r = Some (ts, r')"
  using assms
proof (induction ops r arbitrary: k rule: run_ops.induct)
  case (2 ops r)
  then obtain u s where n: "next_token r = Some (u, s)" using next_total [of k r] by auto
  then have "fits (Suc k) s" using next_fresh [OF "2.prems"(1) _ n] "2.prems"(2) by auto
  then show ?case
    using "2.IH" [OF n refl, of "Suc k"] "2.prems" n by (fastforce intro: bounded_mono)
next
  case (3 u ops r)
  then show ?case using "3.IH" [of k] by (simp add: release_fits)
next
  case (4 u ops r)
  then show ?case using "4.IH" [of k] by (simp add: advance_fits)
qed simp

end

subsection \<open>The contract of an adapter with exclusive tokens\<close>

text \<open>
  What the sender relies on beyond the tokens: the fee manager answers and updates while
  its state is in range (\<open>fees_ok\<close>), a fee after \<open>n\<close> replacements is in range (\<open>fee_ok n\<close>),
  submitting with such a fee returns, a confirmation advances the replay protection to the
  confirmed token, and a drop within the retry budget is answered by a resubmission under
  the same token that leaves the shared state alone. \<open>targets\<close> are the tokens a
  synchronisation may advance to.
\<close>

locale retry_adapter =
  exclusive_tokens "replay_next A oc" "replay_release A" advance busy fits bounded limit
  for A :: "('r, 'f, 'fee, 'tok, 'id, 'rep, 'sync) chain_adapter" and oc :: bool
    and advance :: "'tok \<Rightarrow> 'r \<Rightarrow> 'r" and busy :: "'r \<Rightarrow> 'tok set"
    and fits :: "nat \<Rightarrow> 'r \<Rightarrow> bool" and bounded :: "nat \<Rightarrow> 'tok \<Rightarrow> bool" and limit :: nat +
  fixes fees_ok :: "'f \<Rightarrow> bool" and fee_ok :: "nat \<Rightarrow> 'fee \<Rightarrow> bool"
    and targets :: "'sync \<Rightarrow> 'tok set" and latest :: duration
  assumes busy_within: "fits k r \<Longrightarrow> t \<in> busy r \<Longrightarrow> bounded k t"
    and send_returns: "fee_ok n fee \<Longrightarrow> n \<le> 3 \<Longrightarrow> \<exists>res. client_send A oc m fee t rep = Some res"
    and sync_advances: "\<exists>res r'. replay_sync A oc reply r = Some (res, r') \<and>
      (r' = r \<or> (\<exists>t \<in> targets reply. r' = advance t r))"
    and fee_params_ok: "fees_ok f \<Longrightarrow> \<exists>res. fee_params A oc prio f = Some res \<and>
      (\<forall>fee. res = Inr fee \<longrightarrow> fee_ok 0 fee)"
    and confirmed_ok: "fees_ok f \<Longrightarrow> fee_ok n (pend_fee p) \<Longrightarrow> n \<le> 3 \<Longrightarrow> d \<le> latest \<Longrightarrow>
      \<exists>f'. handle_confirmed A oc p d (f, r) = Some (f', advance (pend_replay_token p) r) \<and> fees_ok f'"
    and dropped_ok: "can_retry (pend_msg p) \<Longrightarrow> unat (pend_replacement_count p) = n \<Longrightarrow> n < 3 \<Longrightarrow>
      fee_ok n (pend_fee p) \<Longrightarrow>
      \<exists>fee. handle_dropped A oc p (f, r) = Some (Resubmit fee (pend_replay_token p), f, r) \<and> fee_ok (Suc n) fee"

end
