(* ===== verification/Gas_Price.thy ===== *)
theory Gas_Price
  imports F64 Adapter
begin

text \<open>
  The priority-fee estimator of crates/bulkmail/src/gas_price.rs: the rolling window of
  confirmation times, the congestion level read off it, the fee for a message priority and
  the update on a confirmation. The percentage is computed in binary floating point, so
  its exact values are established first.
\<close>

definition MAX_PRIORITY_FEE :: u128 where "MAX_PRIORITY_FEE = 100000000000"
definition INITIAL_PRIORITY_FEE :: u128 where "INITIAL_PRIORITY_FEE = 1000000000"
definition INITIAL_BASE_FEE :: u128 where "INITIAL_BASE_FEE = 2000000000"
definition CONFIRMATION_TIME_WINDOW :: nat where "CONFIRMATION_TIME_WINDOW = 10"
definition CONGESTION_THRESHOLD_LOW :: duration where "CONGESTION_THRESHOLD_LOW = 15 * 10 ^ 9"
definition CONGESTION_THRESHOLD_MEDIUM :: duration where "CONGESTION_THRESHOLD_MEDIUM = 60 * 10 ^ 9"

datatype congestion_level = Low | Medium | High

fun multiplier :: "congestion_level \<Rightarrow> u128" where
  "multiplier Low = 1"
| "multiplier Medium = 2"
| "multiplier High = 3"

record gas_price_manager =
  confirmation_times :: "duration list"
  priority_fee :: u128

definition gas_price_new :: gas_price_manager where
  "gas_price_new = \<lparr>confirmation_times = [], priority_fee = INITIAL_PRIORITY_FEE\<rparr>"

text \<open>
  The sum of durations panics, in every build, when the seconds leave the 64-bit range;
  dividing a duration by an integer rounds down to a nanosecond.
\<close>

definition duration_sum :: "duration list \<Rightarrow> duration option" where
  "duration_sum ds = (if sum_list ds < 2 ^ 64 * 10 ^ 9 then Some (sum_list ds) else None)"

definition analyze_network_congestion :: "gas_price_manager \<Rightarrow> congestion_level option" where
  "analyze_network_congestion g =
     (if confirmation_times g = [] then Some Medium
      else do {
        total \<leftarrow> duration_sum (confirmation_times g);
        let avg_time = total div length (confirmation_times g);
        Some (if avg_time < CONGESTION_THRESHOLD_LOW then Low
              else if avg_time < CONGESTION_THRESHOLD_MEDIUM then Medium
              else High)
      })"

definition percent :: "u32 \<Rightarrow> u32 \<Rightarrow> u128" where
  "percent x y = f64_to_word (f64_mul (f64_div (f64_of_word x) (f64_of_word y)) (Finite 100))"

definition calculate_priority_fee :: "bool \<Rightarrow> gas_price_manager \<Rightarrow> u32 \<Rightarrow> u128 option" where
  "calculate_priority_fee oc g prio =
     do {
       congestion \<leftarrow> analyze_network_congestion g;
       priority_multiplier \<leftarrow> rust_add oc 100 (percent (min prio MAX_PRIORITY) MAX_PRIORITY);
       scaled \<leftarrow> rust_mul oc (priority_fee g) (multiplier congestion);
       fee \<leftarrow> rust_mul oc scaled priority_multiplier;
       Some (min (fee div 100) MAX_PRIORITY_FEE)
     }"

definition get_base_fee :: "gas_price_manager \<Rightarrow> u128" where
  "get_base_fee g = INITIAL_BASE_FEE"

definition get_gas_price :: "bool \<Rightarrow> gas_price_manager \<Rightarrow> u32 \<Rightarrow> (u128 \<times> u128) result option" where
  "get_gas_price oc g prio =
     map_option (\<lambda>fee. Inr (get_base_fee g, fee)) (calculate_priority_fee oc g prio)"

definition update_on_confirmation ::
  "bool \<Rightarrow> duration \<Rightarrow> u128 \<Rightarrow> gas_price_manager \<Rightarrow> gas_price_manager option" where
  "update_on_confirmation oc confirmation_time used_priority_fee g =
     do {
       let times = confirmation_times g @ [confirmation_time];
       let times = (if CONFIRMATION_TIME_WINDOW < length times then tl times else times);
       total \<leftarrow> rust_add oc (priority_fee g) used_priority_fee;
       Some (g\<lparr>confirmation_times := times, priority_fee := total div 2\<rparr>)
     }"

lemmas gas_price_consts = MAX_PRIORITY_FEE_def INITIAL_PRIORITY_FEE_def INITIAL_BASE_FEE_def
  CONFIRMATION_TIME_WINDOW_def CONGESTION_THRESHOLD_LOW_def CONGESTION_THRESHOLD_MEDIUM_def

text \<open>
  The range in which no build panics or wraps: a full window of samples of at most
  \<open>2^60\<close> seconds each, and a fee below \<open>2^100\<close> wei.
\<close>

definition in_range :: "duration \<Rightarrow> u128 \<Rightarrow> bool" where
  "in_range d fee \<longleftrightarrow> d \<le> 2 ^ 60 * 10 ^ 9 \<and> unat fee < 2 ^ 100"

definition wf_gas_price :: "gas_price_manager \<Rightarrow> bool" where
  "wf_gas_price g \<longleftrightarrow> length (confirmation_times g) \<le> 10 \<and> unat (priority_fee g) < 2 ^ 100 \<and>
     (\<forall>d \<in> set (confirmation_times g). d \<le> 2 ^ 60 * 10 ^ 9)"

text \<open>The specification over the natural numbers.\<close>

definition congestion_of :: "duration list \<Rightarrow> congestion_level" where
  "congestion_of ds =
     (if ds = [] then Medium
      else if sum_list ds < 15 * 10 ^ 9 * length ds then Low
      else if sum_list ds < 60 * 10 ^ 9 * length ds then Medium else High)"

definition pct_val :: "nat \<Rightarrow> nat" where
  "pct_val x = (if x = 29 \<or> x = 57 \<or> x = 58 then x - 1 else x)"

definition fee_spec :: "nat \<Rightarrow> congestion_level \<Rightarrow> nat \<Rightarrow> nat" where
  "fee_spec base level prio =
     min (base * unat (multiplier level) * (100 + pct_val (min prio 100)) div 100) 100000000000"

subsection \<open>The percentage in floating point\<close>

text \<open>The two roundings of \<open>percent x 100\<close> on integers, for \<open>2^j \<le> x < 2^(j+1)\<close>.\<close>

definition pct_exps :: "int \<Rightarrow> nat \<times> nat" where
  "pct_exps x =
    ((if 50 \<le> x then 1 else if 25 \<le> x then 2 else if 13 \<le> x then 3 else if 7 \<le> x then 4
      else if 4 \<le> x then 5 else if 2 \<le> x then 6 else 7),
     (if 64 \<le> x then 6 else if 32 \<le> x then 5 else if 16 \<le> x then 4 else if 8 \<le> x then 3
      else if 4 \<le> x then 2 else if 2 \<le> x then 1 else 0))"

definition pct_ok :: "int \<Rightarrow> bool" where
  "pct_ok x = (let (k, j) = pct_exps x;
     q = rne_frac (x * 2 ^ (52 + k)) 100;
     p = rne_frac (100 * q * 2 ^ (52 - j)) (2 ^ (52 + k))
   in 100 \<le> x * 2 ^ k \<and> x * 2 ^ k < 200 \<and> 0 \<le> q \<and> q \<le> 2 ^ (52 + k)
     \<and> 2 ^ j * 2 ^ (52 + k) \<le> 100 * q \<and> 100 * q < 2 ^ (j + 1) * 2 ^ (52 + k)
     \<and> p div 2 ^ (52 - j) = (if x = 29 \<or> x = 57 \<or> x = 58 then x - 1 else x))"

lemma pct_table: "list_all pct_ok [1..99]"
  by code_simp

lemma floor_frac_pow: "\<lfloor>of_int p / 2 ^ n :: rat\<rfloor> = p div 2 ^ n"
  by (metis floor_divide_of_int_eq of_int_numeral of_int_power)

lemma percent_roundings:
  assumes "0 < n" and "n < 100"
  shows "\<exists>q :: rat. 0 \<le> q \<and> q \<le> 1 \<and> rnd (of_nat n / 100) = q \<and> 0 \<le> rnd (q * 100) \<and> rnd (q * 100) \<le> 100 \<and>
    \<lfloor>rnd (q * 100)\<rfloor> = int (pct_val n)"
proof -
  define m where "m = int n"
  obtain k j where kj: "pct_exps m = (k, j)" by fastforce
  define q where "q = rne_frac (m * 2 ^ (52 + k)) 100"
  define p where "p = rne_frac (100 * q * 2 ^ (52 - j)) (2 ^ (52 + k))"
  have "m \<in> set [1..99]" using assms by (auto simp: m_def)
  then have "pct_ok m" using pct_table by (simp only: list_all_iff)
  then have t: "100 \<le> m * 2 ^ k" "m * 2 ^ k < 200" "0 \<le> q" "q \<le> 2 ^ (52 + k)"
    "2 ^ j * 2 ^ (52 + k) \<le> 100 * q" "100 * q < 2 ^ (j + 1) * 2 ^ (52 + k)"
    "p div 2 ^ (52 - j) = (if m = 29 \<or> m = 57 \<or> m = 58 then m - 1 else m)"
    by (simp_all only: pct_ok_def kj prod.case Let_def q_def p_def)
  have small: "k \<le> 7" "j \<le> 6" using kj by (auto simp: pct_exps_def split: if_splits)
  let ?q = "of_int q / 2 ^ (52 + k) :: rat"
  have "(of_int 100 :: rat) \<le> of_int (m * 2 ^ k)" "of_int (m * 2 ^ k) < (of_int 200 :: rat)"
    using t by (simp_all only: of_int_le_iff of_int_less_iff)
  then have "2 powi - int k \<le> (of_int m / of_int 100 :: rat)" "of_int m / of_int 100 < (2 powi (- int k + 1) :: rat)"
    by (simp_all add: power_int_minus power_int_diff field_simps)
  then have r1: "rnd (of_int m / of_int 100) = ?q"
    unfolding q_def by (rule rnd_frac [rotated]) (use small in simp_all)
  have "(of_int (2 ^ j * 2 ^ (52 + k)) :: rat) \<le> of_int (100 * q)" "of_int (100 * q) < (of_int (2 ^ (j + 1) * 2 ^ (52 + k)) :: rat)"
    using t by (simp_all only: of_int_le_iff of_int_less_iff)
  then have "2 powi int j \<le> (of_int (100 * q) / of_int (2 ^ (52 + k)) :: rat)" "of_int (100 * q) / of_int (2 ^ (52 + k)) < (2 powi (int j + 1) :: rat)"
    by (simp_all add: power_int_add field_simps)
  then have r2: "rnd (of_int (100 * q) / of_int (2 ^ (52 + k))) = of_int p / 2 ^ (52 - j)"
    unfolding p_def by (rule rnd_frac [rotated]) (use small in simp_all)
  have "of_int q \<le> (of_int (2 ^ (52 + k)) :: rat)" using t(4) by (simp only: of_int_le_iff)
  then have q1: "0 \<le> ?q" "?q \<le> 1" using t(3) by simp_all
  have q100: "of_int (100 * q) / of_int (2 ^ (52 + k)) = ?q * 100" by simp
  have "0 \<le> ?q * 100" "?q * 100 \<le> of_nat 100"
    using mult_right_mono [OF q1(1), of 100] mult_right_mono [OF q1(2), of 100] by simp_all
  then have "rnd (?q * 100) \<le> rnd (of_nat 100)" "0 \<le> rnd (?q * 100)"
    by (simp_all only: rnd_mono rnd_nonneg)
  moreover have "rnd (of_nat 100) = 100" using rnd_of_nat [of 100] by simp
  moreover have "\<lfloor>rnd (?q * 100)\<rfloor> = int (pct_val n)"
    using t(7) assms unfolding r2 [unfolded q100] floor_frac_pow by (simp add: pct_val_def m_def)
  moreover have "rnd (of_nat n / 100) = ?q" using r1 by (simp add: m_def)
  ultimately show ?thesis using q1 by (intro exI [of _ ?q]) simp
qed

lemma percent_value:
  assumes "x \<le> 100"
  shows "unat (percent x 100) = pct_val (unat x)"
proof -
  define n where "n = unat x"
  have n: "n \<le> 100" using assms by (simp add: word_le_nat_alt n_def)
  have f: "f64_of_word x = Finite (of_nat n)" "f64_of_word (100 :: u32) = Finite 100"
    using n f64_of_word_small [of x] f64_of_word_small [of "100 :: u32"] by (simp_all add: n_def)
  consider "n = 0" | "n = 100" | "0 < n" "n < 100" using n by linarith
  then have "unat (percent x 100) = pct_val n"
  proof cases
    case 1
    then show ?thesis by (simp add: percent_def f to_f64_small pct_val_def)
  next
    case 2
    then show ?thesis using rnd_of_nat [of 100] by (simp add: percent_def f to_f64_small pct_val_def)
  next
    case 3
    then obtain q where q: "0 \<le> q" "q \<le> 1" "rnd (of_nat n / 100) = q" "0 \<le> rnd (q * 100)"
      "rnd (q * 100) \<le> 100" "\<lfloor>rnd (q * 100)\<rfloor> = int (pct_val n)"
      using percent_roundings by blast
    have "to_f64 (of_nat n / 100) = Finite q" using n q(3) by (subst to_f64_small) simp_all
    moreover have "to_f64 (q * 100) = Finite (rnd (q * 100))" using q(1,2) by (intro to_f64_small) simp_all
    ultimately have "percent x 100 = f64_to_word (Finite (rnd (q * 100)))"
      by (simp add: percent_def f)
    moreover have "(0 :: rat) < rnd (q * 100)"
      using q(4,6) 3 by (cases "rnd (q * 100) = 0") (auto simp: pct_val_def split: if_splits)
    ultimately have "percent x 100 = word_of_int (int (pct_val n))" using q(5,6) by simp
    moreover have "pct_val n < 2 ^ 128" using n by (simp add: pct_val_def)
    ultimately show ?thesis by (simp add: unat_of_nat take_bit_nat_eq_self)
  qed
  then show ?thesis by (simp add: n_def)
qed

subsection \<open>Congestion and fee\<close>

lemma sum_list_le: "(\<And>d. d \<in> set ds \<Longrightarrow> d \<le> (b :: nat)) \<Longrightarrow> sum_list ds \<le> length ds * b"
  by (induction ds) (auto intro: add_mono)

lemma wf_gas_price_sum:
  assumes "wf_gas_price g"
  shows "sum_list (confirmation_times g) < 2 ^ 64 * 10 ^ 9"
proof -
  have "sum_list (confirmation_times g) \<le> length (confirmation_times g) * (2 ^ 60 * 10 ^ 9)"
    using assms by (intro sum_list_le) (simp add: wf_gas_price_def)
  also have "\<dots> \<le> 10 * (2 ^ 60 * 10 ^ 9)"
    using assms by (intro mult_right_mono) (simp_all add: wf_gas_price_def)
  finally show ?thesis by simp
qed

lemma analyze_network_congestion_value:
  assumes "wf_gas_price g"
  shows "analyze_network_congestion g = Some (congestion_of (confirmation_times g))"
  using wf_gas_price_sum [OF assms]
  by (simp add: analyze_network_congestion_def duration_sum_def congestion_of_def Let_def
      gas_price_consts less_mult_imp_div_less div_less_iff_less_mult)

lemma pct_val_le: "pct_val n \<le> n"
  by (simp add: pct_val_def)

lemma pct_val_mono: "m \<le> n \<Longrightarrow> pct_val m \<le> pct_val n"
  by (auto simp: pct_val_def)

lemma multiplier_range: "1 \<le> unat (multiplier c)" "unat (multiplier c) \<le> 3"
  by (cases c; simp)+

lemma calculate_priority_fee_value:
  assumes "wf_gas_price g"
  shows "\<exists>f. calculate_priority_fee oc g prio = Some f \<and>
    unat f = fee_spec (unat (priority_fee g)) (congestion_of (confirmation_times g)) (unat prio)"
proof -
  let ?c = "congestion_of (confirmation_times g)"
  let ?p = "percent (min prio 100) 100"
  have p: "unat ?p = pct_val (min (unat prio) 100)" using percent_value [of "min prio 100"] by simp
  then have p100: "unat ?p \<le> 100" using pct_val_le [of "min (unat prio) 100"] by simp
  have b: "unat (priority_fee g) < 2 ^ 100" using assms by (simp add: wf_gas_price_def)
  have s: "unat (100 + ?p) = 100 + unat ?p" using p100 by (subst unat_add_ok) simp_all
  have m: "unat (priority_fee g) * unat (multiplier ?c) \<le> 2 ^ 100 * 3"
    using b multiplier_range by (intro mult_mono) simp_all
  then have m': "unat (priority_fee g * multiplier ?c) = unat (priority_fee g) * unat (multiplier ?c)"
    by (intro unat_mult_ok) simp
  have "unat (priority_fee g) * unat (multiplier ?c) * (100 + unat ?p) \<le> 2 ^ 100 * 3 * 200"
    using mult_le_mono [OF m, of "100 + unat ?p" 200] p100 by simp
  then show ?thesis
    using p100 m
    by (simp add: calculate_priority_fee_def analyze_network_congestion_value [OF assms]
        message_consts gas_price_consts rust_add_ok rust_mul_ok m' s unat_mult_ok fee_spec_def p)
qed

subsection \<open>Updates\<close>

lemma update_on_confirmation_value:
  assumes "wf_gas_price g" and "in_range d fee"
  shows "\<exists>g'. update_on_confirmation oc d fee g = Some g' \<and> wf_gas_price g' \<and>
    unat (priority_fee g') = (unat (priority_fee g) + unat fee) div 2 \<and>
    confirmation_times g' = drop (length (confirmation_times g) - 9) (confirmation_times g) @ [d]"
proof -
  have b: "unat (priority_fee g) < 2 ^ 100" "unat fee < 2 ^ 100" "length (confirmation_times g) \<le> 10"
    using assms by (simp_all add: wf_gas_price_def in_range_def)
  then have u: "unat (priority_fee g + fee) = unat (priority_fee g) + unat fee"
    "rust_add oc (priority_fee g) fee = Some (priority_fee g + fee)"
    by (simp_all add: rust_ok)
  have t: "(if CONFIRMATION_TIME_WINDOW < length (confirmation_times g @ [d])
      then tl (confirmation_times g @ [d]) else confirmation_times g @ [d])
    = drop (length (confirmation_times g) - 9) (confirmation_times g) @ [d]" (is "?new = ?win")
  proof (cases "length (confirmation_times g) = 10")
    case True
    then show ?thesis by (cases "confirmation_times g") (simp_all add: gas_price_consts)
  next
    case False
    then show ?thesis using b(3) by (simp add: gas_price_consts)
  qed
  have eq: "update_on_confirmation oc d fee g
      = Some (g\<lparr>confirmation_times := ?win, priority_fee := (priority_fee g + fee) div 2\<rparr>)"
    unfolding update_on_confirmation_def Let_def t u(2) by simp
  have "set (drop (length (confirmation_times g) - 9) (confirmation_times g)) \<subseteq> set (confirmation_times g)"
    by (rule set_drop_subset)
  then show ?thesis
    using assms b by (auto simp: eq u(1) wf_gas_price_def in_range_def)
qed

text \<open>A sequence of confirmations, each with its latency and the fee it used.\<close>

definition record_confirmations ::
  "bool \<Rightarrow> (duration \<times> u128) list \<Rightarrow> gas_price_manager \<Rightarrow> gas_price_manager option" where
  "record_confirmations oc = fold_opt (\<lambda>(d, fee). update_on_confirmation oc d fee)"

lemma record_confirmations_window:
  assumes "wf_gas_price g" and "\<forall>(d, fee) \<in> set us. in_range d fee"
    and "lo \<le> unat (priority_fee g)" and "unat (priority_fee g) \<le> hi"
    and "\<forall>(d, fee) \<in> set us. lo \<le> unat fee \<and> unat fee \<le> hi"
  shows "\<exists>g'. record_confirmations oc us g = Some g' \<and> wf_gas_price g' \<and>
    lo \<le> unat (priority_fee g') \<and> unat (priority_fee g') \<le> hi \<and>
    (let all = confirmation_times g @ map fst us in confirmation_times g' = drop (length all - 10) all)"
  using assms
proof (induction us arbitrary: g)
  case Nil
  then show ?case by (simp add: record_confirmations_def wf_gas_price_def)
next
  case (Cons u us)
  obtain d fee where u: "u = (d, fee)" by fastforce
  obtain g1 where g1: "update_on_confirmation oc d fee g = Some g1" "wf_gas_price g1"
    "unat (priority_fee g1) = (unat (priority_fee g) + unat fee) div 2"
    "confirmation_times g1 = drop (length (confirmation_times g) - 9) (confirmation_times g) @ [d]"
    using update_on_confirmation_value [of g d fee oc] Cons.prems u by auto
  have "lo \<le> unat (priority_fee g1)" "unat (priority_fee g1) \<le> hi"
    using Cons.prems u g1(3) by auto
  then obtain g' where g': "record_confirmations oc us g1 = Some g'" "wf_gas_price g'"
    "lo \<le> unat (priority_fee g')" "unat (priority_fee g') \<le> hi"
    "confirmation_times g' = drop (length (confirmation_times g1 @ map fst us) - 10) (confirmation_times g1 @ map fst us)"
    using Cons.IH [of g1] Cons.prems g1(2) by (auto simp: Let_def)
  have "length (confirmation_times g) \<le> 10" using Cons.prems by (simp add: wf_gas_price_def)
  then have "confirmation_times g' = drop (length (confirmation_times g @ map fst (u # us)) - 10) (confirmation_times g @ map fst (u # us))"
    using g'(5) by (cases "length (confirmation_times g) = 10") (auto simp: g1(4) u)
  then show ?case using g1(1) g' u by (simp add: record_confirmations_def Let_def)
qed

lemma wf_gas_price_new: "wf_gas_price gas_price_new"
  by (simp add: wf_gas_price_def gas_price_new_def gas_price_consts)

subsection \<open>Properties\<close>



text \<open>
  The window and the estimate: after any sequence of confirmations in range the
  manager holds the last ten latencies in order of arrival, and the fee estimate lies
  between the smallest and the largest of the initial fee and the fees used.
\<close>
lemma confirmation_window:
  assumes "\<forall>(d, fee) \<in> set us. in_range d fee"
    and "\<forall>(d, fee) \<in> set us. lo \<le> unat fee \<and> unat fee \<le> hi"
    and "lo \<le> 1000000000" and "1000000000 \<le> hi"
  shows "\<exists>g. record_confirmations oc us gas_price_new = Some g \<and>
    confirmation_times g = drop (length us - 10) (map fst us) \<and>
    lo \<le> unat (priority_fee g) \<and> unat (priority_fee g) \<le> hi"
  using record_confirmations_window [OF wf_gas_price_new assms(1), of lo hi oc] assms
  by (auto simp: gas_price_new_def gas_price_consts Let_def)

text \<open>
  A higher message priority never lowers the fee, and neither does a slower network:
  the fee is monotone in the priority and in the mean confirmation time.
\<close>
lemma fee_monotone:
  assumes "wf_gas_price g" and "wf_gas_price g'" and "priority_fee g = priority_fee g'"
    and "confirmation_times g \<noteq> []" and "length (confirmation_times g) = length (confirmation_times g')"
    and "sum_list (confirmation_times g) \<le> sum_list (confirmation_times g')"
    and "prio \<le> prio'"
    and "calculate_priority_fee oc g prio = Some f" and "calculate_priority_fee oc g' prio' = Some f'"
  shows "f \<le> f'"
proof -
  let ?c = "congestion_of (confirmation_times g)" and ?c' = "congestion_of (confirmation_times g')"
  have v: "unat f = fee_spec (unat (priority_fee g)) ?c (unat prio)"
    "unat f' = fee_spec (unat (priority_fee g)) ?c' (unat prio')"
    using calculate_priority_fee_value [OF assms(1), of oc prio] assms(3,8,9)
      calculate_priority_fee_value [OF assms(2), of oc prio'] by auto
  have "unat (multiplier ?c) \<le> unat (multiplier ?c')"
    using assms(4,5,6) by (auto simp: congestion_of_def)
  moreover have "pct_val (min (unat prio) 100) \<le> pct_val (min (unat prio') 100)"
    using assms(7) by (intro pct_val_mono) (auto simp: word_le_nat_alt)
  ultimately have "unat (priority_fee g) * unat (multiplier ?c) * (100 + pct_val (min (unat prio) 100))
    \<le> unat (priority_fee g) * unat (multiplier ?c') * (100 + pct_val (min (unat prio') 100))"
    by (intro mult_mono) simp_all
  then have "fee_spec (unat (priority_fee g)) ?c (unat prio) \<le> fee_spec (unat (priority_fee g)) ?c' (unat prio')"
    unfolding fee_spec_def by (intro min.mono div_le_mono) simp_all
  then show ?thesis using v by (simp add: word_le_nat_alt)
qed

text \<open>
  The percentage of a priority, computed as a 64-bit float and truncated, is the
  priority itself except for 29, 57 and 58, where it is one lower.
\<close>
lemma percent_truncation:
  assumes "x \<le> MAX_PRIORITY"
  shows "unat (percent x MAX_PRIORITY) = (if x \<in> {29, 57, 58} then unat x - 1 else unat x)"
  using percent_value [of x] assms by (simp add: message_consts pct_val_def word_unat_eq_iff)

end
