(* ===== verification/Nonce_Manager.thy ===== *)
theory Nonce_Manager
  imports Adapter
begin

text \<open>
  crates/bulkmail/src/nonce_manager.rs: the confirmed nonce and the set of nonces in
  flight, under one lock. The interpretation \<open>nm\<close> of \<open>exclusive_tokens\<close> is the contract the
  sender relies on; \<open>nonce_busy\<close> is the set of nonces that are spent or in use.
\<close>

record nonce_state =
  current :: u64
  in_flight :: "u64 set"

text \<open>\<open>NonceManager::new\<close>; the argument is the chain's reply to the nonce request.\<close>

definition nonce_manager_new :: "chain_error + u64 \<Rightarrow> nonce_state result" where
  "nonce_manager_new reply =
     (case reply of
        Inl e \<Rightarrow> Inl (ChainError e)
      | Inr n \<Rightarrow> Inr \<lparr>current = n, in_flight = {}\<rparr>)"

text \<open>
  The search loop of \<open>get_next_available_nonce\<close>. \<open>None\<close> is a call that does not return: the
  increment panics in a build with overflow checks, or the loop runs for ever in one
  without them (only with every nonce in flight).
\<close>

partial_function (option) next_nonce_from :: "bool \<Rightarrow> u64 set \<Rightarrow> u64 \<Rightarrow> u64 option" where
  "next_nonce_from oc S nonce =
     (if nonce \<in> S then rust_add oc nonce 1 \<bind> next_nonce_from oc S else Some nonce)"

definition get_next_available_nonce :: "bool \<Rightarrow> nonce_state \<Rightarrow> (u64 \<times> nonce_state) option" where
  "get_next_available_nonce oc st =
     do {
       nonce \<leftarrow> next_nonce_from oc (in_flight st) (current st);
       Some (nonce, st\<lparr>in_flight := insert nonce (in_flight st)\<rparr>)
     }"

definition mark_nonce_available :: "u64 \<Rightarrow> nonce_state \<Rightarrow> nonce_state" where
  "mark_nonce_available nonce st = st\<lparr>in_flight := in_flight st - {nonce}\<rparr>"

definition update_current_nonce :: "u64 \<Rightarrow> nonce_state \<Rightarrow> nonce_state" where
  "update_current_nonce new_nonce st =
     (if current st < new_nonce
      then st\<lparr>current := new_nonce, in_flight := Set.filter (\<lambda>n. new_nonce \<le> n) (in_flight st)\<rparr>
      else st)"

definition sync_nonce :: "chain_error + u64 \<Rightarrow> nonce_state \<Rightarrow> unit result \<times> nonce_state" where
  "sync_nonce reply st =
     (case reply of
        Inl e \<Rightarrow> (Inl (ChainError e), st)
      | Inr n \<Rightarrow> (Inr (), update_current_nonce n st))"

definition nonce_busy :: "nonce_state \<Rightarrow> u64 set" where
  "nonce_busy st = {n. n < current st} \<union> in_flight st"

definition nonce_invar :: "nonce_state \<Rightarrow> bool" where
  "nonce_invar st \<longleftrightarrow> (\<forall>n \<in> in_flight st. current st \<le> n)"

text \<open>Every nonce the manager knows of is below \<open>k\<close>, the baseline at most \<open>k\<close>.\<close>

definition nonce_fits :: "nat \<Rightarrow> nonce_state \<Rightarrow> bool" where
  "nonce_fits k st \<longleftrightarrow> unat (current st) \<le> k \<and> (\<forall>n \<in> in_flight st. unat n < k)"

lemmas nonce_defs = get_next_available_nonce_def mark_nonce_available_def update_current_nonce_def
  sync_nonce_def

subsection \<open>The search loop\<close>

lemma u64_Suc: "unat (n :: u64) < 2 ^ 64 - 1 \<Longrightarrow> unat (n + 1) = Suc (unat n)"
  by (simp add: rust_ok)

lemma next_nonce_from_least:
  assumes "m \<notin> S" and "n \<le> m" and "\<And>k. n \<le> k \<Longrightarrow> k < m \<Longrightarrow> k \<in> S"
  shows "next_nonce_from oc S n = Some m"
  using assms
proof (induction "unat m - unat n" arbitrary: n)
  case 0
  then have "n = m" by (simp add: word_le_nat_alt word_unat_eq_iff)
  then show ?case using 0 by (simp add: next_nonce_from.simps)
next
  case (Suc d)
  then have "n < m" by (metis diff_self_eq_0 nat.distinct(1) order_le_less)
  then have small: "unat n < 2 ^ 64 - 1"
    using unat_less_exp [of m] by (simp add: word_less_nat_alt)
  have "n \<in> S" using Suc.prems(3) \<open>n < m\<close> by simp
  moreover have "next_nonce_from oc S (n + 1) = Some m"
    using Suc u64_Suc [OF small] \<open>n < m\<close>
    by (intro Suc.hyps(1)) (auto simp: word_le_nat_alt word_less_nat_alt)
  ultimately show ?case
    using small by (subst next_nonce_from.simps) (simp add: rust_add_ok)
qed

text \<open>The least free nonce from the baseline on, which exists when the state fits.\<close>

lemma least_free_nonce:
  assumes "nonce_fits k st" and "k < 2 ^ 64"
  obtains m where "m \<notin> in_flight st" and "current st \<le> m" and "unat m \<le> k"
    and "\<And>n. current st \<le> n \<Longrightarrow> n < m \<Longrightarrow> n \<in> in_flight st"
proof -
  define P where "P i \<longleftrightarrow> unat (current st) \<le> i \<and> (of_nat i :: u64) \<notin> in_flight st" for i
  have k: "unat (of_nat k :: u64) = k" using assms(2) by (simp add: unat_of_nat take_bit_nat_eq_self)
  then have "P k" using assms(1) by (auto simp: P_def nonce_fits_def)
  define i where "i = (LEAST i. P i)"
  have i: "P i" "i \<le> k" using LeastI [of P k] Least_le [of P k] \<open>P k\<close> by (simp_all add: i_def)
  have ui: "unat (of_nat i :: u64) = i" using i(2) assms(2) by (simp add: unat_of_nat take_bit_nat_eq_self)
  show ?thesis
  proof (rule that [of "of_nat i"])
    fix n assume "current st \<le> n" and "n < (of_nat i :: u64)"
    then have "unat n < i" and "unat (current st) \<le> unat n"
      using ui by (simp_all add: word_less_nat_alt word_le_nat_alt)
    then show "n \<in> in_flight st" using not_less_Least [of "unat n" P] by (simp add: P_def i_def)
  qed (use i ui in \<open>simp_all add: P_def word_le_nat_alt\<close>)
qed

lemma next_nonce_value:
  assumes "nonce_fits k st" and "k < 2 ^ 64"
  obtains m where "get_next_available_nonce oc st = Some (m, st\<lparr>in_flight := insert m (in_flight st)\<rparr>)"
    and "m \<notin> in_flight st" and "current st \<le> m" and "unat m \<le> k"
    and "\<And>n. current st \<le> n \<Longrightarrow> n < m \<Longrightarrow> n \<in> in_flight st"
proof -
  obtain m where m: "m \<notin> in_flight st" "current st \<le> m" "unat m \<le> k"
    "\<And>n. current st \<le> n \<Longrightarrow> n < m \<Longrightarrow> n \<in> in_flight st"
    using least_free_nonce [OF assms] by metis
  then have "next_nonce_from oc (in_flight st) (current st) = Some m"
    by (intro next_nonce_from_least) auto
  then show ?thesis using that m by (simp add: get_next_available_nonce_def)
qed

interpretation nm: exclusive_tokens "get_next_available_nonce oc" mark_nonce_available
  update_current_nonce nonce_busy nonce_fits "\<lambda>k n. unat n \<le> k" "2 ^ 64"
  for oc
proof
  fix k st t st'
  assume fit: "nonce_fits k st" "k < 2 ^ 64" and r: "get_next_available_nonce oc st = Some (t, st')"
  obtain m where "get_next_available_nonce oc st = Some (m, st\<lparr>in_flight := insert m (in_flight st)\<rparr>)"
    and m: "m \<notin> in_flight st" "current st \<le> m" "unat m \<le> k"
    using next_nonce_value [OF fit, of oc] by blast
  then have eq: "t = m" "st' = st\<lparr>in_flight := insert m (in_flight st)\<rparr>" using r by simp_all
  show "t \<notin> nonce_busy st \<and> nonce_busy st' = insert t (nonce_busy st) \<and> nonce_fits (Suc k) st'"
    using m fit(1) by (auto simp: eq nonce_busy_def nonce_fits_def not_less less_Suc_eq_le)
next
  fix k st assume "nonce_fits k st" and "k < 2 ^ 64"
  then show "\<exists>t r'. get_next_available_nonce oc st = Some (t, r')"
    using next_nonce_value [of k st oc] by blast
qed (auto simp: nonce_busy_def nonce_fits_def nonce_defs)

subsection \<open>Facts about single operations\<close>

lemma next_nonce_from_free:
  assumes "next_nonce_from oc S n = Some m"
  shows "m \<notin> S"
proof (rule next_nonce_from.raw_induct [where P = "\<lambda>oc S n m. m \<notin> S", OF _ assms])
  fix f oc S n m
  assume IH: "\<And>oc S n m. f oc S n = Some m \<Longrightarrow> m \<notin> S"
    and "(if n \<in> S then rust_add oc n 1 \<bind> f oc S else Some n) = Some m"
  then show "m \<notin> S" by (auto simp: bind_eq_Some_conv split: if_splits)
qed

lemma nonce_invar_next:
  assumes "nonce_fits k st" and "k < 2 ^ 64" and "nonce_invar st"
    and "get_next_available_nonce oc st = Some (n, st')"
  shows "nonce_invar st' \<and> current st' = current st"
proof -
  obtain m where "get_next_available_nonce oc st = Some (m, st\<lparr>in_flight := insert m (in_flight st)\<rparr>)"
    and "current st \<le> m"
    using next_nonce_value [OF assms(1,2), of oc] by blast
  then show ?thesis using assms(3,4) by (auto simp: nonce_invar_def)
qed

lemma nonce_invar_mark: "nonce_invar st \<Longrightarrow> nonce_invar (mark_nonce_available n st)"
  by (simp add: nonce_invar_def mark_nonce_available_def)

lemma nonce_invar_update: "nonce_invar st \<Longrightarrow> nonce_invar (update_current_nonce n st)"
  by (simp add: nonce_invar_def update_current_nonce_def)

lemma current_update: "current (update_current_nonce n st) = max (current st) n"
  by (auto simp: update_current_nonce_def max_def)

lemma in_flight_update:
  "nonce_invar st \<Longrightarrow>
   in_flight (update_current_nonce n st) = {x \<in> in_flight st. max (current st) n \<le> x}"
  by (auto simp: update_current_nonce_def nonce_invar_def not_less)

text \<open>The state after \<open>i\<close> nonces have been taken from a fresh manager.\<close>

lemma take_from_fresh:
  assumes "unat n + i < 2 ^ 64"
  shows "get_next_available_nonce oc \<lparr>current = n, in_flight = (\<lambda>j. n + of_nat j) ` {..<i}\<rparr>
    = Some (n + of_nat i, \<lparr>current = n, in_flight = (\<lambda>j. n + of_nat j) ` {..<Suc i}\<rparr>)"
proof -
  have u: "unat (n + of_nat j) = unat n + j" if "unat n + j < 2 ^ 64" for j
    using that by (simp add: unat_word_ariths unat_of_nat take_bit_nat_eq_self)
  have inj: "n + of_nat i \<noteq> n + of_nat j" if "j < i" for j
  proof
    assume "n + of_nat i = n + of_nat j"
    then have "unat (n + of_nat i) = unat (n + of_nat j)" by (rule arg_cong)
    then show False using u [of i] u [of j] assms that by simp
  qed
  have "next_nonce_from oc ((\<lambda>j. n + of_nat j) ` {..<i}) n = Some (n + of_nat i)"
  proof (rule next_nonce_from_least)
    show "n + of_nat i \<notin> (\<lambda>j. n + of_nat j) ` {..<i}" using inj by auto
    show "n \<le> n + of_nat i" using u assms by (simp add: word_le_nat_alt)
    fix k assume k: "n \<le> k" "k < n + of_nat i"
    then have "unat k - unat n < i" "unat n + (unat k - unat n) = unat k"
      using u assms by (auto simp: word_le_nat_alt word_less_nat_alt)
    moreover from this have "k = n + of_nat (unat k - unat n)"
      using u [of "unat k - unat n"] unat_less_exp [of k] by (simp add: word_unat_eq_iff)
    ultimately show "k \<in> (\<lambda>j. n + of_nat j) ` {..<i}" by blast
  qed
  moreover have "insert (n + of_nat i) ((\<lambda>j. n + of_nat j) ` {..<i}) = (\<lambda>j. n + of_nat j) ` {..<Suc i}"
    by (auto simp: lessThan_Suc)
  ultimately show ?thesis by (simp add: get_next_available_nonce_def)
qed

lemma take_many_from:
  "unat n + i + j \<le> 2 ^ 64 \<Longrightarrow>
   nm.run_ops oc (replicate j TakeToken) \<lparr>current = n, in_flight = (\<lambda>j. n + of_nat j) ` {..<i}\<rparr>
   = Some (map (\<lambda>j. n + of_nat j) [i..<i + j],
           \<lparr>current = n, in_flight = (\<lambda>j. n + of_nat j) ` {..<i + j}\<rparr>)"
proof (induction j arbitrary: i)
  case (Suc j)
  then show ?case
    using Suc.IH [of "Suc i"] by (simp add: take_from_fresh upt_conv_Cons del: upt_Suc)
qed simp

subsection \<open>Properties\<close>

text \<open>
  C30: In every build \<open>get_next_available_nonce\<close> returns the least nonce from the confirmed
  baseline on that is not in flight, reserves it, and leaves the baseline unchanged. The
  hypothesis bounds the nonces known to the manager by some \<open>k\<close> below \<open>2^64\<close>.
\<close>
theorem next_nonce_least_free:
  assumes "nonce_fits k st" and "k < 2 ^ 64"
  shows "\<exists>n. get_next_available_nonce oc st = Some (n, st\<lparr>in_flight := insert n (in_flight st)\<rparr>)
    \<and> current st \<le> n \<and> n \<notin> in_flight st
    \<and> (\<forall>n'. current st \<le> n' \<and> n' \<notin> in_flight st \<longrightarrow> n \<le> n')"
proof -
  obtain m where "get_next_available_nonce oc st = Some (m, st\<lparr>in_flight := insert m (in_flight st)\<rparr>)"
    "m \<notin> in_flight st" "current st \<le> m" "\<And>n. current st \<le> n \<Longrightarrow> n < m \<Longrightarrow> n \<in> in_flight st"
    using next_nonce_value [OF assms, of oc] by metis
  then show ?thesis by (metis not_less)
qed

theorem next_nonce_least_free_witness:
  "get_next_available_nonce True \<lparr>current = 5, in_flight = {5, 6, 9}\<rparr>
     = Some (7, \<lparr>current = 5, in_flight = {5, 6, 7, 9}\<rparr>)"
proof -
  have "nonce_fits 10 \<lparr>current = 5, in_flight = {5, 6, 9}\<rparr>" by (simp add: nonce_fits_def)
  from next_nonce_least_free [OF this, of True] obtain n where
    n: "get_next_available_nonce True \<lparr>current = 5, in_flight = {5, 6, 9}\<rparr>
      = Some (n, \<lparr>current = 5, in_flight = insert n {5, 6, 9}\<rparr>)" by auto
  have "next_nonce_from True {5, 6, 9} 5 = Some 7"
    by (simp add: next_nonce_from.simps rust_add_def)
  then have "n = 7" using n by (simp add: get_next_available_nonce_def)
  then show ?thesis using n by (simp add: insert_commute)
qed

text \<open>
  Releasing a nonce undoes taking it: whenever a nonce is handed out, giving it back
  at once restores the state exactly, in every build.
\<close>
lemma release_undoes_take:
  assumes "get_next_available_nonce oc st = Some (n, st')"
  shows "mark_nonce_available n st' = st"
proof -
  have "n \<notin> in_flight st" and "st' = st\<lparr>in_flight := insert n (in_flight st)\<rparr>"
    using assms next_nonce_from_free
    by (auto simp: get_next_available_nonce_def bind_eq_Some_conv)
  then show ?thesis by (simp add: mark_nonce_available_def)
qed

text \<open>
  C10: A nonce that is spent or in use is never handed out again before it is released. For
  any history of hand-outs, releases and baseline advances (on-chain synchronisation or
  confirmation) the manager answers every request, a busy nonce that the history does not
  release is not among the nonces handed out and stays busy, and without releases the
  nonces handed out are pairwise different.
\<close>
theorem nonces_never_reused:
  assumes "nonce_fits k st" and "k + length ops \<le> 2 ^ 64"
    and "\<forall>n. AdvanceTo n \<in> set ops \<longrightarrow> unat n \<le> k"
  shows "\<exists>ns st'. nm.run_ops oc ops st = Some (ns, st') \<and>
    (\<forall>n \<in> nonce_busy st. ReleaseToken n \<notin> set ops \<longrightarrow> n \<notin> set ns \<and> n \<in> nonce_busy st') \<and>
    ((\<forall>n. ReleaseToken n \<notin> set ops) \<longrightarrow> distinct ns)"
proof -
  obtain ns st' where run: "nm.run_ops oc ops st = Some (ns, st')"
    using nm.run_ops_total [OF assms] by blast
  then show ?thesis
    using nm.run_ops_never_hands_out_busy [OF run assms] nm.run_ops_distinct [OF run assms] by blast
qed

theorem nonces_never_reused_witness:
  "\<exists>ns st'. nm.run_ops False [TakeToken, TakeToken, AdvanceTo 6, TakeToken] \<lparr>current = 5, in_flight = {}\<rparr>
     = Some (ns, st') \<and> distinct ns"
  using nonces_never_reused [of 10 "\<lparr>current = 5, in_flight = {}\<rparr>"
      "[TakeToken, TakeToken, AdvanceTo 6, TakeToken]" False]
  by (auto simp: nonce_fits_def)

text \<open>
  From a fresh manager at on-chain nonce \<open>n\<close>, \<open>j\<close> requests in a row hand out
  \<open>n, n + 1, ..., n + j - 1\<close>, without a gap.
\<close>
lemma fresh_manager_counts_up:
  assumes "unat n + j \<le> 2 ^ 64"
  shows "\<exists>st. nonce_manager_new (Inr n) = Inr st \<and>
    (\<exists>st'. nm.run_ops oc (replicate j TakeToken) st = Some (map (\<lambda>i. n + of_nat i) [0..<j], st'))"
  using take_many_from [of n 0 j oc] assms by (simp add: nonce_manager_new_def)

text \<open>
  Synchronising with the chain never moves the baseline back, keeps exactly the
  nonces in flight that are at or above the new baseline, keeps the invariant, and leaves
  the state alone when the chain answers with an error.
\<close>
lemma sync_nonce_spec:
  assumes "nonce_invar st"
  shows "(\<forall>e. sync_nonce (Inl e) st = (Inl (ChainError e), st)) \<and>
    (\<forall>n. \<exists>st'. sync_nonce (Inr n) st = (Inr (), st') \<and> current st' = max (current st) n \<and>
       in_flight st' = {x \<in> in_flight st. max (current st) n \<le> x} \<and> nonce_invar st')"
  using nonce_invar_update [OF assms] current_update in_flight_update [OF assms]
  by (simp add: sync_nonce_def)

end
