(* ===== verification/Ethereum.thy ===== *)
theory Ethereum
  imports Gas_Price Nonce_Manager
begin

text \<open>
  The Ethereum adapter: crates/bulkmail/src/adapter/ethereum.rs, with the chain client of
  chain.rs that it submits through. A node's answers are arguments: the provider's reply to
  a request is a value of \<open>rpc_error + 'a\<close>, signing and broadcasting are functions the
  client calls. \<open>eth_adapter\<close> binds the parts into the record the sender works with.
\<close>

definition MAX_REPLACEMENTS :: u32 where "MAX_REPLACEMENTS = 3"
definition GAS_PRICE_INCREASE_PERCENT :: u8 where "GAS_PRICE_INCREASE_PERCENT = 20"

subsection \<open>The chain client of chain.rs\<close>

datatype tx_kind = Create | Call address

record tx_eip1559 =
  tx_chain_id :: u64
  tx_to :: tx_kind
  tx_value :: u256
  tx_input :: bytes
  tx_nonce :: u64
  tx_gas_limit :: u64
  tx_max_fee_per_gas :: u128
  tx_max_priority_fee_per_gas :: u128
  tx_access_list :: "(address \<times> b256 list) list"

record receipt =
  receipt_status :: bool
  receipt_block_number :: "u64 option"

text \<open>The requests that only forward the provider's reply, with the error wrapped by \<open>?\<close>.\<close>

definition from_provider :: "rpc_error + 'a \<Rightarrow> chain_error + 'a" where
  "from_provider reply = map_sum Rpc id reply"

text \<open>\<open>Chain::new\<close>: the connection may fail; the wallet and the chain id are kept as given.\<close>

record ('wallet, 'provider) chain_conn =
  conn_chain_id :: u64
  conn_wallet :: 'wallet
  conn_provider :: 'provider

definition chain_new :: "rpc_error + 'provider \<Rightarrow> 'wallet \<Rightarrow> u64 \<Rightarrow> chain_error + ('wallet, 'provider) chain_conn" where
  "chain_new reply wallet cid =
     map_sum id (\<lambda>p. \<lparr>conn_chain_id = cid, conn_wallet = wallet, conn_provider = p\<rparr>) (from_provider reply)"

definition chain_get_block_number :: "rpc_error + u64 \<Rightarrow> chain_error + u64" where
  "chain_get_block_number reply = from_provider reply"

definition chain_get_account_nonce :: "rpc_error + u64 \<Rightarrow> chain_error + u64" where
  "chain_get_account_nonce reply = from_provider reply"

definition chain_get_receipt :: "rpc_error + receipt option \<Rightarrow> chain_error + receipt option" where
  "chain_get_receipt reply = from_provider reply"

text \<open>
  \<open>Chain::send_transaction\<close>: the wallet signs (it may fail), then the provider broadcasts
  the envelope and answers with the transaction hash of the watcher.
\<close>

definition chain_send_transaction ::
  "(tx_eip1559 \<Rightarrow> string + 'env) \<Rightarrow> ('env \<Rightarrow> rpc_error + b256) \<Rightarrow> tx_eip1559 \<Rightarrow> chain_error + b256" where
  "chain_send_transaction sign broadcast tx =
     (case sign tx of
        Inl e \<Rightarrow> Inl (Signing e)
      | Inr envelope \<Rightarrow> from_provider (broadcast envelope))"

subsection \<open>The adapter's client\<close>

record eth_fee_params =
  eth_base_fee :: u128
  eth_priority_fee :: u128

text \<open>The transaction \<open>send_transaction\<close> builds; the sum of the fees may overflow.\<close>

definition build_tx :: "bool \<Rightarrow> u64 \<Rightarrow> message \<Rightarrow> eth_fee_params \<Rightarrow> u64 \<Rightarrow> tx_eip1559 option" where
  "build_tx oc chain_id msg fee nonce =
     do {
       max_fee \<leftarrow> rust_add oc (eth_base_fee fee) (eth_priority_fee fee);
       Some \<lparr>tx_chain_id = chain_id,
             tx_to = (case msg_to msg of None \<Rightarrow> Create | Some a \<Rightarrow> Call a),
             tx_value = msg_value msg, tx_input = msg_data msg, tx_nonce = nonce,
             tx_gas_limit = msg_gas msg, tx_max_fee_per_gas = max_fee,
             tx_max_priority_fee_per_gas = eth_priority_fee fee, tx_access_list = []\<rparr>
     }"

text \<open>
  The outside world during one submission: the reply to the submission, to registering the
  watcher (three seconds, one confirmation), of the watch itself, and to the receipt
  request that follows a seen confirmation.
\<close>

record eth_reply =
  reply_submit :: "tx_eip1559 \<Rightarrow> chain_error + b256"
  reply_register :: "string + unit"
  reply_watch :: "string + b256"
  reply_receipt :: "b256 \<Rightarrow> chain_error + receipt option"

definition receipt_outcome :: "b256 \<Rightarrow> chain_error + receipt option \<Rightarrow> b256 send_outcome" where
  "receipt_outcome tx_hash reply =
     (case reply of
        Inr (Some r) \<Rightarrow> if receipt_status r then Confirmed tx_hash else Reverted tx_hash
      | Inr None \<Rightarrow> Dropped tx_hash
      | Inl e \<Rightarrow> Dropped tx_hash)"

definition eth_send_transaction ::
  "u64 \<Rightarrow> bool \<Rightarrow> message \<Rightarrow> eth_fee_params \<Rightarrow> u64 \<Rightarrow> eth_reply \<Rightarrow> b256 send_outcome result option" where
  "eth_send_transaction chain_id oc msg fee nonce rep =
     do {
       tx \<leftarrow> build_tx oc chain_id msg fee nonce;
       Some (case reply_submit rep tx of
          Inl e \<Rightarrow> Inl (ChainError e)
        | Inr tx_hash \<Rightarrow>
            (case reply_register rep of
               Inl e \<Rightarrow> Inl (PendingTransactionError e)
             | Inr _ \<Rightarrow>
                 (case reply_watch rep of
                    Inl _ \<Rightarrow> Inr (Dropped tx_hash)
                  | Inr _ \<Rightarrow> Inr (receipt_outcome tx_hash (reply_receipt rep tx_hash)))))
     }"

definition eth_get_transaction_status :: "chain_error + receipt option \<Rightarrow> transaction_status result" where
  "eth_get_transaction_status reply =
     (case reply of
        Inr (Some r) \<Rightarrow>
          Inr (if receipt_status r
               then StatusConfirmed (case receipt_block_number r of None \<Rightarrow> 0 | Some n \<Rightarrow> n)
               else StatusFailed ''reverted'')
      | Inr None \<Rightarrow> Inr StatusPending
      | Inl e \<Rightarrow> Inl (ChainError e))"

definition eth_get_block_number :: "chain_error + u64 \<Rightarrow> u64 result" where
  "eth_get_block_number reply = map_sum ChainError id reply"

subsection \<open>Fees\<close>

definition bump_by_percent :: "bool \<Rightarrow> u128 \<Rightarrow> u8 \<Rightarrow> u128 option" where
  "bump_by_percent oc n pct =
     do {
       scaled \<leftarrow> rust_mul oc n (ucast pct);
       rust_add oc n (scaled div 100)
     }"

definition eth_get_fee_params :: "bool \<Rightarrow> u32 \<Rightarrow> gas_price_manager \<Rightarrow> eth_fee_params result option" where
  "eth_get_fee_params oc prio fees =
     map_option (map_sum id (\<lambda>(base, fee). \<lparr>eth_base_fee = base, eth_priority_fee = fee\<rparr>))
       (get_gas_price oc fees prio)"

definition eth_update_on_confirmation ::
  "bool \<Rightarrow> duration \<Rightarrow> eth_fee_params \<Rightarrow> gas_price_manager \<Rightarrow> gas_price_manager option" where
  "eth_update_on_confirmation oc confirmation_time fee_paid fees =
     update_on_confirmation oc confirmation_time (eth_priority_fee fee_paid) fees"

definition eth_bump_fee :: "bool \<Rightarrow> eth_fee_params \<Rightarrow> eth_fee_params option" where
  "eth_bump_fee oc cur =
     map_option (\<lambda>p. \<lparr>eth_base_fee = eth_base_fee cur, eth_priority_fee = p\<rparr>)
       (bump_by_percent oc (eth_priority_fee cur) GAS_PRICE_INCREASE_PERCENT)"

definition eth_get_base_fee :: "gas_price_manager \<Rightarrow> eth_fee_params" where
  "eth_get_base_fee fees = \<lparr>eth_base_fee = get_base_fee fees, eth_priority_fee = 0\<rparr>"

subsection \<open>Replay protection and retry strategy\<close>

definition eth_replay_new :: "chain_error + u64 \<Rightarrow> nonce_state result" where
  "eth_replay_new reply = nonce_manager_new reply"

definition release_nonce :: "u64 \<Rightarrow> nonce_state \<Rightarrow> nonce_state" where
  "release_nonce nonce replay = mark_nonce_available nonce replay"

definition confirm_nonce :: "u64 \<Rightarrow> nonce_state \<Rightarrow> nonce_state" where
  "confirm_nonce nonce replay = update_current_nonce nonce replay"

type_synonym eth_pending = "(eth_fee_params, u64, b256) pending_transaction"

definition eth_handle_dropped ::
  "bool \<Rightarrow> eth_pending \<Rightarrow> gas_price_manager \<times> nonce_state \<Rightarrow>
   ((eth_fee_params, u64) retry_decision \<times> gas_price_manager \<times> nonce_state) option" where
  "eth_handle_dropped oc pending = (\<lambda>(fees, replay).
     if \<not> can_retry (pend_msg pending)
     then Some (Abandon, fees, release_nonce (pend_replay_token pending) replay)
     else if MAX_REPLACEMENTS \<le> pend_replacement_count pending
     then Some (Requeue, fees, release_nonce (pend_replay_token pending) replay)
     else do {
       new_fee \<leftarrow> eth_bump_fee oc (pend_fee pending);
       Some (Resubmit new_fee (pend_replay_token pending), fees, replay)
     })"

definition eth_handle_confirmed ::
  "bool \<Rightarrow> eth_pending \<Rightarrow> duration \<Rightarrow> gas_price_manager \<times> nonce_state \<Rightarrow>
   (gas_price_manager \<times> nonce_state) option" where
  "eth_handle_confirmed oc pending confirmation_time = (\<lambda>(fees, replay).
     do {
       fees' \<leftarrow> eth_update_on_confirmation oc confirmation_time (pend_fee pending) fees;
       Some (fees', confirm_nonce (pend_replay_token pending) replay)
     })"

definition eth_adapter :: "u64 \<Rightarrow>
  (nonce_state, gas_price_manager, eth_fee_params, u64, b256, eth_reply, chain_error + u64) chain_adapter" where
  "eth_adapter chain_id =
     \<lparr>client_send = eth_send_transaction chain_id,
      replay_next = get_next_available_nonce,
      replay_release = mark_nonce_available,
      replay_sync = (\<lambda>oc reply replay. Some (sync_nonce reply replay)),
      fee_params = eth_get_fee_params,
      handle_confirmed = eth_handle_confirmed,
      handle_dropped = eth_handle_dropped\<rparr>"

subsection \<open>Values of the operations\<close>

lemma bump_by_percent_value:
  assumes "unat n < 2 ^ 100"
  shows "\<exists>p. bump_by_percent oc n 20 = Some p \<and> unat p = unat n + unat n * 20 div 100"
proof -
  have "unat (n * 20) = unat n * 20" using assms by (subst unat_mult_ok) simp_all
  moreover have "unat n * 20 div 100 \<le> unat n" by simp
  ultimately show ?thesis
    using assms by (simp add: bump_by_percent_def rust_ok)
qed

text \<open>A fee after \<open>n\<close> bumps: the fixed base fee and at most \<open>100 * 1.2^n\<close> Gwei on top.\<close>

definition eth_fee_ok :: "nat \<Rightarrow> eth_fee_params \<Rightarrow> bool" where
  "eth_fee_ok n fee \<longleftrightarrow> unat (eth_base_fee fee) = 2000000000 \<and>
     unat (eth_priority_fee fee) * 5 ^ n \<le> 100000000000 * 6 ^ n"

lemma eth_fee_ok_bound:
  assumes "eth_fee_ok n fee" and "n \<le> 3"
  shows "unat (eth_priority_fee fee) \<le> 172800000000"
proof -
  consider "n = 0" | "n = Suc 0" | "n = Suc (Suc 0)" | "n = Suc (Suc (Suc 0))" using assms(2) by linarith
  then show ?thesis using assms(1) by cases (simp_all add: eth_fee_ok_def)
qed

lemma eth_bump_fee_ok:
  assumes "eth_fee_ok n fee" and "n \<le> 3"
  shows "\<exists>fee'. eth_bump_fee oc fee = Some fee' \<and> eth_fee_ok (Suc n) fee' \<and>
    unat (eth_priority_fee fee') = unat (eth_priority_fee fee) + unat (eth_priority_fee fee) div 5 \<and>
    eth_base_fee fee' = eth_base_fee fee"
proof -
  let ?p = "unat (eth_priority_fee fee)"
  have "?p < 2 ^ 100" using eth_fee_ok_bound [OF assms] by simp
  from bump_by_percent_value [OF this, of oc] obtain p where
    p: "bump_by_percent oc (eth_priority_fee fee) 20 = Some p" "unat p = ?p + ?p * 20 div 100" by blast
  have "unat p = ?p + ?p div 5" using p(2) div_mult2_eq [of "?p * 20" 20 5] by simp
  moreover have "unat p * 5 ^ Suc n \<le> 100000000000 * 6 ^ Suc n"
  proof -
    have "unat p * 5 \<le> ?p * 6" using p(2) by simp
    then have "unat p * 5 * 5 ^ n \<le> ?p * 6 * 5 ^ n" by (rule mult_right_mono) simp
    also have "\<dots> = ?p * 5 ^ n * 6" by simp
    also have "\<dots> \<le> 100000000000 * 6 ^ n * 6"
      using assms(1) by (intro mult_right_mono) (simp_all add: eth_fee_ok_def)
    finally show ?thesis by (simp add: mult_ac)
  qed
  ultimately show ?thesis
    using p(1) assms(1) by (simp add: eth_bump_fee_def GAS_PRICE_INCREASE_PERCENT_def eth_fee_ok_def del: power_Suc)
qed

lemma build_tx_value:
  assumes "unat (eth_base_fee fee) + unat (eth_priority_fee fee) < 2 ^ 128"
  shows "\<exists>tx. build_tx oc cid msg fee nonce = Some tx \<and>
    unat (tx_max_fee_per_gas tx) = unat (eth_base_fee fee) + unat (eth_priority_fee fee) \<and>
    tx_max_priority_fee_per_gas tx = eth_priority_fee fee \<and> tx_nonce tx = nonce \<and> tx_chain_id tx = cid \<and>
    tx_gas_limit tx = msg_gas msg \<and> tx_value tx = msg_value msg \<and> tx_input tx = msg_data msg \<and>
    (tx_to tx = Create \<longleftrightarrow> msg_to msg = None) \<and> (\<forall>a. tx_to tx = Call a \<longleftrightarrow> msg_to msg = Some a)"
  using assms by (auto simp: build_tx_def rust_ok split: option.splits)

lemma eth_send_returns:
  assumes "eth_fee_ok n fee" and "n \<le> 3"
  shows "\<exists>res. eth_send_transaction cid oc m fee t rep = Some res"
proof -
  have "unat (eth_base_fee fee) + unat (eth_priority_fee fee) < 2 ^ 128"
    using eth_fee_ok_bound [OF assms] assms(1) by (simp add: eth_fee_ok_def)
  then show ?thesis using build_tx_value [of fee oc cid m t] by (auto simp: eth_send_transaction_def)
qed

text \<open>The fee manager's range: the estimate never passes the largest fee ever used.\<close>

definition eth_fees_ok :: "gas_price_manager \<Rightarrow> bool" where
  "eth_fees_ok g \<longleftrightarrow> wf_gas_price g \<and> unat (priority_fee g) \<le> 172800000000"

lemma eth_fees_ok_new: "eth_fees_ok gas_price_new"
  using wf_gas_price_new by (simp add: eth_fees_ok_def gas_price_new_def gas_price_consts)

lemma eth_fee_params_ok:
  assumes "eth_fees_ok f"
  shows "\<exists>fee. eth_get_fee_params oc p f = Some (Inr fee) \<and> eth_fee_ok 0 fee"
proof -
  obtain x where "calculate_priority_fee oc f p = Some x"
    and "unat x = fee_spec (unat (priority_fee f)) (congestion_of (confirmation_times f)) (unat p)"
    using calculate_priority_fee_value [of f oc p] assms by (auto simp: eth_fees_ok_def)
  then show ?thesis
    by (simp add: eth_get_fee_params_def get_gas_price_def eth_fee_ok_def get_base_fee_def
        gas_price_consts fee_spec_def)
qed

lemma eth_update_ok:
  assumes "eth_fees_ok f" and "eth_fee_ok n fee" and "n \<le> 3" and "d \<le> 2 ^ 60 * 10 ^ 9"
  shows "\<exists>f'. eth_update_on_confirmation oc d fee f = Some f' \<and> eth_fees_ok f'"
proof -
  have p: "unat (eth_priority_fee fee) \<le> 172800000000" by (rule eth_fee_ok_bound [OF assms(2,3)])
  then have "in_range d (eth_priority_fee fee)" using assms(4) by (simp add: in_range_def)
  then obtain f' where "update_on_confirmation oc d (eth_priority_fee fee) f = Some f'" "wf_gas_price f'"
    "unat (priority_fee f') = (unat (priority_fee f) + unat (eth_priority_fee fee)) div 2"
    using update_on_confirmation_value [of f d "eth_priority_fee fee" oc] assms(1)
    by (auto simp: eth_fees_ok_def)
  then show ?thesis
    using p assms(1) div_le_mono [of "unat (priority_fee f) + unat (eth_priority_fee fee)" "2 * 172800000000" 2]
    by (simp add: eth_update_on_confirmation_def eth_fees_ok_def)
qed

lemma eth_dropped_in_budget:
  assumes "can_retry (pend_msg p)" and "unat (pend_replacement_count p) = n" and "n < 3"
    and "eth_fee_ok n (pend_fee p)"
  shows "\<exists>fee. eth_handle_dropped oc p (f, r) = Some (Resubmit fee (pend_replay_token p), f, r) \<and>
    eth_bump_fee oc (pend_fee p) = Some fee \<and> eth_fee_ok (Suc n) fee"
  using eth_bump_fee_ok [OF assms(4), of oc] assms
  by (auto simp: eth_handle_dropped_def MAX_REPLACEMENTS_def word_le_nat_alt)

lemma eth_adapter_sel [simp]:
  "client_send (eth_adapter cid) = eth_send_transaction cid"
  "replay_next (eth_adapter cid) = get_next_available_nonce"
  "replay_release (eth_adapter cid) = mark_nonce_available"
  "replay_sync (eth_adapter cid) = (\<lambda>oc reply replay. Some (sync_nonce reply replay))"
  "fee_params (eth_adapter cid) = eth_get_fee_params"
  "handle_confirmed (eth_adapter cid) = eth_handle_confirmed"
  "handle_dropped (eth_adapter cid) = eth_handle_dropped"
  by (simp_all add: eth_adapter_def)

lemma nonce_busy_within: "nonce_fits k r \<Longrightarrow> t \<in> nonce_busy r \<Longrightarrow> unat t \<le> k"
  by (auto simp: nonce_busy_def nonce_fits_def word_less_nat_alt)

text \<open>The longest latency the fee window is proved to take: \<open>2^60\<close> seconds.\<close>

definition max_latency :: duration where "max_latency = 2 ^ 60 * 10 ^ 9"

interpretation eth: retry_adapter "eth_adapter cid" oc update_current_nonce nonce_busy nonce_fits
  "\<lambda>k n. unat n \<le> k" "2 ^ 64" eth_fees_ok eth_fee_ok "\<lambda>reply. {n. reply = Inr n}" max_latency
  for cid oc
proof (rule retry_adapter.intro, unfold eth_adapter_sel, rule nm.exclusive_tokens_axioms,
    rule retry_adapter_axioms.intro, unfold eth_adapter_sel)
  fix reply r
  show "\<exists>res r'. Some (sync_nonce reply r) = Some (res, r') \<and>
      (r' = r \<or> (\<exists>t \<in> {n. reply = Inr n}. r' = update_current_nonce t r))"
    by (cases reply) (auto simp: sync_nonce_def)
next
  fix f prio assume "eth_fees_ok f"
  then show "\<exists>res. eth_get_fee_params oc prio f = Some res \<and> (\<forall>fee. res = Inr fee \<longrightarrow> eth_fee_ok 0 fee)"
    using eth_fee_params_ok [of f oc prio] by (auto simp: eth_adapter_def)
next
  fix f n and p :: eth_pending and d :: duration and r
  assume "eth_fees_ok f" "eth_fee_ok n (pend_fee p)" "n \<le> 3" "d \<le> max_latency"
  from eth_update_ok [OF this [unfolded max_latency_def], of oc]
  show "\<exists>f'. eth_handle_confirmed oc p d (f, r)
      = Some (f', update_current_nonce (pend_replay_token p) r) \<and> eth_fees_ok f'"
    by (auto simp: eth_handle_confirmed_def confirm_nonce_def)
next
  fix p :: eth_pending and n f r
  assume "can_retry (pend_msg p)" "unat (pend_replacement_count p) = n" "n < 3" "eth_fee_ok n (pend_fee p)"
  from eth_dropped_in_budget [OF this, of oc f r]
  show "\<exists>fee. eth_handle_dropped oc p (f, r)
      = Some (Resubmit fee (pend_replay_token p), f, r) \<and> eth_fee_ok (Suc n) fee"
    by (auto simp: eth_adapter_def)
qed (auto simp: nonce_busy_within eth_send_returns)

subsection \<open>Properties\<close>



text \<open>
  C20: From the first fee through every replacement the sender may make, a message's fee
  stays in range: the fee a fee manager in range hands out and up to three bumps of it
  exist in every build, the priority fee stays below 173 Gwei, and the transaction built
  from it is a valid EIP-1559 transaction, with the maximum fee the sum of base and
  priority fee.
\<close>
theorem eth_fees_in_range:
  assumes "eth_fees_ok fees" and "n \<le> 3"
  shows "\<exists>fee fee' tx. eth_get_fee_params oc prio fees = Some (Inr fee) \<and>
    ((\<lambda>x. x \<bind> eth_bump_fee oc) ^^ n) (Some fee) = Some fee' \<and>
    build_tx oc cid msg fee' nonce = Some tx \<and>
    unat (tx_max_priority_fee_per_gas tx) \<le> 172800000000 \<and>
    unat (tx_max_fee_per_gas tx) = 2000000000 + unat (tx_max_priority_fee_per_gas tx) \<and>
    tx_max_priority_fee_per_gas tx \<le> tx_max_fee_per_gas tx"
proof -
  obtain fee where fee: "eth_get_fee_params oc prio fees = Some (Inr fee)" "eth_fee_ok 0 fee"
    using eth_fee_params_ok [OF assms(1), of oc prio] by blast
  have "\<exists>fee'. ((\<lambda>x. x \<bind> eth_bump_fee oc) ^^ n) (Some fee) = Some fee' \<and> eth_fee_ok n fee'"
    using assms(2)
  proof (induction n)
    case 0
    then show ?case using fee(2) by simp
  next
    case (Suc n)
    then obtain fee' where "((\<lambda>x. x \<bind> eth_bump_fee oc) ^^ n) (Some fee) = Some fee'" "eth_fee_ok n fee'" by auto
    then show ?case using eth_bump_fee_ok [of n fee' oc] Suc.prems by auto
  qed
  then obtain fee' where f: "((\<lambda>x. x \<bind> eth_bump_fee oc) ^^ n) (Some fee) = Some fee'" "eth_fee_ok n fee'" by blast
  have b: "unat (eth_priority_fee fee') \<le> 172800000000" "unat (eth_base_fee fee') = 2000000000"
    using eth_fee_ok_bound [OF f(2) assms(2)] f(2) by (simp_all add: eth_fee_ok_def)
  then obtain tx where "build_tx oc cid msg fee' nonce = Some tx"
    "unat (tx_max_fee_per_gas tx) = unat (eth_base_fee fee') + unat (eth_priority_fee fee')"
    "tx_max_priority_fee_per_gas tx = eth_priority_fee fee'"
    using build_tx_value [of fee' oc cid msg nonce] by auto
  then show ?thesis using fee(1) f(1) b by (simp add: word_le_nat_alt)
qed

theorem eth_fees_in_range_witness:
  "\<exists>fee tx. eth_get_fee_params True 100 gas_price_new = Some (Inr fee) \<and>
    build_tx True 1 (message_default 0) fee 0 = Some tx \<and> unat (tx_max_priority_fee_per_gas tx) \<le> 172800000000"
  using eth_fees_in_range [OF eth_fees_ok_new, of 0 True 100 1 "message_default 0" 0] by auto

text \<open>
  A replacement raises the priority fee by a fifth, rounded down, and keeps the base
  fee. The maximum fee then grows by less than a tenth whenever the priority fee is below
  the base fee, which is under the price bump nodes ask of a replacement.
\<close>
lemma bump_below_replacement_threshold:
  assumes "eth_fee_ok n fee" and "n \<le> 3" and "eth_priority_fee fee < eth_base_fee fee"
    and "build_tx oc cid msg fee nonce = Some tx"
  shows "\<exists>fee' tx'. eth_bump_fee oc fee = Some fee' \<and> build_tx oc cid msg fee' nonce = Some tx' \<and>
    unat (eth_priority_fee fee') = unat (eth_priority_fee fee) + unat (eth_priority_fee fee) div 5 \<and>
    eth_base_fee fee' = eth_base_fee fee \<and>
    10 * unat (tx_max_fee_per_gas tx') < 11 * unat (tx_max_fee_per_gas tx)"
proof -
  obtain fee' where f: "eth_bump_fee oc fee = Some fee'" "eth_fee_ok (Suc n) fee'"
    "unat (eth_priority_fee fee') = unat (eth_priority_fee fee) + unat (eth_priority_fee fee) div 5"
    "eth_base_fee fee' = eth_base_fee fee"
    using eth_bump_fee_ok [OF assms(1,2), of oc] by blast
  have b: "unat (eth_base_fee fee) = 2000000000" "unat (eth_priority_fee fee) < 2000000000"
    using assms(1,3) by (simp_all add: eth_fee_ok_def word_less_nat_alt)
  have t: "unat (tx_max_fee_per_gas tx) = unat (eth_base_fee fee) + unat (eth_priority_fee fee)"
    using build_tx_value [of fee oc cid msg nonce] b assms(4) by auto
  have "unat (eth_priority_fee fee) div 5 \<le> unat (eth_priority_fee fee)" by simp
  then have "unat (eth_base_fee fee') + unat (eth_priority_fee fee') < 2 ^ 128" using b f(3,4) by simp
  then obtain tx' where t': "build_tx oc cid msg fee' nonce = Some tx'"
    "unat (tx_max_fee_per_gas tx') = unat (eth_base_fee fee') + unat (eth_priority_fee fee')"
    using build_tx_value [of fee' oc cid msg nonce] by blast
  have "10 * (unat (eth_priority_fee fee) div 5) < unat (eth_base_fee fee) + unat (eth_priority_fee fee)"
    using b by linarith
  then show ?thesis using f t' by (simp add: t)
qed

text \<open>
  C35: The retry strategy: the retry budget is looked at first, then the number of
  replacements; in both cases the nonce is released, and otherwise the message is
  resubmitted under the same nonce with a bumped fee and nothing shared changes.
\<close>
theorem eth_handle_dropped_decision:
  assumes "eth_fee_ok n (pend_fee p)" and "n \<le> 3"
  shows "\<exists>dec r'. eth_handle_dropped oc p (f, r) = Some (dec, f, r') \<and>
    (dec = Abandon \<longleftrightarrow> 3 \<le> unat (retry_count (pend_msg p))) \<and>
    (dec = Requeue \<longleftrightarrow> unat (retry_count (pend_msg p)) < 3 \<and> 3 \<le> unat (pend_replacement_count p)) \<and>
    (\<forall>fee t. dec = Resubmit fee t \<longrightarrow> t = pend_replay_token p \<and> eth_bump_fee oc (pend_fee p) = Some fee \<and> r' = r) \<and>
    (dec = Abandon \<or> dec = Requeue \<longrightarrow> r' = r\<lparr>in_flight := in_flight r - {pend_replay_token p}\<rparr>)"
  using eth_bump_fee_ok [OF assms, of oc]
  by (auto simp: eth_handle_dropped_def can_retry_iff MAX_REPLACEMENTS_def word_le_nat_alt release_nonce_def
      mark_nonce_available_def)

theorem eth_handle_dropped_decision_witness:
  "\<exists>r'. eth_handle_dropped True \<lparr>pend_msg = message_default 0, pend_tx_id = 0,
      pend_fee = \<lparr>eth_base_fee = 2000000000, eth_priority_fee = 5\<rparr>, pend_replay_token = 4,
      pend_created_at = 0, pend_replacement_count = 3\<rparr> (gas_price_new, \<lparr>current = 4, in_flight = {4}\<rparr>)
    = Some (Requeue, gas_price_new, r') \<and> in_flight r' = {}"
proof -
  let ?p = "\<lparr>pend_msg = message_default 0, pend_tx_id = 0,
      pend_fee = \<lparr>eth_base_fee = 2000000000, eth_priority_fee = 5\<rparr>, pend_replay_token = 4,
      pend_created_at = 0, pend_replacement_count = 3\<rparr> :: eth_pending"
  have "eth_fee_ok 0 (pend_fee ?p)" by (simp add: eth_fee_ok_def)
  from eth_handle_dropped_decision [OF this, of True gas_price_new "\<lparr>current = 4, in_flight = {4}\<rparr>"]
  show ?thesis by (auto simp: message_default_def)
qed

text \<open>
  A confirmation advances the baseline to the confirmed nonce itself, not past it: the
  nonce stays in the in-flight set, so it is not handed out again, and leaves it only when
  a later synchronisation or confirmation moves the baseline on.
\<close>
lemma confirmed_nonce_stays_in_flight:
  assumes "nonce_invar r" and "pend_replay_token p \<in> in_flight r"
    and "eth_handle_confirmed oc p d (f, r) = Some (f', r')"
  shows "current r' = pend_replay_token p \<and> pend_replay_token p \<in> in_flight r' \<and>
    in_flight r' = {n \<in> in_flight r. pend_replay_token p \<le> n}"
proof -
  have r': "r' = update_current_nonce (pend_replay_token p) r"
    using assms(3) by (auto simp: eth_handle_confirmed_def confirm_nonce_def bind_eq_Some_conv)
  moreover have "current r \<le> pend_replay_token p" using assms(1,2) by (simp add: nonce_invar_def)
  ultimately show ?thesis
    using assms(1,2) by (auto simp: update_current_nonce_def nonce_invar_def not_less)
qed

end
