(* ===== verification/Binary_Heap.thy ===== *)
theory Binary_Heap
  imports Prelude
begin

text \<open>
  The \<open>std::collections::BinaryHeap\<close> that crates/bulkmail/src/priority_queue.rs wraps, as
  the standard library implements it: a vector in heap order, \<open>push\<close> by appending and
  sifting up, \<open>pop\<close> by moving the last element to the root, walking the hole to the
  bottom along the larger children and sifting up from there. Elements are compared by a
  key only, as \<open>PrioritizedMessage\<close> compares by \<open>effective_priority\<close>, so which of two
  equal elements leaves first is decided by the vector's layout; the model keeps the
  layout.

  \<open>max_queue\<close> is the contract a client of a priority queue relies on: the queue is a
  multiset of elements, a push adds one, a pop removes one of largest key. What follows
  from it is proved once, inside the locale.
\<close>

function sift_up :: "('a \<Rightarrow> 'k::linorder) \<Rightarrow> 'a \<Rightarrow> 'a list \<Rightarrow> nat \<Rightarrow> nat \<Rightarrow> 'a list" where
  "sift_up key x xs start pos =
     (if start < pos then
        let parent = (pos - 1) div 2
        in if key x \<le> key (xs ! parent) then xs[pos := x]
           else sift_up key x (xs[pos := xs ! parent]) start parent
      else xs[pos := x])"
  by pat_completeness auto
termination
  by (relation "measure (\<lambda>(key, x, xs, start, pos). pos)") auto

function sift_hole_down :: "('a \<Rightarrow> 'k::linorder) \<Rightarrow> 'a list \<Rightarrow> nat \<Rightarrow> 'a list \<times> nat" where
  "sift_hole_down key xs pos =
     (let child = 2 * pos + 1
      in if child \<le> length xs - 2 then
           let child' = (if key (xs ! child) \<le> key (xs ! (child + 1)) then child + 1 else child)
           in sift_hole_down key (xs[pos := xs ! child']) child'
         else if child = length xs - 1 then (xs[pos := xs ! child], child)
         else (xs, pos))"
  by pat_completeness auto
termination
  by (relation "measure (\<lambda>(key, xs, pos). length xs - pos)") (auto simp: Let_def split: if_splits)

declare sift_up.simps [simp del] sift_hole_down.simps [simp del]

definition sift_down_to_bottom :: "('a \<Rightarrow> 'k::linorder) \<Rightarrow> 'a list \<Rightarrow> 'a list" where
  "sift_down_to_bottom key xs =
     (let x = xs ! 0; (ys, pos) = sift_hole_down key xs 0 in sift_up key x ys 0 pos)"

definition heap_push :: "('a \<Rightarrow> 'k::linorder) \<Rightarrow> 'a list \<Rightarrow> 'a \<Rightarrow> 'a list" where
  "heap_push key xs x = sift_up key x (xs @ [x]) 0 (length xs)"

definition heap_pop :: "('a \<Rightarrow> 'k::linorder) \<Rightarrow> 'a list \<Rightarrow> ('a \<times> 'a list) option" where
  "heap_pop key xs =
     (if xs = [] then None
      else let item = last xs; rest = butlast xs
           in if rest = [] then Some (item, rest)
              else Some (rest ! 0, sift_down_to_bottom key (rest[0 := item])))"

text \<open>
  The heap order, and the same with a hole at one position: every element other than the
  hole and its children is below its parent, and the children of the hole are below the
  hole's parent.
\<close>

definition is_heap :: "('a \<Rightarrow> 'k::linorder) \<Rightarrow> 'a list \<Rightarrow> bool" where
  "is_heap key xs \<longleftrightarrow> (\<forall>i < length xs. 0 < i \<longrightarrow> key (xs ! i) \<le> key (xs ! ((i - 1) div 2)))"

definition heap_with_hole :: "('a \<Rightarrow> 'k::linorder) \<Rightarrow> 'a list \<Rightarrow> nat \<Rightarrow> bool" where
  "heap_with_hole key xs pos \<longleftrightarrow>
     (\<forall>i < length xs. 0 < i \<longrightarrow> i \<noteq> pos \<longrightarrow>
        (if (i - 1) div 2 = pos then 0 < pos \<longrightarrow> key (xs ! i) \<le> key (xs ! ((pos - 1) div 2))
         else key (xs ! i) \<le> key (xs ! ((i - 1) div 2))))"

definition children_below :: "('a \<Rightarrow> 'k::linorder) \<Rightarrow> 'a \<Rightarrow> 'a list \<Rightarrow> nat \<Rightarrow> bool" where
  "children_below key x xs pos \<longleftrightarrow>
     (\<forall>i < length xs. 0 < i \<longrightarrow> (i - 1) div 2 = pos \<longrightarrow> key (xs ! i) \<le> key x)"

locale max_queue =
  fixes empty :: 'q
    and push :: "'q \<Rightarrow> 'a \<Rightarrow> 'q"
    and pop :: "'q \<Rightarrow> ('a \<times> 'q) option"
    and items :: "'q \<Rightarrow> 'a multiset"
    and key :: "'a \<Rightarrow> 'k::linorder"
    and invar :: "'q \<Rightarrow> bool"
  assumes items_empty: "items empty = {#}"
    and invar_empty: "invar empty"
    and items_push: "invar q \<Longrightarrow> items (push q x) = add_mset x (items q)"
    and invar_push: "invar q \<Longrightarrow> invar (push q x)"
    and pop_None: "invar q \<Longrightarrow> pop q = None \<longleftrightarrow> items q = {#}"
    and pop_items: "invar q \<Longrightarrow> pop q = Some (x, q') \<Longrightarrow> items q = add_mset x (items q')"
    and pop_max: "invar q \<Longrightarrow> pop q = Some (x, q') \<Longrightarrow> \<forall>y \<in># items q. key y \<le> key x"
    and invar_pop: "invar q \<Longrightarrow> pop q = Some (x, q') \<Longrightarrow> invar q'"
begin

text \<open>Popping as often as given: the elements in the order they leave.\<close>

fun pop_many :: "nat \<Rightarrow> 'q \<Rightarrow> 'a list" where
  "pop_many 0 q = []"
| "pop_many (Suc n) q = (case pop q of None \<Rightarrow> [] | Some (x, q') \<Rightarrow> x # pop_many n q')"

lemma size_pop: "invar q \<Longrightarrow> pop q = Some (x, q') \<Longrightarrow> size (items q) = Suc (size (items q'))"
  by (simp add: pop_items)

lemma pop_after_push: "invar q \<Longrightarrow> pop (push q x) \<noteq> None"
  by (simp add: pop_None invar_push items_push)

lemma set_pop_many: "invar q \<Longrightarrow> set (pop_many n q) \<subseteq> set_mset (items q)"
proof (induction n arbitrary: q)
  case (Suc n)
  show ?case
  proof (cases "pop q")
    case (Some r)
    obtain x q' where "r = (x, q')" by (cases r)
    then show ?thesis
      using Suc.IH [of q'] Suc.prems Some invar_pop pop_items by fastforce
  qed simp
qed simp

lemma pop_many_sorted: "invar q \<Longrightarrow> sorted_wrt (\<lambda>x y. key y \<le> key x) (pop_many n q)"
proof (induction n arbitrary: q)
  case (Suc n)
  show ?case
  proof (cases "pop q")
    case (Some r)
    obtain x q' where r: "r = (x, q')" by (cases r)
    have "\<forall>y \<in> set (pop_many n q'). key y \<le> key x"
      using set_pop_many [of q' n] pop_max [of q x q'] pop_items [of q x q'] invar_pop [of q x q']
        Suc.prems Some r by auto
    then show ?thesis using Suc.IH [of q'] Suc.prems Some r invar_pop by simp
  qed simp
qed simp

lemma pop_many_all: "invar q \<Longrightarrow> mset (pop_many (size (items q)) q) = items q"
proof (induction "size (items q)" arbitrary: q)
  case 0
  then show ?case by simp
next
  case (Suc n)
  then have "pop q \<noteq> None" using pop_None by fastforce
  then obtain x q' where p: "pop q = Some (x, q')" by auto
  then have "n = size (items q')" using Suc size_pop by simp
  then show ?case
    using Suc.hyps(1) [of q'] Suc.hyps(2) [symmetric] Suc.prems p invar_pop pop_items by simp
qed

end

subsection \<open>Sifting up restores the heap order\<close>

lemma length_sift_up [simp]: "length (sift_up key x xs start pos) = length xs"
  by (induction key x xs start pos rule: sift_up.induct)
    (subst sift_up.simps, simp add: Let_def)

lemma is_heap_fill:
  assumes "heap_with_hole key xs pos" and "children_below key x xs pos"
    and "0 < pos \<Longrightarrow> key x \<le> key (xs ! ((pos - 1) div 2))" and "pos < length xs"
  shows "is_heap key (xs[pos := x])"
  unfolding is_heap_def
proof (intro allI impI)
  fix i assume i: "i < length (xs[pos := x])" "0 < i"
  have ne: "(i - 1) div 2 \<noteq> i" using i(2) by linarith
  show "key (xs[pos := x] ! i) \<le> key (xs[pos := x] ! ((i - 1) div 2))"
    using assms i ne
    by (cases "i = pos"; cases "(i - 1) div 2 = pos")
      (auto simp: heap_with_hole_def children_below_def nth_list_update split: if_splits)
qed

lemma hole_up:
  assumes "heap_with_hole key xs pos" and "0 < pos" and "pos < length xs"
  shows "heap_with_hole key (xs[pos := xs ! ((pos - 1) div 2)]) ((pos - 1) div 2)"
proof -
  define p where "p = (pos - 1) div 2"
  have p: "p < pos" "(pos - 1) div 2 = p" using assms(2) by (auto simp: p_def)
  have hole: "key (xs ! i) \<le> key (xs ! ((i - 1) div 2))"
    if "i < length xs" "0 < i" "i \<noteq> pos" "(i - 1) div 2 \<noteq> pos" for i
    using assms(1) that by (auto simp: heap_with_hole_def)
  have below: "key (xs ! i) \<le> key (xs ! p)"
    if "i < length xs" "0 < i" "(i - 1) div 2 = pos" for i
    using assms(1,2) that p by (auto simp: heap_with_hole_def)
  have grand: "(p - 1) div 2 \<noteq> pos" using p(1) by linarith
  have up: "key (xs ! p) \<le> key (xs ! ((p - 1) div 2))" if "0 < p"
    using hole [of p] that p assms(3) by simp
  have "heap_with_hole key (xs[pos := xs ! p]) p"
    unfolding heap_with_hole_def
  proof (intro allI impI)
    fix i assume i: "i < length (xs[pos := xs ! p])" "0 < i" "i \<noteq> p"
    consider (pos) "i = pos" | (child) "i \<noteq> pos" "(i - 1) div 2 = pos"
      | (sib) "i \<noteq> pos" "(i - 1) div 2 = p" | (else) "i \<noteq> pos" "(i - 1) div 2 \<noteq> pos" "(i - 1) div 2 \<noteq> p"
      by blast
    then show "if (i - 1) div 2 = p
        then 0 < p \<longrightarrow> key (xs[pos := xs ! p] ! i) \<le> key (xs[pos := xs ! p] ! ((p - 1) div 2))
        else key (xs[pos := xs ! p] ! i) \<le> key (xs[pos := xs ! p] ! ((i - 1) div 2))"
    proof cases
      case pos
      then show ?thesis using up p assms(3) by (auto simp: nth_list_update)
    next
      case child
      then show ?thesis using below [of i] i p assms(3) by (auto simp: nth_list_update)
    next
      case sib
      then have "0 < p \<Longrightarrow> key (xs ! i) \<le> key (xs ! ((p - 1) div 2))"
        using hole [of i] up i p by force
      then show ?thesis using sib grand by (simp add: nth_list_update)
    next
      case else
      then show ?thesis using hole [of i] i by (simp add: nth_list_update)
    qed
  qed
  then show ?thesis by (simp add: p_def)
qed

lemma children_up:
  assumes "heap_with_hole key xs pos" and "0 < pos" and "pos < length xs"
    and "key (xs ! ((pos - 1) div 2)) < key x"
  shows "children_below key x (xs[pos := xs ! ((pos - 1) div 2)]) ((pos - 1) div 2)"
  unfolding children_below_def
proof (intro allI impI)
  fix i
  assume i: "i < length (xs[pos := xs ! ((pos - 1) div 2)])" "0 < i" "(i - 1) div 2 = (pos - 1) div 2"
  have "(pos - 1) div 2 \<noteq> pos" using assms(2) by linarith
  then have "i \<noteq> pos \<Longrightarrow> key (xs ! i) \<le> key (xs ! ((pos - 1) div 2))"
    using assms(1) i by (auto simp: heap_with_hole_def)
  then show "key (xs[pos := xs ! ((pos - 1) div 2)] ! i) \<le> key x"
    using assms(3,4) i by (cases "i = pos") (auto simp: nth_list_update)
qed

lemma is_heap_sift_up:
  assumes "heap_with_hole key xs pos" and "children_below key x xs pos" and "pos < length xs"
  shows "is_heap key (sift_up key x xs 0 pos)"
  using assms
proof (induction pos arbitrary: xs rule: less_induct)
  case (less pos)
  show ?case
  proof (cases "0 < pos \<and> key (xs ! ((pos - 1) div 2)) < key x")
    case True
    then have "(pos - 1) div 2 < pos" by auto
    then have "is_heap key (sift_up key x (xs[pos := xs ! ((pos - 1) div 2)]) 0 ((pos - 1) div 2))"
      using less.IH less.prems hole_up children_up True by (metis length_list_update order_less_trans)
    then show ?thesis using True by (subst sift_up.simps) (auto simp: Let_def)
  next
    case False
    then have "is_heap key (xs[pos := x])"
      using is_heap_fill [OF less.prems(1,2) _ less.prems(3)] by (auto simp: not_less)
    then show ?thesis
      using False by (subst sift_up.simps) (auto simp: Let_def not_less)
  qed
qed

lemma mset_swap_hole:
  assumes "i < length xs" and "j < length xs" and "i \<noteq> j"
  shows "mset ((xs[i := xs ! j])[j := x]) = mset (xs[i := x])"
proof -
  have "(xs[i := x])[j := xs[i := x] ! i, i := xs[i := x] ! j] = xs[i := xs ! j, j := x]"
    using assms by (intro nth_equalityI) (auto simp: nth_list_update)
  then show ?thesis using assms mset_swap [of i "xs[i := x]" j] by simp
qed

lemma mset_sift_up: "pos < length xs \<Longrightarrow> mset (sift_up key x xs start pos) = mset (xs[pos := x])"
proof (induction key x xs start pos rule: sift_up.induct)
  case (1 key x xs start pos)
  then show ?case
    by (subst sift_up.simps)
      (auto simp: Let_def mset_swap_hole [of pos xs "(pos - Suc 0) div 2"])
qed

subsection \<open>The hole walks down along the larger children\<close>

lemma hole_down:
  assumes hole: "heap_with_hole key xs pos" and pos: "pos < length xs"
    and c: "0 < c" "c < length xs" "(c - 1) div 2 = pos"
    and larger: "\<And>i. i < length xs \<Longrightarrow> 0 < i \<Longrightarrow> (i - 1) div 2 = pos \<Longrightarrow> key (xs ! i) \<le> key (xs ! c)"
  shows "heap_with_hole key (xs[pos := xs ! c]) c"
  unfolding heap_with_hole_def
proof (intro allI impI)
  fix i assume i: "i < length (xs[pos := xs ! c])" "0 < i" "i \<noteq> c"
  have pc: "pos < c" using c by linarith
  have else: "key (xs ! i) \<le> key (xs ! ((i - 1) div 2))" if "i \<noteq> pos" "(i - 1) div 2 \<noteq> pos"
    using hole i that by (auto simp: heap_with_hole_def)
  have up: "key (xs ! c) \<le> key (xs ! ((pos - 1) div 2))" if "0 < pos"
    using hole c that pc by (auto simp: heap_with_hole_def)
  have "(i - 1) div 2 < i" using i(2) by linarith
  then show "if (i - 1) div 2 = c
      then 0 < c \<longrightarrow> key (xs[pos := xs ! c] ! i) \<le> key (xs[pos := xs ! c] ! ((c - 1) div 2))
      else key (xs[pos := xs ! c] ! i) \<le> key (xs[pos := xs ! c] ! ((i - 1) div 2))"
    using i pos c pc else up larger [of i]
    by (cases "i = pos"; cases "(i - 1) div 2 = pos") (auto simp: nth_list_update)
qed

lemma larger_child:
  fixes xs :: "'a list" and key :: "'a \<Rightarrow> 'k::linorder"
  assumes "0 < i" and "(i - 1) div 2 = pos"
    and "c = (if key (xs ! (2 * pos + 1)) \<le> key (xs ! (2 * pos + 1 + 1)) then 2 * pos + 1 + 1
              else 2 * pos + 1)"
  shows "key (xs ! i) \<le> key (xs ! c)"
proof -
  have "i = 2 * pos + 1 \<or> i = 2 * pos + 1 + 1" using assms(1,2) by linarith
  then show ?thesis using assms(3) by auto
qed

lemma sift_hole_down_inv:
  assumes "heap_with_hole key xs pos" and "pos < length xs"
    and "sift_hole_down key xs pos = (ys, q)"
  shows "heap_with_hole key ys q \<and> q < length ys \<and> length ys = length xs \<and>
    length ys \<le> 2 * q + 1 \<and> mset (ys[q := x]) = mset (xs[pos := x])"
  using assms
proof (induction key xs pos rule: sift_hole_down.induct)
  case (1 key xs pos)
  define c where
    "c = (if key (xs ! (2 * pos + 1)) \<le> key (xs ! (2 * pos + 1 + 1)) then 2 * pos + 1 + 1
          else 2 * pos + 1)"
  consider (two) "2 * pos + 1 \<le> length xs - 2" | (one) "2 * pos + 1 = length xs - 1"
    | (none) "length xs \<le> 2 * pos + 1"
    using "1.prems"(2) by linarith
  then show ?case
  proof cases
    case two
    have c: "0 < c" "c < length xs" "(c - 1) div 2 = pos" using two by (auto simp: c_def)
    have eq: "sift_hole_down key xs pos = sift_hole_down key (xs[pos := xs ! c]) c"
      using two by (subst sift_hole_down.simps) (simp add: c_def Let_def)
    have hole: "heap_with_hole key (xs[pos := xs ! c]) c"
      by (rule hole_down [OF "1.prems"(1,2) c larger_child [OF _ _ c_def]])
    have "heap_with_hole key ys q \<and> q < length ys \<and> length ys = length xs \<and>
        length ys \<le> 2 * q + 1 \<and> mset (ys[q := x]) = mset ((xs[pos := xs ! c])[c := x])"
      using "1.IH" [OF refl two c_def hole] c "1.prems"(3) eq by simp
    moreover have "mset ((xs[pos := xs ! c])[c := x]) = mset (xs[pos := x])"
      using mset_swap_hole [of pos xs c x] c "1.prems"(2) by force
    ultimately show ?thesis by simp
  next
    case one
    let ?c = "2 * pos + 1"
    have c: "0 < ?c" "?c < length xs" "(?c - 1) div 2 = pos" using one "1.prems"(2) by auto
    have "sift_hole_down key xs pos = (xs[pos := xs ! ?c], ?c)"
      using one c by (subst sift_hole_down.simps) (auto simp: Let_def)
    moreover have "heap_with_hole key (xs[pos := xs ! ?c]) ?c"
    proof (rule hole_down [OF "1.prems"(1,2) c])
      fix i assume "i < length xs" "0 < i" "(i - 1) div 2 = pos"
      then have "i = ?c" using one by linarith
      then show "key (xs ! i) \<le> key (xs ! ?c)" by simp
    qed
    ultimately show ?thesis
      using "1.prems"(2,3) c one mset_swap_hole [of pos xs ?c x] by auto
  next
    case none
    then have "sift_hole_down key xs pos = (xs, pos)"
      using "1.prems"(2) by (subst sift_hole_down.simps) (auto simp: Let_def)
    then show ?thesis using "1.prems" none by auto
  qed
qed

subsection \<open>Push and pop\<close>

lemma heap_push_correct:
  assumes "is_heap key xs"
  shows "is_heap key (heap_push key xs x)" and "mset (heap_push key xs x) = add_mset x (mset xs)"
proof -
  have par: "0 < i \<Longrightarrow> (i - 1) div 2 < i" for i :: nat by linarith
  have "heap_with_hole key (xs @ [x]) (length xs)"
    unfolding heap_with_hole_def
  proof (intro allI impI)
    fix i assume "i < length (xs @ [x])" "0 < i" "i \<noteq> length xs"
    then show "if (i - 1) div 2 = length xs
        then 0 < length xs \<longrightarrow> key ((xs @ [x]) ! i) \<le> key ((xs @ [x]) ! ((length xs - 1) div 2))
        else key ((xs @ [x]) ! i) \<le> key ((xs @ [x]) ! ((i - 1) div 2))"
      using assms par [of i] by (auto simp: is_heap_def nth_append)
  qed
  moreover have "children_below key x (xs @ [x]) (length xs)"
    by (auto simp: children_below_def)
  ultimately show "is_heap key (heap_push key xs x)"
    by (simp add: heap_push_def is_heap_sift_up)
  show "mset (heap_push key xs x) = add_mset x (mset xs)"
    by (simp add: heap_push_def mset_sift_up)
qed

lemma heap_root_max:
  assumes "is_heap key xs" and "i < length xs"
  shows "key (xs ! i) \<le> key (xs ! 0)"
  using assms(2)
proof (induction i rule: less_induct)
  case (less i)
  show ?case
  proof (cases "i = 0")
    case False
    then have "(i - 1) div 2 < i" by linarith
    then have "key (xs ! i) \<le> key (xs ! ((i - 1) div 2))"
      and "key (xs ! ((i - 1) div 2)) \<le> key (xs ! 0)"
      using less assms(1) False by (auto simp: is_heap_def)
    then show ?thesis by (rule order_trans)
  qed simp
qed

lemma sift_down_to_bottom_correct:
  assumes "is_heap key ys" and "xs = ys[0 := x]" and "xs \<noteq> []"
  shows "is_heap key (sift_down_to_bottom key xs)" and "mset (sift_down_to_bottom key xs) = mset xs"
proof -
  have par: "0 < i \<Longrightarrow> (i - 1) div 2 < i" for i :: nat by linarith
  obtain zs q where d: "sift_hole_down key xs 0 = (zs, q)" by (cases "sift_hole_down key xs 0")
  have hole: "heap_with_hole key xs 0"
    using assms(1,2) by (auto simp: heap_with_hole_def is_heap_def nth_list_update)
  from sift_hole_down_inv [OF hole _ d, of "xs ! 0"] assms(3)
  have z: "heap_with_hole key zs q" "q < length zs" "length zs \<le> 2 * q + 1"
    "mset (zs[q := xs ! 0]) = mset xs" by auto
  have "children_below key (xs ! 0) zs q"
    using z(3) by (auto simp: children_below_def)
  then show "is_heap key (sift_down_to_bottom key xs)"
    using z is_heap_sift_up by (simp add: sift_down_to_bottom_def d)
  show "mset (sift_down_to_bottom key xs) = mset xs"
    using z by (simp add: sift_down_to_bottom_def d mset_sift_up)
qed

lemma is_heap_butlast: "is_heap key xs \<Longrightarrow> is_heap key (butlast xs)"
  by (auto simp: is_heap_def nth_butlast)

lemma heap_pop_correct:
  assumes heap: "is_heap key xs" and pop: "heap_pop key xs = Some (x, ys)"
  shows "is_heap key ys" and "mset xs = add_mset x (mset ys)" and "x = xs ! 0"
proof -
  have ne: "xs \<noteq> []" using pop by (auto simp: heap_pop_def)
  have split: "mset xs = add_mset (last xs) (mset (butlast xs))"
    using ne by (metis append_butlast_last_id mset_append add_mset_add_single mset.simps)
  have "is_heap key ys \<and> mset xs = add_mset x (mset ys) \<and> x = xs ! 0"
  proof (cases "butlast xs = []")
    case True
    then have "xs = [last xs]" using ne by (metis append_butlast_last_id append_Nil)
    then have "xs ! 0 = last xs" by (metis nth_Cons_0)
    then show ?thesis
      using True pop split ne by (auto simp: heap_pop_def Let_def is_heap_def)
  next
    case False
    have x: "x = butlast xs ! 0" "ys = sift_down_to_bottom key ((butlast xs)[0 := last xs])"
      using pop False ne by (auto simp: heap_pop_def Let_def)
    note ok = sift_down_to_bottom_correct [OF is_heap_butlast [OF heap] refl, of "last xs"]
    have "butlast xs ! 0 \<in># mset (butlast xs)" and "0 < length (butlast xs)"
      using False by (auto simp del: length_butlast)
    then have "add_mset x (mset ys) = add_mset (last xs) (mset (butlast xs))"
      using ok(2) False x mset_update [of 0 "butlast xs" "last xs"]
      by (simp add: insert_DiffM add_mset_commute del: length_butlast)
    moreover have "butlast xs ! 0 = xs ! 0"
      using \<open>0 < length (butlast xs)\<close> by (rule nth_butlast)
    ultimately show ?thesis using ok(1) False x split by simp
  qed
  then show "is_heap key ys" "mset xs = add_mset x (mset ys)" "x = xs ! 0" by auto
qed

lemma heap_pop_max:
  "is_heap key xs \<Longrightarrow> heap_pop key xs = Some (x, ys) \<Longrightarrow> \<forall>y \<in> set xs. key y \<le> key x"
  using heap_root_max [of key xs] heap_pop_correct(3) [of key xs x ys] by (auto simp: in_set_conv_nth)

lemma heap_pop_None: "heap_pop key xs = None \<longleftrightarrow> xs = []"
  by (simp add: heap_pop_def Let_def)

end
