(* ===== verification/Priority_Queue.thy ===== *)
theory Priority_Queue
  imports Binary_Heap Message
begin

text \<open>
  crates/bulkmail/src/priority_queue.rs: a heap of messages that each carry the effective
  priority they had when they were pushed. The interpretation \<open>pq\<close> of \<open>max_queue\<close> is the
  proof that the heap keeps its promise; the properties say which message a pop returns
  and in which order the messages leave.
\<close>

record prioritized_message =
  pm_message :: message
  pm_priority :: u32

record priority_queue =
  heap :: "prioritized_message list"

definition queue_new :: priority_queue where
  "queue_new = \<lparr>heap = []\<rparr>"

text \<open>The part of \<open>push\<close> after the priority has been computed.\<close>

definition queue_insert :: "priority_queue \<Rightarrow> prioritized_message \<Rightarrow> priority_queue" where
  "queue_insert q pm = q\<lparr>heap := heap_push pm_priority (heap q) pm\<rparr>"

definition queue_push :: "bool \<Rightarrow> priority_queue \<Rightarrow> message \<Rightarrow> u64 \<Rightarrow> priority_queue option" where
  "queue_push oc q m now =
     do {
       p \<leftarrow> effective_priority oc m now;
       Some (queue_insert q \<lparr>pm_message = m, pm_priority = p\<rparr>)
     }"

definition queue_take :: "priority_queue \<Rightarrow> (prioritized_message \<times> priority_queue) option" where
  "queue_take q = map_option (\<lambda>(pm, h). (pm, q\<lparr>heap := h\<rparr>)) (heap_pop pm_priority (heap q))"

definition queue_pop :: "priority_queue \<Rightarrow> (message \<times> priority_queue) option" where
  "queue_pop q = map_option (\<lambda>(pm, q'). (pm_message pm, q')) (queue_take q)"

definition queue_is_empty :: "priority_queue \<Rightarrow> bool" where
  "queue_is_empty q \<longleftrightarrow> heap q = []"

definition queue_len :: "priority_queue \<Rightarrow> nat" where
  "queue_len q = length (heap q)"

definition queue_items :: "priority_queue \<Rightarrow> prioritized_message multiset" where
  "queue_items q = mset (heap q)"

definition queue_invar :: "priority_queue \<Rightarrow> bool" where
  "queue_invar q \<longleftrightarrow> is_heap pm_priority (heap q)"

definition queue_messages :: "priority_queue \<Rightarrow> message multiset" where
  "queue_messages q = image_mset pm_message (queue_items q)"

interpretation pq: max_queue queue_new queue_insert queue_take queue_items pm_priority queue_invar
proof
  fix q x q'
  assume inv: "queue_invar q" and take: "queue_take q = Some (x, q')"
  then obtain h where h: "heap_pop pm_priority (heap q) = Some (x, h)" and q': "q' = q\<lparr>heap := h\<rparr>"
    by (auto simp: queue_take_def)
  from heap_pop_correct [OF _ h] inv q'
  show "queue_items q = add_mset x (queue_items q')" and "queue_invar q'"
    by (simp_all add: queue_items_def queue_invar_def)
  from heap_pop_max [OF _ h] inv show "\<forall>y \<in># queue_items q. pm_priority y \<le> pm_priority x"
    by (simp add: queue_items_def queue_invar_def)
qed (simp_all add: queue_items_def queue_new_def queue_invar_def is_heap_def [of _ "[]"]
    queue_insert_def heap_push_correct queue_take_def heap_pop_None)

lemma queue_pop_Some:
  "queue_pop q = Some (m, q') \<longleftrightarrow> (\<exists>p. queue_take q = Some (\<lparr>pm_message = m, pm_priority = p\<rparr>, q'))"
  by (auto simp: queue_pop_def) (metis prioritized_message.surjective unit.exhaust)+

lemma queue_pop_None: "queue_invar q \<Longrightarrow> queue_pop q = None \<longleftrightarrow> queue_messages q = {#}"
  by (simp add: queue_pop_def pq.pop_None queue_messages_def)

lemma queue_push_messages:
  "queue_invar q \<Longrightarrow> queue_push oc q m now = Some q' \<Longrightarrow>
   queue_messages q' = add_mset m (queue_messages q) \<and> queue_invar q'"
  by (auto simp: queue_push_def bind_eq_Some_conv queue_messages_def pq.items_push pq.invar_push)

lemma queue_pop_messages:
  "queue_invar q \<Longrightarrow> queue_pop q = Some (m, q') \<Longrightarrow>
   queue_messages q = add_mset m (queue_messages q') \<and> queue_invar q'"
  by (auto simp: queue_pop_Some queue_messages_def dest: pq.pop_items pq.invar_pop)

lemma queue_len_messages: "queue_len q = size (queue_messages q)"
  by (simp add: queue_len_def queue_messages_def queue_items_def)

text \<open>
  The queue is a multiset of messages: a push adds exactly the pushed message, a pop of
  a non-empty queue returns a message of the queue and removes exactly that one, a pop of
  the empty queue returns nothing, and both keep the heap order.
\<close>
lemma queue_conserves_messages:
  assumes "queue_invar q"
  shows "(\<forall>q'. queue_push oc q m now = Some q' \<longrightarrow>
            queue_invar q' \<and> queue_messages q' = add_mset m (queue_messages q)
            \<and> queue_len q' = Suc (queue_len q)) \<and>
    (case queue_pop q of
       None \<Rightarrow> queue_is_empty q \<and> queue_messages q = {#}
     | Some (x, q') \<Rightarrow> queue_invar q' \<and> queue_messages q = add_mset x (queue_messages q')
         \<and> queue_len q = Suc (queue_len q'))"
proof (cases "queue_pop q")
  case None
  then show ?thesis
    using queue_push_messages [OF assms] queue_pop_None [OF assms]
    by (auto simp: queue_len_messages queue_is_empty_def queue_messages_def queue_items_def)
next
  case (Some r)
  then show ?thesis
    using queue_push_messages [OF assms] queue_pop_messages [OF assms]
    by (auto simp: queue_len_messages split: prod.splits)
qed

text \<open>
  A pop returns a message whose stored priority, the effective priority at the time it
  was pushed, is the largest in the queue: none of the messages left behind has a larger
  one.
\<close>
lemma queue_pop_highest:
  assumes "queue_invar q" and "queue_pop q = Some (m, q')"
  shows "\<exists>p. \<lparr>pm_message = m, pm_priority = p\<rparr> \<in># queue_items q \<and>
    (\<forall>x \<in># queue_items q'. pm_priority x \<le> p)"
proof -
  obtain p where p: "queue_take q = Some (\<lparr>pm_message = m, pm_priority = p\<rparr>, q')"
    using assms(2) by (auto simp: queue_pop_Some)
  then show ?thesis
    using pq.pop_items [OF assms(1) p] pq.pop_max [OF assms(1) p] by auto
qed

lemma two_message_pop:
  "queue_pop (queue_insert (queue_insert queue_new \<lparr>pm_message = a, pm_priority = 3\<rparr>)
      \<lparr>pm_message = b, pm_priority = 5\<rparr>)
   = Some (b, \<lparr>heap = [\<lparr>pm_message = a, pm_priority = 3\<rparr>]\<rparr>)"
  by (simp add: queue_pop_def queue_take_def queue_insert_def queue_new_def heap_push_def
      heap_pop_def sift_up.simps sift_down_to_bottom_def sift_hole_down.simps)

text \<open>
  C36: Emptying the queue yields every message of it, in an order of non-increasing stored
  priority.
\<close>
theorem queue_drains_in_priority_order:
  assumes "queue_invar q"
  shows "\<exists>pms. pms = pq.pop_many (queue_len q) q \<and> mset pms = queue_items q \<and>
    sorted_wrt (\<lambda>x y. pm_priority y \<le> pm_priority x) pms"
proof -
  have "queue_len q = size (queue_items q)" by (simp add: queue_len_def queue_items_def)
  then show ?thesis using pq.pop_many_all [OF assms] pq.pop_many_sorted [OF assms] by simp
qed

theorem queue_drains_in_priority_order_witness:
  "sorted_wrt (\<lambda>x y. pm_priority y \<le> pm_priority x)
     (pq.pop_many 2 (queue_insert (queue_insert queue_new
       \<lparr>pm_message = message_default 0, pm_priority = 3\<rparr>) \<lparr>pm_message = message_default 5, pm_priority = 5\<rparr>))"
proof -
  let ?q = "queue_insert (queue_insert queue_new \<lparr>pm_message = message_default 0, pm_priority = 3\<rparr>)
    \<lparr>pm_message = message_default 5, pm_priority = 5\<rparr>"
  have "queue_len ?q = 2" by (simp add: queue_len_def queue_insert_def queue_new_def heap_push_def)
  moreover have "queue_invar ?q" by (intro pq.invar_push pq.invar_empty)
  ultimately show ?thesis using queue_drains_in_priority_order [of ?q] by auto
qed

end
