(* ===== verification/Sender.thy ===== *)
theory Sender
  imports Ethereum Priority_Queue
begin

text \<open>
  The orchestrator of crates/bulkmail/src/sender.rs as a state machine. The shared state is
  the queue, the semaphore's free permits, the stored wake-up of \<open>message_ready\<close> and the
  adapter's two stateful parts; every spawned task and the \<open>run\<close> loop is a program counter
  with its local variables. A step is the code from one suspension point to the next that
  touches shared state, so all interleavings of tasks at their await points are
  interleavings of steps; one call of an adapter operation is one step, since each works
  under its own lock. What comes from outside (clock readings, chain replies) is carried by
  the events.

  \<open>process_message\<close> and \<open>send_and_watch\<close> are the same code run by one task alone.
\<close>

definition MAX_IN_FLIGHT_TRANSACTIONS :: nat where "MAX_IN_FLIGHT_TRANSACTIONS = 16"
definition TX_FAILURE_INSUFFICIENT_FUNDS :: int where "TX_FAILURE_INSUFFICIENT_FUNDS = - 32003"

text \<open>
  Where a task stands: spawned with its message; holding a token but no fee yet; at the top
  of the send loop; waiting for the chain; about to give up or requeue after the strategy
  said so; about to push the message again; done. \<open>Panicked\<close> is a task ended by a panic.
\<close>

datatype ('fee, 'tok) task =
    Spawned message
  | Bound message u64 'tok
  | Looping message 'fee 'tok u32
  | Awaiting message 'fee 'tok u32 duration
  | Abandoning 'tok
  | Requeueing message 'tok
  | Readding message
  | Finished "unit result"
  | Panicked

datatype main_pc = Subscribing | AcquirePermit | HoldsPermit | Parked | Syncing | Stopped error | MainPanicked

record ('r, 'f, 'fee, 'tok) sender =
  queue :: priority_queue
  permits :: nat
  message_ready :: bool
  replay :: 'r
  fees :: 'f
  tasks :: "('fee, 'tok) task list"
  main :: main_pc

definition sender_new :: "'f \<Rightarrow> 'r \<Rightarrow> ('r, 'f, 'fee, 'tok) sender" where
  "sender_new f r =
     \<lparr>queue = queue_new, permits = MAX_IN_FLIGHT_TRANSACTIONS, message_ready = False,
      replay = r, fees = f, tasks = [], main = Subscribing\<rparr>"

text \<open>\<open>notify_one\<close> stores at most one wake-up; \<open>add_message\<close> pushes, then notifies.\<close>

definition add_message :: "bool \<Rightarrow> message \<Rightarrow> u64 \<Rightarrow> ('r, 'f, 'fee, 'tok) sender \<Rightarrow> ('r, 'f, 'fee, 'tok) sender option" where
  "add_message oc msg now s =
     map_option (\<lambda>q. s\<lparr>queue := q, message_ready := True\<rparr>) (queue_push oc (queue s) msg now)"

subsection \<open>One task\<close>

text \<open>What a task waits for: a reading of the two clocks, or the chain's answers.\<close>

datatype 'rep task_input = Clock u64 duration | Reply 'rep duration | Go

definition release_token ::
  "('r, 'f, 'fee, 'tok, 'id, 'rep, 'sync) chain_adapter \<Rightarrow> 'tok \<Rightarrow> ('r, 'f, 'fee, 'tok) sender \<Rightarrow> ('r, 'f, 'fee, 'tok) sender" where
  "release_token A tok s = s\<lparr>replay := replay_release A tok (replay s)\<rparr>"

text \<open>\<open>process_message\<close> up to the token, and from the token to the send loop.\<close>

definition task_start ::
  "('r, 'f, 'fee, 'tok, 'id, 'rep, 'sync) chain_adapter \<Rightarrow> bool \<Rightarrow> message \<Rightarrow> u64 \<Rightarrow>
   ('r, 'f, 'fee, 'tok) sender \<Rightarrow> ('fee, 'tok) task \<times> ('r, 'f, 'fee, 'tok) sender" where
  "task_start A oc msg now s =
     (case is_expired oc msg now of
        None \<Rightarrow> (Panicked, s)
      | Some True \<Rightarrow> (Finished (Inl MessageExpired), s)
      | Some False \<Rightarrow>
          (case replay_next A oc (replay s) of
             None \<Rightarrow> (Panicked, s)
           | Some (tok, r) \<Rightarrow> (Bound msg now tok, s\<lparr>replay := r\<rparr>)))"

definition task_bind_fee ::
  "('r, 'f, 'fee, 'tok, 'id, 'rep, 'sync) chain_adapter \<Rightarrow> bool \<Rightarrow> message \<Rightarrow> u64 \<Rightarrow> 'tok \<Rightarrow>
   ('r, 'f, 'fee, 'tok) sender \<Rightarrow> ('fee, 'tok) task \<times> ('r, 'f, 'fee, 'tok) sender" where
  "task_bind_fee A oc msg now tok s =
     (case effective_priority oc msg now \<bind> (\<lambda>p. fee_params A oc p (fees s)) of
        None \<Rightarrow> (Panicked, s)
      | Some (Inl e) \<Rightarrow> (Finished (Inl e), release_token A tok s)
      | Some (Inr fee) \<Rightarrow> (Looping msg fee tok 0, s))"

text \<open>
  One round of the loop of \<open>send_and_watch\<close>: up to the submission, and what follows the
  outcome.
\<close>

definition task_attempt ::
  "('r, 'f, 'fee, 'tok, 'id, 'rep, 'sync) chain_adapter \<Rightarrow> bool \<Rightarrow> message \<Rightarrow> 'fee \<Rightarrow> 'tok \<Rightarrow> u32 \<Rightarrow> u64 \<Rightarrow> duration \<Rightarrow>
   ('r, 'f, 'fee, 'tok) sender \<Rightarrow> ('fee, 'tok) task \<times> ('r, 'f, 'fee, 'tok) sender" where
  "task_attempt A oc msg fee tok cnt now created_at s =
     (case is_expired oc msg now of
        None \<Rightarrow> (Panicked, s)
      | Some True \<Rightarrow> (Finished (Inl MessageExpired), release_token A tok s)
      | Some False \<Rightarrow> (Awaiting msg fee tok cnt created_at, s))"

definition task_dropped ::
  "('r, 'f, 'fee, 'tok, 'id, 'rep, 'sync) chain_adapter \<Rightarrow> bool \<Rightarrow> ('fee, 'tok, 'id) pending_transaction \<Rightarrow>
   ('r, 'f, 'fee, 'tok) sender \<Rightarrow> ('fee, 'tok) task \<times> ('r, 'f, 'fee, 'tok) sender" where
  "task_dropped A oc pending s =
     (let (msg, again) = increment_retry (pend_msg pending) in
      if \<not> again then (Finished (Inr ()), release_token A (pend_replay_token pending) s)
      else (case handle_dropped A oc pending (fees s, replay s) of
              None \<Rightarrow> (Panicked, s)
            | Some (dec, f, r) \<Rightarrow>
                (case dec of
                   Resubmit new_fee new_replay \<Rightarrow>
                     (case rust_add oc (pend_replacement_count pending) 1 of
                        None \<Rightarrow> Panicked
                      | Some cnt \<Rightarrow> Looping msg new_fee new_replay cnt)
                 | Requeue \<Rightarrow> Requeueing msg (pend_replay_token pending)
                 | Abandon \<Rightarrow> Abandoning (pend_replay_token pending),
                 s\<lparr>fees := f, replay := r\<rparr>)))"

definition task_outcome ::
  "('r, 'f, 'fee, 'tok, 'id, 'rep, 'sync) chain_adapter \<Rightarrow> bool \<Rightarrow> message \<Rightarrow> 'fee \<Rightarrow> 'tok \<Rightarrow> u32 \<Rightarrow> duration \<Rightarrow>
   'id send_outcome \<Rightarrow> duration \<Rightarrow> ('r, 'f, 'fee, 'tok) sender \<Rightarrow> ('fee, 'tok) task \<times> ('r, 'f, 'fee, 'tok) sender" where
  "task_outcome A oc msg fee tok cnt created_at out now s =
     (let pending = (\<lambda>tx_id. \<lparr>pend_msg = msg, pend_tx_id = tx_id, pend_fee = fee, pend_replay_token = tok,
            pend_created_at = created_at, pend_replacement_count = cnt\<rparr>) in
      case out of
        Confirmed tx_id \<Rightarrow>
          (case handle_confirmed A oc (pending tx_id) (now - created_at) (fees s, replay s) of
             None \<Rightarrow> (Panicked, s)
           | Some (f, r) \<Rightarrow> (Finished (Inr ()), s\<lparr>fees := f, replay := r\<rparr>))
      | Dropped tx_id \<Rightarrow> task_dropped A oc (pending tx_id) s
      | Reverted tx_id \<Rightarrow> task_dropped A oc (pending tx_id) s)"

definition task_reply ::
  "('r, 'f, 'fee, 'tok, 'id, 'rep, 'sync) chain_adapter \<Rightarrow> bool \<Rightarrow> message \<Rightarrow> 'fee \<Rightarrow> 'tok \<Rightarrow> u32 \<Rightarrow> duration \<Rightarrow>
   'rep \<Rightarrow> duration \<Rightarrow> ('r, 'f, 'fee, 'tok) sender \<Rightarrow> ('fee, 'tok) task \<times> ('r, 'f, 'fee, 'tok) sender" where
  "task_reply A oc msg fee tok cnt created_at rep now s =
     (case client_send A oc msg fee tok rep of
        None \<Rightarrow> (Panicked, s)
      | Some (Inl e) \<Rightarrow> (Finished (Inl e), release_token A tok s)
      | Some (Inr out) \<Rightarrow> task_outcome A oc msg fee tok cnt created_at out now s)"

fun task_step ::
  "('r, 'f, 'fee, 'tok, 'id, 'rep, 'sync) chain_adapter \<Rightarrow> bool \<Rightarrow> 'rep task_input \<Rightarrow> ('fee, 'tok) task \<Rightarrow>
   ('r, 'f, 'fee, 'tok) sender \<Rightarrow> (('fee, 'tok) task \<times> ('r, 'f, 'fee, 'tok) sender) option" where
  "task_step A oc (Clock now i) (Spawned msg) s = Some (task_start A oc msg now s)"
| "task_step A oc Go (Bound msg now tok) s = Some (task_bind_fee A oc msg now tok s)"
| "task_step A oc (Clock now i) (Looping msg fee tok cnt) s = Some (task_attempt A oc msg fee tok cnt now i s)"
| "task_step A oc (Reply rep i) (Awaiting msg fee tok cnt created_at) s =
     Some (task_reply A oc msg fee tok cnt created_at rep i s)"
| "task_step A oc Go (Abandoning tok) s = Some (Finished (Inr ()), release_token A tok s)"
| "task_step A oc Go (Requeueing msg tok) s = Some (Readding msg, release_token A tok s)"
| "task_step A oc (Clock now i) (Readding msg) s =
     Some (case add_message oc msg now s of
             None \<Rightarrow> (Panicked, s)
           | Some s' \<Rightarrow> (Finished (Inr ()), s'))"
| "task_step A oc _ _ s = None"

fun ended :: "('fee, 'tok) task \<Rightarrow> bool" where
  "ended (Finished res) = True"
| "ended Panicked = True"
| "ended _ = False"

text \<open>A task that ends, by returning or by unwinding, drops its permit.\<close>

definition run_task ::
  "('r, 'f, 'fee, 'tok, 'id, 'rep, 'sync) chain_adapter \<Rightarrow> bool \<Rightarrow> nat \<Rightarrow> 'rep task_input \<Rightarrow>
   ('r, 'f, 'fee, 'tok) sender \<Rightarrow> ('r, 'f, 'fee, 'tok) sender option" where
  "run_task A oc i inp s =
     (if length (tasks s) \<le> i then None
      else map_option (\<lambda>(t, s'). s'\<lparr>tasks := (tasks s')[i := t],
             permits := permits s' + (if ended t then 1 else 0)\<rparr>) (task_step A oc inp (tasks s ! i) s))"

text \<open>What a finished task logs: the error handling around \<open>process_message\<close>.\<close>

datatype log_entry = NoEntry | InsufficientFunds | ProcessingError error

definition task_log :: "unit result \<Rightarrow> log_entry" where
  "task_log res =
     (case res of
        Inr _ \<Rightarrow> NoEntry
      | Inl e \<Rightarrow>
          (case e of
             ChainError (Rpc (ErrorResp code text)) \<Rightarrow>
               if code = TX_FAILURE_INSUFFICIENT_FUNDS then InsufficientFunds else ProcessingError e
           | _ \<Rightarrow> ProcessingError e))"

subsection \<open>The run loop\<close>

text \<open>
  \<open>run\<close> selects between the next block and \<open>process_next_message\<close>. A block cancels the
  other branch wherever it waits: for a permit, for the queue's lock (holding the permit,
  which is then dropped) or for a wake-up. The pop and the spawning of the task have no
  suspension point in between, so a popped message is never lost to a cancellation.
\<close>

datatype ('rep, 'sync) event =
    AddMessage message u64
  | Subscribe "unit result"
  | Acquire
  | TryPop
  | Wake
  | Block "u64 option"
  | SyncReply 'sync
  | TaskStep nat "'rep task_input"

definition cancel_process_next :: "('r, 'f, 'fee, 'tok) sender \<Rightarrow> ('r, 'f, 'fee, 'tok) sender" where
  "cancel_process_next s = s\<lparr>permits := permits s + (if main s = HoldsPermit then 1 else 0)\<rparr>"

definition select_block :: "u64 option \<Rightarrow> ('r, 'f, 'fee, 'tok) sender \<Rightarrow> ('r, 'f, 'fee, 'tok) sender option" where
  "select_block block s =
     (if main s \<in> {AcquirePermit, HoldsPermit, Parked}
      then Some ((cancel_process_next s)\<lparr>main := (case block of Some n \<Rightarrow> Syncing | None \<Rightarrow> Stopped SubscriptionClosed)\<rparr>)
      else None)"

definition sync_done ::
  "('r, 'f, 'fee, 'tok, 'id, 'rep, 'sync) chain_adapter \<Rightarrow> bool \<Rightarrow> 'sync \<Rightarrow> ('r, 'f, 'fee, 'tok) sender \<Rightarrow> ('r, 'f, 'fee, 'tok) sender option" where
  "sync_done A oc reply s =
     (if main s \<noteq> Syncing then None
      else Some (case replay_sync A oc reply (replay s) of
                   None \<Rightarrow> s\<lparr>main := MainPanicked\<rparr>
                 | Some (res, r) \<Rightarrow> s\<lparr>replay := r,
                     main := (case res of Inl e \<Rightarrow> Stopped e | Inr _ \<Rightarrow> AcquirePermit)\<rparr>))"

definition acquire_permit :: "('r, 'f, 'fee, 'tok) sender \<Rightarrow> ('r, 'f, 'fee, 'tok) sender option" where
  "acquire_permit s =
     (if main s = AcquirePermit \<and> 0 < permits s
      then Some (s\<lparr>permits := permits s - 1, main := HoldsPermit\<rparr>) else None)"

definition pop_or_park :: "('r, 'f, 'fee, 'tok) sender \<Rightarrow> ('r, 'f, 'fee, 'tok) sender option" where
  "pop_or_park s =
     (if main s \<noteq> HoldsPermit then None
      else Some (case queue_pop (queue s) of
                   Some (msg, q) \<Rightarrow> s\<lparr>queue := q, tasks := tasks s @ [Spawned msg], main := AcquirePermit\<rparr>
                 | None \<Rightarrow> s\<lparr>permits := permits s + 1, main := Parked\<rparr>))"

definition wake_up :: "('r, 'f, 'fee, 'tok) sender \<Rightarrow> ('r, 'f, 'fee, 'tok) sender option" where
  "wake_up s = (if main s = Parked \<and> message_ready s
     then Some (s\<lparr>message_ready := False, main := AcquirePermit\<rparr>) else None)"

fun exec ::
  "('r, 'f, 'fee, 'tok, 'id, 'rep, 'sync) chain_adapter \<Rightarrow> bool \<Rightarrow> ('rep, 'sync) event \<Rightarrow>
   ('r, 'f, 'fee, 'tok) sender \<Rightarrow> ('r, 'f, 'fee, 'tok) sender option" where
  "exec A oc (AddMessage msg now) s = add_message oc msg now s"
| "exec A oc (Subscribe reply) s =
     (if main s = Subscribing
      then Some (s\<lparr>main := (case reply of Inl e \<Rightarrow> Stopped e | Inr _ \<Rightarrow> AcquirePermit)\<rparr>) else None)"
| "exec A oc Acquire s = acquire_permit s"
| "exec A oc TryPop s = pop_or_park s"
| "exec A oc Wake s = wake_up s"
| "exec A oc (Block b) s = select_block b s"
| "exec A oc (SyncReply reply) s = sync_done A oc reply s"
| "exec A oc (TaskStep i inp) s = run_task A oc i inp s"

text \<open>The histories of a sender: every sequence of events its steps allow.\<close>

inductive history ::
  "('r, 'f, 'fee, 'tok, 'id, 'rep, 'sync) chain_adapter \<Rightarrow> bool \<Rightarrow> ('r, 'f, 'fee, 'tok) sender \<Rightarrow>
   ('rep, 'sync) event list \<Rightarrow> ('r, 'f, 'fee, 'tok) sender \<Rightarrow> bool"
  for A oc s0 where
  start: "history A oc s0 [] s0"
| step: "history A oc s0 evs s \<Longrightarrow> exec A oc ev s = Some s' \<Longrightarrow> history A oc s0 (evs @ [ev]) s'"

inductive_cases history_snocE: "history A oc s0 (evs @ [ev]) s"
fun_cases task_step_SomeE: "task_step A oc inp t s = Some r"

subsection \<open>The same code run by one task alone\<close>

text \<open>
  \<open>process_message\<close> and \<open>send_and_watch\<close> as the source writes them, with no other task in
  between. The outside world during round \<open>n\<close> is \<open>env n\<close>: the clock at the top of the loop,
  the instant before the submission, the chain's answers, the instant they were seen, and
  the clock \<open>add_message\<close> reads. The result \<open>None\<close> is a panic.
\<close>

record 'rep round =
  now_ms :: u64
  sent_at :: duration
  answer :: 'rep
  seen_at :: duration
  requeue_ms :: u64

fun outcome_id :: "'id send_outcome \<Rightarrow> 'id" where
  "outcome_id (Confirmed tx_id) = tx_id"
| "outcome_id (Dropped tx_id) = tx_id"
| "outcome_id (Reverted tx_id) = tx_id"

function (sequential) send_and_watch ::
  "('r, 'f, 'fee, 'tok, 'id, 'rep, 'sync) chain_adapter \<Rightarrow> bool \<Rightarrow> (nat \<Rightarrow> 'rep round) \<Rightarrow> nat \<Rightarrow>
   message \<Rightarrow> 'fee \<Rightarrow> 'tok \<Rightarrow> u32 \<Rightarrow> ('r, 'f, 'fee, 'tok) sender \<Rightarrow>
   unit result option \<times> ('r, 'f, 'fee, 'tok) sender" where
  "send_and_watch A oc env n msg fee tok cnt s =
     (case is_expired oc msg (now_ms (env n)) of
        None \<Rightarrow> (None, s)
      | Some True \<Rightarrow> (Some (Inl MessageExpired), release_token A tok s)
      | Some False \<Rightarrow>
          (case client_send A oc msg fee tok (answer (env n)) of
             None \<Rightarrow> (None, s)
           | Some (Inl err) \<Rightarrow> (Some (Inl err), release_token A tok s)
           | Some (Inr out) \<Rightarrow>
               (let pending = \<lparr>pend_msg = msg, pend_tx_id = outcome_id out, pend_fee = fee,
                  pend_replay_token = tok, pend_created_at = sent_at (env n), pend_replacement_count = cnt\<rparr> in
                case out of
                  Confirmed _ \<Rightarrow>
                    (case handle_confirmed A oc pending (seen_at (env n) - sent_at (env n)) (fees s, replay s) of
                       None \<Rightarrow> (None, s)
                     | Some (f, r) \<Rightarrow> (Some (Inr ()), s\<lparr>fees := f, replay := r\<rparr>))
                | _ \<Rightarrow>
                    (let msg' = fst (increment_retry msg) in
                     if \<not> snd (increment_retry msg) then (Some (Inr ()), release_token A tok s)
                     else (case handle_dropped A oc pending (fees s, replay s) of
                             None \<Rightarrow> (None, s)
                           | Some (Resubmit new_fee new_replay, f, r) \<Rightarrow>
                               (case rust_add oc cnt 1 of
                                  None \<Rightarrow> (None, s\<lparr>fees := f, replay := r\<rparr>)
                                | Some cnt' \<Rightarrow>
                                    send_and_watch A oc env (Suc n) msg' new_fee new_replay cnt'
                                      (s\<lparr>fees := f, replay := r\<rparr>))
                           | Some (Requeue, f, r) \<Rightarrow>
                               (let s' = release_token A tok (s\<lparr>fees := f, replay := r\<rparr>) in
                                case add_message oc msg' (requeue_ms (env n)) s' of
                                  None \<Rightarrow> (None, s')
                                | Some s'' \<Rightarrow> (Some (Inr ()), s''))
                           | Some (Abandon, f, r) \<Rightarrow>
                               (Some (Inr ()), release_token A tok (s\<lparr>fees := f, replay := r\<rparr>)))))))"
  by pat_completeness auto

termination
proof (relation "measure (\<lambda>(A, oc, env, n, msg, fee, tok, cnt, s). 3 - unat (retry_count msg))", simp)
qed (auto simp: increment_retry_snd increment_retry_count)

declare send_and_watch.simps [simp del]

definition process_message ::
  "('r, 'f, 'fee, 'tok, 'id, 'rep, 'sync) chain_adapter \<Rightarrow> bool \<Rightarrow> u64 \<Rightarrow> (nat \<Rightarrow> 'rep round) \<Rightarrow>
   message \<Rightarrow> ('r, 'f, 'fee, 'tok) sender \<Rightarrow> unit result option \<times> ('r, 'f, 'fee, 'tok) sender" where
  "process_message A oc now env msg s =
     (case is_expired oc msg now of
        None \<Rightarrow> (None, s)
      | Some True \<Rightarrow> (Some (Inl MessageExpired), s)
      | Some False \<Rightarrow>
          (case replay_next A oc (replay s) of
             None \<Rightarrow> (None, s)
           | Some (tok, r) \<Rightarrow>
               (let s = s\<lparr>replay := r\<rparr> in
                case effective_priority oc msg now of
                  None \<Rightarrow> (None, s)
                | Some p \<Rightarrow>
                    (case fee_params A oc p (fees s) of
                       None \<Rightarrow> (None, s)
                     | Some (Inl err) \<Rightarrow> (Some (Inl err), release_token A tok s)
                     | Some (Inr fee) \<Rightarrow> send_and_watch A oc env 0 msg fee tok 0 s))))"

end
