(* ===== verification/Solana.thy ===== *)
theory Solana
  imports Sender
begin

text \<open>
  The Solana adapter of crates/bulkmail/src/adapter/solana.rs, which is unfinished: the
  blockhash cache, the status mapping and the fee bump exist, and the operations marked
  \<open>todo!()\<close> panic, which is \<open>None\<close> here. An RPC error is its text.
\<close>

record sol_fee_params =
  compute_unit_price :: u64
  compute_unit_limit :: u32

record blockhash_state =
  blockhash :: b256
  last_valid_block_height :: u64

definition BLOCKHASH_REFRESH_MARGIN :: u64 where "BLOCKHASH_REFRESH_MARGIN = 30"

type_synonym signature = "512 word"

datatype confirmation_status = Processed | ConfirmedStatus | FinalizedStatus

record signature_status =
  status_slot :: u64
  status_err :: "string option"
  status_confirmation :: confirmation_status

text \<open>An RPC reply with its error wrapped by \<open>map_err\<close>.\<close>

definition sol_reply :: "string \<Rightarrow> string + 'a \<Rightarrow> 'a result" where
  "sol_reply what reply = map_sum (\<lambda>err. SolanaError (what @ '' failed: '' @ err)) id reply"

definition sol_get_block_number :: "string + u64 \<Rightarrow> u64 result" where
  "sol_get_block_number reply = sol_reply ''get_slot'' reply"

definition sol_send_transaction :: "bool \<Rightarrow> message \<Rightarrow> sol_fee_params \<Rightarrow> b256 \<Rightarrow> unit \<Rightarrow> signature send_outcome result option" where
  "sol_send_transaction oc msg fee tok rep =
     Some (Inl (SolanaError ''send_transaction not implemented for Solana yet''))"

definition sol_get_transaction_status :: "string + signature_status option list \<Rightarrow> transaction_status result" where
  "sol_get_transaction_status reply =
     (case sol_reply ''get_signature_statuses'' reply of
        Inl e \<Rightarrow> Inl e
      | Inr [] \<Rightarrow> Inr StatusPending
      | Inr (None # rest) \<Rightarrow> Inr StatusPending
      | Inr (Some status # rest) \<Rightarrow>
          (case status_err status of
             Some err \<Rightarrow> Inr (StatusFailed err)
           | None \<Rightarrow>
               (case status_confirmation status of
                  FinalizedStatus \<Rightarrow> Inr (StatusFinalized (status_slot status))
                | ConfirmedStatus \<Rightarrow> Inr (StatusConfirmed (status_slot status))
                | Processed \<Rightarrow> Inr (StatusConfirmed (status_slot status)))))"

definition sol_get_fee_params :: "bool \<Rightarrow> u32 \<Rightarrow> unit \<Rightarrow> sol_fee_params result option" where
  "sol_get_fee_params oc prio f = None"

definition sol_bump_fee :: "sol_fee_params \<Rightarrow> sol_fee_params" where
  "sol_bump_fee cur = \<lparr>compute_unit_price = saturating_add (compute_unit_price cur) 1,
     compute_unit_limit = compute_unit_limit cur\<rparr>"

definition sol_get_base_fee :: "unit \<Rightarrow> sol_fee_params option" where
  "sol_get_base_fee f = None"

definition sol_update_on_confirmation :: "duration \<Rightarrow> sol_fee_params \<Rightarrow> unit \<Rightarrow> unit option" where
  "sol_update_on_confirmation d fee f = None"

definition sol_build_transaction :: "'instruction list \<Rightarrow> b256 \<Rightarrow> 'transaction option" where
  "sol_build_transaction instructions hash = None"

definition sol_replay_new :: "string + (b256 \<times> u64) \<Rightarrow> blockhash_state result" where
  "sol_replay_new reply =
     map_sum id (\<lambda>(h, height). \<lparr>blockhash = h, last_valid_block_height = height\<rparr>) (sol_reply ''get_latest_blockhash'' reply)"

definition sol_next :: "bool \<Rightarrow> blockhash_state \<Rightarrow> (b256 \<times> blockhash_state) option" where
  "sol_next oc st = Some (blockhash st, st)"

text \<open>\<open>sync\<close>: the replies are the block height, and the latest blockhash if one is asked for.\<close>

definition sol_sync :: "bool \<Rightarrow> (string + u64) \<times> (string + (b256 \<times> u64)) \<Rightarrow> blockhash_state \<Rightarrow>
  (unit result \<times> blockhash_state) option" where
  "sol_sync oc = (\<lambda>(height_reply, hash_reply) st.
     (case sol_reply ''get_block_height'' height_reply of
        Inl e \<Rightarrow> Some (Inl e, st)
      | Inr current_height \<Rightarrow> do {
          horizon \<leftarrow> rust_add oc current_height BLOCKHASH_REFRESH_MARGIN;
          if last_valid_block_height st \<le> horizon
          then (case sol_reply ''get_latest_blockhash'' hash_reply of
                  Inl e \<Rightarrow> Some (Inl e, st)
                | Inr (h, height) \<Rightarrow> Some (Inr (), \<lparr>blockhash = h, last_valid_block_height = height\<rparr>))
          else Some (Inr (), st)
        }))"

definition sol_handle_dropped :: "bool \<Rightarrow> (sol_fee_params, b256, signature) pending_transaction \<Rightarrow> unit \<times> blockhash_state \<Rightarrow>
  ((sol_fee_params, b256) retry_decision \<times> unit \<times> blockhash_state) option" where
  "sol_handle_dropped oc pending = (\<lambda>s. None)"

definition sol_handle_confirmed :: "bool \<Rightarrow> (sol_fee_params, b256, signature) pending_transaction \<Rightarrow> duration \<Rightarrow>
  unit \<times> blockhash_state \<Rightarrow> (unit \<times> blockhash_state) option" where
  "sol_handle_confirmed oc pending d = (\<lambda>s. None)"

text \<open>\<open>release\<close> keeps the trait's default, which does nothing.\<close>

definition sol_adapter :: "(blockhash_state, unit, sol_fee_params, b256, signature, unit,
  (string + u64) \<times> (string + (b256 \<times> u64))) chain_adapter" where
  "sol_adapter =
     \<lparr>client_send = sol_send_transaction,
      replay_next = sol_next,
      replay_release = (\<lambda>tok st. st),
      replay_sync = sol_sync,
      fee_params = sol_get_fee_params,
      handle_confirmed = sol_handle_confirmed,
      handle_dropped = sol_handle_dropped\<rparr>"

lemma sol_reply_simps [simp]:
  "sol_reply what (Inl err) = Inl (SolanaError (what @ '' failed: '' @ err))" "sol_reply what (Inr x) = Inr x"
  by (simp_all add: sol_reply_def)

subsection \<open>Properties\<close>

text \<open>
  After a successful synchronisation the cached blockhash is either the one just fetched
  or valid for more than thirty further blocks; a failed request leaves the cache as it was.
\<close>
lemma sol_sync_keeps_fresh:
  assumes "sol_sync oc (Inr height, hash_reply) st = Some (res, st')" and "unat height < 2 ^ 64 - 30"
  shows "(case res of
      Inl e \<Rightarrow> st' = st \<and> (\<exists>err. hash_reply = Inl err)
    | Inr _ \<Rightarrow> hash_reply = Inr (blockhash st', last_valid_block_height st') \<or>
        (st' = st \<and> unat height + 30 < unat (last_valid_block_height st')))"
proof -
  have "rust_add oc height 30 = Some (height + 30)" "unat (height + 30) = unat height + 30"
    using assms(2) by (simp_all add: rust_ok)
  then show ?thesis
    using assms(1)
    by (cases hash_reply)
      (auto simp: sol_sync_def BLOCKHASH_REFRESH_MARGIN_def word_le_nat_alt split: if_splits)
qed

text \<open>
  The Solana sender cannot send yet: a task that is not expired panics when it asks for
  its fee, in every build, before anything is submitted, and no shared state changes.
\<close>
lemma sol_process_message_panics:
  assumes "is_expired oc msg now = Some False" and "effective_priority oc msg now = Some p"
  shows "process_message sol_adapter oc now env msg s = (None, s)"
  using assms by (simp add: process_message_def sol_adapter_def sol_next_def sol_get_fee_params_def)

end
