(* ===== verification/Sender_Steps.thy ===== *)
theory Sender_Steps
  imports Sender
begin

text \<open>
  Facts about the sender that hold for every adapter: a task alone computes what
  \<open>process_message\<close> says, every task ends after a bounded number of its steps and makes at
  most three submissions, permits and running tasks always add up to sixteen, and the loop
  never sleeps while a message waits.
\<close>

subsection \<open>A task alone refines the sequential code\<close>

fun drive ::
  "('r, 'f, 'fee, 'tok, 'id, 'rep, 'sync) chain_adapter \<Rightarrow> bool \<Rightarrow> 'rep task_input list \<Rightarrow> ('fee, 'tok) task \<Rightarrow>
   ('r, 'f, 'fee, 'tok) sender \<Rightarrow> (('fee, 'tok) task \<times> ('r, 'f, 'fee, 'tok) sender) option" where
  "drive A oc [] t s = Some (t, s)"
| "drive A oc (inp # inps) t s = task_step A oc inp t s \<bind> (\<lambda>(t', s'). drive A oc inps t' s')"

fun ended_as :: "unit result option \<times> 's \<Rightarrow> ('fee, 'tok) task \<times> 's" where
  "ended_as (None, s) = (Panicked, s)"
| "ended_as (Some res, s) = (Finished res, s)"

abbreviation round_inputs :: "'rep round \<Rightarrow> 'rep task_input list" where
  "round_inputs e \<equiv> [Clock (now_ms e) (sent_at e), Reply (answer e) (seen_at e)]"

definition rounds_left :: "message \<Rightarrow> nat" where
  "rounds_left m = 3 - unat (retry_count m)"

lemma rounds_left_increment:
  "snd (increment_retry m) \<Longrightarrow> Suc (rounds_left (fst (increment_retry m))) \<le> rounds_left m"
  by (simp add: rounds_left_def increment_retry_snd increment_retry_count)

lemma drive_round:
  assumes "is_expired oc msg (now_ms e) = Some False"
  shows "drive A oc (round_inputs e @ rest) (Looping msg fee tok cnt) s =
    (case task_reply A oc msg fee tok cnt (sent_at e) (answer e) (seen_at e) s of (t, s') \<Rightarrow> drive A oc rest t s')"
  using assms by (simp add: task_attempt_def split: prod.splits)

text \<open>The inputs that finish a task after the strategy did not resubmit.\<close>

definition settle_inputs :: "u64 \<Rightarrow> ('fee, 'tok) task \<Rightarrow> 'rep task_input list" where
  "settle_inputs now t =
     (case t of Requeueing m tok \<Rightarrow> [Go, Clock now 0] | Abandoning tok \<Rightarrow> [Go] | _ \<Rightarrow> [])"

lemma send_and_watch_resubmits:
  assumes "is_expired oc msg (now_ms (env n)) = Some False"
    and "task_reply A oc msg fee tok cnt (sent_at (env n)) (answer (env n)) (seen_at (env n)) s
      = (Looping msg' fee' tok' cnt', s')"
  shows "send_and_watch A oc env n msg fee tok cnt s = send_and_watch A oc env (Suc n) msg' fee' tok' cnt' s'
    \<and> rounds_left msg' < rounds_left msg"
  using assms rounds_left_increment [of msg]
  by (subst send_and_watch.simps)
    (auto simp: task_reply_def task_outcome_def task_dropped_def Let_def
      split: option.splits sum.splits send_outcome.splits if_splits prod.splits retry_decision.splits)

lemma send_and_watch_settles:
  assumes "is_expired oc msg (now_ms (env n)) = Some False"
    and "task_reply A oc msg fee tok cnt (sent_at (env n)) (answer (env n)) (seen_at (env n)) s = (t, s')"
    and "\<nexists>msg' fee' tok' cnt'. t = Looping msg' fee' tok' cnt'"
  shows "drive A oc (settle_inputs (requeue_ms (env n)) t) t s'
    = Some (ended_as (send_and_watch A oc env n msg fee tok cnt s))"
  using assms
  by (subst send_and_watch.simps)
    (auto simp: task_reply_def task_outcome_def task_dropped_def Let_def settle_inputs_def
      split: option.splits sum.splits send_outcome.splits if_splits prod.splits retry_decision.splits)

lemma send_and_watch_drives:
  "\<exists>inps. drive A oc inps (Looping msg fee tok cnt) s = Some (ended_as (send_and_watch A oc env n msg fee tok cnt s))"
proof (induction "rounds_left msg" arbitrary: n msg fee tok cnt s rule: less_induct)
  case less
  let ?e = "env n"
  show ?case
  proof (cases "is_expired oc msg (now_ms ?e) = Some False")
    case False
    then show ?thesis
      by (intro exI [of _ "[Clock (now_ms ?e) (sent_at ?e)]"])
        (auto simp: task_attempt_def send_and_watch.simps [of A oc env n] split: option.splits bool.splits)
  next
    case True
    obtain t s' where r: "task_reply A oc msg fee tok cnt (sent_at ?e) (answer ?e) (seen_at ?e) s = (t, s')"
      by fastforce
    show ?thesis
    proof (cases "\<exists>msg' fee' tok' cnt'. t = Looping msg' fee' tok' cnt'")
      case True
      then obtain msg' fee' tok' cnt' where t: "t = Looping msg' fee' tok' cnt'" by blast
      note next_round = send_and_watch_resubmits [where env = env and n = n, OF \<open>is_expired oc msg (now_ms ?e) = Some False\<close> r [unfolded t]]
      then obtain inps where "drive A oc inps t s' = Some (ended_as (send_and_watch A oc env n msg fee tok cnt s))"
        using less [of msg' fee' tok' cnt' s' "Suc n"] t by auto
      then have "drive A oc (round_inputs ?e @ inps) (Looping msg fee tok cnt) s
          = Some (ended_as (send_and_watch A oc env n msg fee tok cnt s))"
        unfolding drive_round [OF \<open>is_expired oc msg (now_ms ?e) = Some False\<close>] r prod.case .
      then show ?thesis by blast
    next
      case no_loop: False
      have "drive A oc (round_inputs ?e @ settle_inputs (requeue_ms ?e) t) (Looping msg fee tok cnt) s
          = Some (ended_as (send_and_watch A oc env n msg fee tok cnt s))"
        unfolding drive_round [OF True] r prod.case
        by (rule send_and_watch_settles [where env = env and n = n, OF True r no_loop])
      then show ?thesis by blast
    qed
  qed
qed

subsection \<open>Every task ends\<close>

fun task_measure :: "('fee, 'tok) task \<Rightarrow> nat" where
  "task_measure (Spawned m) = 3 * rounds_left m + 5"
| "task_measure (Bound m now tok) = 3 * rounds_left m + 4"
| "task_measure (Looping m fee tok cnt) = 3 * rounds_left m + 3"
| "task_measure (Awaiting m fee tok cnt i) = 3 * rounds_left m + 2"
| "task_measure (Abandoning tok) = 2"
| "task_measure (Requeueing m tok) = 2"
| "task_measure (Readding m) = 1"
| "task_measure (Finished res) = 0"
| "task_measure Panicked = 0"

lemmas task_defs = task_start_def task_bind_fee_def task_attempt_def task_reply_def task_outcome_def
  task_dropped_def

lemma task_dropped_decreases:
  "task_measure (fst (task_dropped A oc p s)) < 3 * rounds_left (pend_msg p) + 2"
  using rounds_left_increment [of "pend_msg p"]
  by (auto simp: task_dropped_def split: prod.splits option.splits retry_decision.splits)

lemma task_reply_decreases:
  "task_measure (fst (task_reply A oc msg fee tok cnt created_at rep i s)) < 3 * rounds_left msg + 2"
  using task_dropped_decreases [of A oc _ s]
  by (auto simp: task_reply_def task_outcome_def Let_def split: option.splits sum.splits send_outcome.splits)
    (metis pending_transaction.select_convs(1))+

lemma task_step_decreases:
  "task_step A oc inp t s = Some (t', s') \<Longrightarrow> task_measure t' < task_measure t"
proof (cases rule: task_step.cases [of "(A, oc, inp, t, s)"])
  case (4 A' oc' rep i msg fee tok cnt created_at s0)
  moreover assume "task_step A oc inp t s = Some (t', s')"
  ultimately show ?thesis
    using task_reply_decreases [of A oc msg fee tok cnt created_at rep i s] by simp
qed (auto simp: task_defs split: option.splits bool.splits sum.splits prod.splits)

subsection \<open>The sequential code looks at three rounds at most\<close>

lemma send_and_watch_env:
  assumes "\<forall>i. n \<le> i \<and> i < n + max 1 (rounds_left msg) \<longrightarrow> env i = env' i"
  shows "send_and_watch A oc env n msg fee tok cnt s = send_and_watch A oc env' n msg fee tok cnt s"
  using assms
proof (induction "rounds_left msg" arbitrary: n msg fee tok cnt s rule: less_induct)
  case less
  have e: "env n = env' n" using less.prems by simp
  have rec: "send_and_watch A oc env (Suc n) (fst (increment_retry msg)) fee' tok' cnt' s'
      = send_and_watch A oc env' (Suc n) (fst (increment_retry msg)) fee' tok' cnt' s'"
    if "snd (increment_retry msg)" for fee' tok' cnt' s'
    using rounds_left_increment [OF that] less.prems that
    by (intro less.hyps) (auto simp: rounds_left_def increment_retry_snd increment_retry_count)
  show ?case
    by (subst (1 2) send_and_watch.simps)
      (auto simp: e rec Let_def split: option.splits bool.splits sum.splits send_outcome.splits retry_decision.splits)
qed

subsection \<open>Frames of a task's step\<close>

lemma release_token_frame [simp]:
  "queue (release_token A tok s) = queue s" "permits (release_token A tok s) = permits s"
  "message_ready (release_token A tok s) = message_ready s" "fees (release_token A tok s) = fees s"
  "tasks (release_token A tok s) = tasks s" "main (release_token A tok s) = main s"
  "replay (release_token A tok s) = replay_release A tok (replay s)"
  by (simp_all add: release_token_def)

lemma task_dropped_frame:
  "task_dropped A oc p s = (t, s') \<Longrightarrow> queue s' = queue s \<and> permits s' = permits s \<and>
   message_ready s' = message_ready s \<and> tasks s' = tasks s \<and> main s' = main s"
  by (auto simp: task_dropped_def split: prod.splits option.splits if_splits)

lemma task_step_frame:
  "task_step A oc inp t s = Some (t', s') \<Longrightarrow>
   permits s' = permits s \<and> tasks s' = tasks s \<and> main s' = main s"
  by (cases rule: task_step.cases [of "(A, oc, inp, t, s)"])
    (auto simp: task_start_def task_bind_fee_def task_attempt_def task_reply_def task_outcome_def
      add_message_def Let_def dest: task_dropped_frame
      split: option.splits bool.splits sum.splits prod.splits send_outcome.splits)

lemma task_step_queue:
  "task_step A oc inp t s = Some (t', s') \<Longrightarrow>
   (queue s' = queue s \<and> message_ready s' = message_ready s) \<or>
   (\<exists>m now. t = Readding m \<and> queue_push oc (queue s) m now = Some (queue s') \<and> message_ready s')"
  by (cases rule: task_step.cases [of "(A, oc, inp, t, s)"])
    (auto simp: task_start_def task_bind_fee_def task_attempt_def task_reply_def task_outcome_def
      add_message_def Let_def dest: task_dropped_frame
      split: option.splits bool.splits sum.splits prod.splits send_outcome.splits)

lemma task_step_live: "task_step A oc inp t s = Some r \<Longrightarrow> \<not> ended t"
  by (cases t) auto

lemma run_taskE:
  assumes "run_task A oc i inp s = Some s'"
  obtains t u where "i < length (tasks s)" and "task_step A oc inp (tasks s ! i) s = Some (t, u)"
    and "s' = u\<lparr>tasks := (tasks s)[i := t], permits := permits s + (if ended t then 1 else 0)\<rparr>"
proof -
  obtain t u where r: "i < length (tasks s)" "task_step A oc inp (tasks s ! i) s = Some (t, u)"
    "s' = u\<lparr>tasks := (tasks u)[i := t], permits := permits u + (if ended t then 1 else 0)\<rparr>"
    using assms by (auto simp: run_task_def not_le split: if_split_asm)
  then show ?thesis using that task_step_frame [OF r(2)] by simp
qed

subsection \<open>Permits\<close>

definition live_tasks :: "('r, 'f, 'fee, 'tok) sender \<Rightarrow> nat" where
  "live_tasks s = length (filter (\<lambda>t. \<not> ended t) (tasks s))"

definition permit_sum :: "('r, 'f, 'fee, 'tok) sender \<Rightarrow> nat" where
  "permit_sum s = permits s + live_tasks s + (if main s = HoldsPermit then 1 else 0)"

lemma length_filter_update:
  assumes "i < length xs" and "P (xs ! i)"
  shows "length (filter P (xs[i := x])) + (if P x then 0 else 1) = length (filter P xs)"
  using assms
proof (induction xs arbitrary: i)
  case (Cons y ys)
  then show ?case by (cases i) auto
qed simp

lemma exec_permit_sum:
  assumes "exec A oc ev s = Some s'"
  shows "permit_sum s' = permit_sum s"
proof (cases ev)
  case (TaskStep i inp)
  then obtain t u where r: "i < length (tasks s)" "task_step A oc inp (tasks s ! i) s = Some (t, u)"
    "s' = u\<lparr>tasks := (tasks s)[i := t], permits := permits s + (if ended t then 1 else 0)\<rparr>"
    using assms by (auto elim: run_taskE)
  have "\<not> ended (tasks s ! i)" using task_step_live [OF r(2)] .
  then show ?thesis
    using length_filter_update [OF r(1), of "\<lambda>t. \<not> ended t" t] task_step_frame [OF r(2)]
    by (auto simp: permit_sum_def live_tasks_def r(3))
qed (use assms in \<open>auto simp: permit_sum_def live_tasks_def add_message_def acquire_permit_def pop_or_park_def
    wake_up_def select_block_def cancel_process_next_def sync_done_def
    split: if_splits option.splits sum.splits\<close>)

lemma history_permit_sum: "history A oc s0 evs s \<Longrightarrow> permit_sum s = permit_sum s0"
  by (induction rule: history.induct) (auto dest: exec_permit_sum)

subsection \<open>No lost wake-up\<close>

definition wakeful :: "('r, 'f, 'fee, 'tok) sender \<Rightarrow> bool" where
  "wakeful s \<longleftrightarrow> queue_invar (queue s) \<and>
     (main s = Parked \<longrightarrow> queue_is_empty (queue s) \<or> message_ready s)"

lemma queue_push_invar: "queue_invar q \<Longrightarrow> queue_push oc q m now = Some q' \<Longrightarrow> queue_invar q'"
  using queue_push_messages by blast

lemma queue_pop_invar: "queue_invar q \<Longrightarrow> queue_pop q = Some (m, q') \<Longrightarrow> queue_invar q'"
  using queue_pop_messages by blast

lemma queue_pop_None_empty: "queue_invar q \<Longrightarrow> queue_pop q = None \<Longrightarrow> queue_is_empty q"
  by (simp add: queue_pop_None queue_messages_def queue_items_def queue_is_empty_def)

lemma exec_wakeful:
  assumes "exec A oc ev s = Some s'" and "wakeful s"
  shows "wakeful s'"
proof (cases ev)
  case (TaskStep i inp)
  then obtain t u where r: "task_step A oc inp (tasks s ! i) s = Some (t, u)"
    "s' = u\<lparr>tasks := (tasks s)[i := t], permits := permits s + (if ended t then 1 else 0)\<rparr>"
    using assms by (auto elim: run_taskE)
  then show ?thesis
    using task_step_frame [OF r(1)] task_step_queue [OF r(1)] assms(2)
    by (auto simp: wakeful_def intro: queue_push_invar)
qed (use assms in \<open>auto simp: wakeful_def add_message_def acquire_permit_def pop_or_park_def
    wake_up_def select_block_def cancel_process_next_def sync_done_def
    intro: queue_push_invar queue_pop_invar queue_pop_None_empty
    split: if_splits option.splits sum.splits\<close>)

lemma history_wakeful: "history A oc s0 evs s \<Longrightarrow> wakeful s0 \<Longrightarrow> wakeful s"
  by (induction rule: history.induct) (auto dest: exec_wakeful)

lemma wakeful_new: "wakeful (sender_new f r)"
  using pq.invar_empty by (simp add: wakeful_def sender_new_def)

subsection \<open>Histories as runs\<close>

lemma history_iff_run: "history A oc s0 evs s \<longleftrightarrow> fold_opt (exec A oc) evs s0 = Some s"
proof
  show "history A oc s0 evs s \<Longrightarrow> fold_opt (exec A oc) evs s0 = Some s"
    by (induction rule: history.induct) (simp_all add: fold_opt_append)
  show "fold_opt (exec A oc) evs s0 = Some s \<Longrightarrow> history A oc s0 evs s"
    by (induction evs arbitrary: s rule: rev_induct)
      (auto simp: fold_opt_append bind_eq_Some_conv intro: history.intros)
qed

text \<open>A short history: the loop finds the queue empty and sleeps, then a message arrives.\<close>

definition sleepy_events :: "(eth_reply, chain_error + u64) event list" where
  "sleepy_events = [Subscribe (Inr ()), Acquire, TryPop, AddMessage (message_default 0) 0]"

definition sleepy_state :: "(nonce_state, gas_price_manager, eth_fee_params, u64) sender" where
  "sleepy_state = \<lparr>queue = \<lparr>heap = [\<lparr>pm_message = message_default 0, pm_priority = 0\<rparr>]\<rparr>, permits = 16,
     message_ready = True, replay = \<lparr>current = 0, in_flight = {}\<rparr>, fees = gas_price_new, tasks = [], main = Parked\<rparr>"

lemma push_default: "queue_push oc queue_new (message_default 0) 0
    = Some \<lparr>heap = [\<lparr>pm_message = message_default 0, pm_priority = 0\<rparr>]\<rparr>"
  by (simp add: queue_push_def effective_priority_def deadline_factor_def message_default_def
      message_consts rust_ok saturating_sub_def queue_insert_def queue_new_def heap_push_def sift_up.simps)

lemma sleepy_history:
  "history (eth_adapter 1) True (sender_new gas_price_new \<lparr>current = 0, in_flight = {}\<rparr>) sleepy_events sleepy_state"
  by (simp add: history_iff_run sleepy_events_def sleepy_state_def sender_new_def acquire_permit_def pop_or_park_def
      add_message_def MAX_IN_FLIGHT_TRANSACTIONS_def push_default queue_pop_def queue_take_def heap_pop_def)
    (simp add: queue_new_def)

text \<open>The history goes on: the loop wakes up, spawns a task, and the task takes a nonce.\<close>

definition busy_events :: "(eth_reply, chain_error + u64) event list" where
  "busy_events = sleepy_events @ [Wake, Acquire, TryPop, TaskStep 0 (Clock 0 0)]"

definition busy_state :: "(nonce_state, gas_price_manager, eth_fee_params, u64) sender" where
  "busy_state = \<lparr>queue = queue_new, permits = 15, message_ready = False,
     replay = \<lparr>current = 0, in_flight = {0}\<rparr>, fees = gas_price_new,
     tasks = [Bound (message_default 0) 0 0], main = AcquirePermit\<rparr>"

lemma busy_history:
  "history (eth_adapter 1) True (sender_new gas_price_new \<lparr>current = 0, in_flight = {}\<rparr>) busy_events busy_state"
proof -
  have pop: "queue_pop \<lparr>heap = [\<lparr>pm_message = message_default 0, pm_priority = 0\<rparr>]\<rparr> = Some (message_default 0, queue_new)"
    by (simp add: queue_pop_def queue_take_def heap_pop_def queue_new_def)
  have take: "get_next_available_nonce True \<lparr>current = 0, in_flight = {}\<rparr> = Some (0, \<lparr>current = 0, in_flight = {0}\<rparr>)"
    by (simp add: get_next_available_nonce_def next_nonce_from.simps)
  have live: "is_expired True (message_default 0) 0 = Some False"
    by (simp add: is_expired_def message_default_def)
  have "fold_opt (exec (eth_adapter 1) True) [Wake, Acquire, TryPop, TaskStep 0 (Clock 0 0)] sleepy_state = Some busy_state"
    by (simp add: sleepy_state_def busy_state_def acquire_permit_def pop_or_park_def wake_up_def pop run_task_def
        task_start_def live take)
  then show ?thesis using sleepy_history by (simp only: history_iff_run busy_events_def fold_opt_append) simp
qed

subsection \<open>A bound on the steps of a task\<close>

definition steps_of :: "nat \<Rightarrow> ('rep, 'sync) event list \<Rightarrow> nat" where
  "steps_of i evs = length (filter (\<lambda>ev. \<exists>inp. ev = TaskStep i inp) evs)"

lemma exec_other_tasks:
  assumes "exec A oc ev s = Some s'" and "\<nexists>inp. ev = TaskStep i inp"
  shows "(i < length (tasks s) \<longrightarrow> i < length (tasks s') \<and> tasks s' ! i = tasks s ! i) \<and>
    (\<not> i < length (tasks s) \<and> i < length (tasks s') \<longrightarrow> (\<exists>m. tasks s' ! i = Spawned m))"
proof (cases ev)
  case (TaskStep j inp)
  then show ?thesis using assms by (auto elim!: run_taskE)
qed (use assms in \<open>auto simp: add_message_def acquire_permit_def pop_or_park_def wake_up_def select_block_def
    cancel_process_next_def sync_done_def nth_append less_Suc_eq split: if_splits option.splits sum.splits\<close>)

lemma history_steps_bound:
  "history A oc (sender_new f r) evs s \<Longrightarrow>
   (i < length (tasks s) \<longrightarrow> steps_of i evs + task_measure (tasks s ! i) \<le> 14) \<and>
   (\<not> i < length (tasks s) \<longrightarrow> steps_of i evs = 0)"
proof (induction rule: history.induct)
  case start
  then show ?case by (simp add: sender_new_def steps_of_def)
next
  case (step evs s ev s')
  show ?case
  proof (cases "\<exists>inp. ev = TaskStep i inp")
    case True
    then obtain inp where ev: "ev = TaskStep i inp" by blast
    then obtain t u where r: "i < length (tasks s)" "task_step A oc inp (tasks s ! i) s = Some (t, u)"
      "s' = u\<lparr>tasks := (tasks s)[i := t], permits := permits s + (if ended t then 1 else 0)\<rparr>"
      using step.hyps by (auto elim: run_taskE)
    then show ?thesis using step.IH task_step_decreases [OF r(2)] ev by (simp add: steps_of_def)
  next
    case False
    then have "steps_of i (evs @ [ev]) = steps_of i evs" by (simp add: steps_of_def)
    moreover have "task_measure (Spawned m) \<le> 14" for m by (simp add: rounds_left_def)
    ultimately show ?thesis
      using step.IH exec_other_tasks [OF step.hyps(2) False] by (cases "i < length (tasks s)") force+
  qed
qed

subsection \<open>Properties\<close>


text \<open>
  C32: A message is submitted three times at most: \<open>process_message\<close> of a new message looks
  at the first three rounds of the outside world only, and it always returns.
\<close>
theorem at_most_three_submissions:
  assumes "\<forall>i < 3. env i = env' i"
  shows "process_message A oc now env msg s = process_message A oc now env' msg s"
proof -
  have "send_and_watch A oc env 0 msg fee tok cnt s' = send_and_watch A oc env' 0 msg fee tok cnt s'"
    for fee tok cnt s'
    using assms by (intro send_and_watch_env) (auto simp: rounds_left_def)
  then show ?thesis
    by (auto simp: process_message_def Let_def split: option.splits bool.splits sum.splits)
qed

theorem at_most_three_submissions_witness:
  "let e = \<lambda>n. \<lparr>now_ms = n, sent_at = 0,
         answer = \<lparr>reply_submit = (\<lambda>_. Inr 9), reply_register = Inr (), reply_watch = Inl ''timeout'', reply_receipt = (\<lambda>_. Inr None)\<rparr>,
         seen_at = 3, requeue_ms = 0\<rparr>
   in process_message (eth_adapter 1) True 0 (\<lambda>i. if i < 3 then e 0 else e 1) (message_default 0)
        (sender_new gas_price_new \<lparr>current = 0, in_flight = {}\<rparr>)
      = process_message (eth_adapter 1) True 0 (\<lambda>i. e 0) (message_default 0)
        (sender_new gas_price_new \<lparr>current = 0, in_flight = {}\<rparr>)"
  unfolding Let_def by (rule at_most_three_submissions) simp

text \<open>
  C7: Concurrency is bounded: in every history of a new sender the free permits, the running
  tasks and the permit the loop may hold add up to sixteen. No permit leaks or is returned
  twice, whether tasks succeed, fail, panic or the loop is cancelled by a block.
\<close>
theorem permits_conserved:
  assumes "history A oc (sender_new f r) evs s"
  shows "permits s + live_tasks s + (if main s = HoldsPermit then 1 else 0) = 16 \<and> live_tasks s \<le> 16"
  using history_permit_sum [OF assms]
  by (auto simp: permit_sum_def live_tasks_def sender_new_def MAX_IN_FLIGHT_TRANSACTIONS_def split: if_splits)

theorem permits_conserved_witness:
  "permits sleepy_state + live_tasks sleepy_state = 16"
  using permits_conserved [OF sleepy_history] by (simp add: sleepy_state_def)

text \<open>
  C17: Every task ends: in no history does a task take more than fourteen steps, whatever the
  adapter answers, and a task that has not ended has fewer left by each step.
\<close>
theorem tasks_end:
  assumes "history A oc (sender_new f r) evs s" and "i < length (tasks s)"
  shows "steps_of i evs + task_measure (tasks s ! i) \<le> 14 \<and> (task_measure (tasks s ! i) = 0 \<longleftrightarrow> ended (tasks s ! i))"
  using history_steps_bound [OF assms(1), of i] assms(2) by (cases "tasks s ! i") auto

theorem tasks_end_witness:
  "steps_of 0 busy_events + task_measure (tasks busy_state ! 0) \<le> 14 \<and> \<not> ended (tasks busy_state ! 0)"
  using tasks_end [OF busy_history, of 0] by (simp add: busy_state_def)



end
