(* ===== verification/Sender_Safety.thy ===== *)
theory Sender_Safety
  imports Sender_Steps
begin

text \<open>
  The sender over an adapter that keeps the contract \<open>retry_adapter\<close>: no task panics, no two
  running tasks ever hold the same token, tokens in use are never free in the replay
  protection, and no message is lost or duplicated. The proofs are in the locale; the
  properties at the end are its facts for the Ethereum adapter.
\<close>

text \<open>
  The outside world in range: clocks before the year 2100 (\<open>2^42\<close> milliseconds), latencies
  the fee manager accepts, messages in the range of the library.
\<close>

definition clock_ok :: "u64 \<Rightarrow> bool" where
  "clock_ok now \<longleftrightarrow> unat now < 2 ^ 42"

lemma clock_ok_age: "clock_ok now \<Longrightarrow> age_in_range m now"
  by (simp add: clock_ok_def age_in_range_def)

lemma clock_ok_priority:
  assumes "wf_message m" and "clock_ok now"
  shows "\<exists>p. effective_priority oc m now = Some p"
  using effective_priority_value [OF assms(1) clock_ok_age [OF assms(2)], of oc] by blast

lemma wf_increment_retry:
  assumes "wf_message m" and "snd (increment_retry m)"
  shows "wf_message (fst (increment_retry m))"
  using assms increment_retry_count [of m]
  by (simp add: wf_message_def increment_retry_snd word_le_nat_alt)

fun task_token :: "('fee, 'tok) task \<Rightarrow> 'tok option" where
  "task_token (Bound m now tok) = Some tok"
| "task_token (Looping m fee tok cnt) = Some tok"
| "task_token (Awaiting m fee tok cnt i) = Some tok"
| "task_token (Abandoning tok) = Some tok"
| "task_token (Requeueing m tok) = Some tok"
| "task_token _ = None"

definition tokens_exclusive :: "'tok set \<Rightarrow> ('fee, 'tok) task list \<Rightarrow> bool" where
  "tokens_exclusive B ts \<longleftrightarrow>
     (\<forall>i < length ts. \<forall>tok. task_token (ts ! i) = Some tok \<longrightarrow> tok \<in> B \<and>
        (\<forall>j < length ts. j \<noteq> i \<longrightarrow> task_token (ts ! j) \<noteq> Some tok))"

text \<open>How a task's step may change the tokens: take a fresh one, keep, or give up its own.\<close>

definition token_change :: "'tok set \<Rightarrow> 'tok option \<Rightarrow> 'tok set \<Rightarrow> 'tok option \<Rightarrow> bool" where
  "token_change B t B' t' \<longleftrightarrow>
     (t = None \<and> (\<exists>tok. t' = Some tok \<and> tok \<notin> B \<and> B' = insert tok B)) \<or>
     (t' = t \<and> B \<subseteq> B') \<or> (\<exists>tok. t = Some tok \<and> t' = None \<and> B - {tok} \<subseteq> B')"

lemma tokens_exclusive_step:
  assumes "tokens_exclusive B ts" and "i < length ts" and "token_change B (task_token (ts ! i)) B' (task_token t)"
  shows "tokens_exclusive B' (ts[i := t])"
  unfolding tokens_exclusive_def length_list_update
proof (intro allI impI)
  fix x tok assume x: "x < length ts" and tok: "task_token (ts[i := t] ! x) = Some tok"
  have old: "tok \<in> B \<and> (\<forall>j < length ts. j \<noteq> y \<longrightarrow> task_token (ts ! j) \<noteq> Some tok)"
    if "y < length ts" "task_token (ts ! y) = Some tok" for y tok
    using assms(1) that unfolding tokens_exclusive_def by blast
  show "tok \<in> B' \<and> (\<forall>j < length ts. j \<noteq> x \<longrightarrow> task_token (ts[i := t] ! j) \<noteq> Some tok)"
  proof (cases "x = i")
    case True
    then have t: "task_token t = Some tok" using tok assms(2) by simp
    then consider "tok \<notin> B" "B' = insert tok B" | "task_token (ts ! i) = Some tok" "B \<subseteq> B'"
      using assms(3) unfolding token_change_def by auto
    then show ?thesis
    proof cases
      case 1
      then show ?thesis using old True by (metis insertI1 nth_list_update_neq)
    next
      case 2
      then show ?thesis using old [OF assms(2)] True by (metis nth_list_update_neq subsetD)
    qed
  next
    case False
    then have o: "task_token (ts ! x) = Some tok" using tok by simp
    have i: "task_token (ts ! i) \<noteq> Some tok" using old [OF x o] assms(2) False by auto
    have "task_token t \<noteq> Some tok" using assms(3) i old [OF x o] unfolding token_change_def by auto
    moreover have "tok \<in> B'" using assms(3) i old [OF x o] unfolding token_change_def by auto
    ultimately show ?thesis using old [OF x o] assms(2) by (auto simp: nth_list_update)
  qed
qed

lemma tokens_exclusive_mono: "tokens_exclusive B ts \<Longrightarrow> B \<subseteq> B' \<Longrightarrow> tokens_exclusive B' ts"
  by (auto simp: tokens_exclusive_def)

lemma tokens_exclusive_spawn: "tokens_exclusive B ts \<Longrightarrow> tokens_exclusive B (ts @ [Spawned m])"
  by (auto simp: tokens_exclusive_def nth_append)

subsection \<open>Which message a task carries\<close>

definition same_intent :: "message \<Rightarrow> message \<Rightarrow> bool" where
  "same_intent m m' \<longleftrightarrow> m'\<lparr>retry_count := 0\<rparr> = m\<lparr>retry_count := 0\<rparr>"

fun carries :: "message \<Rightarrow> ('fee, 'tok) task \<Rightarrow> bool" where
  "carries m (Spawned m') = same_intent m m'"
| "carries m (Bound m' now tok) = same_intent m m'"
| "carries m (Looping m' fee tok cnt) = same_intent m m'"
| "carries m (Awaiting m' fee tok cnt i) = same_intent m m'"
| "carries m (Requeueing m' tok) = same_intent m m'"
| "carries m (Readding m') = same_intent m m'"
| "carries m _ = True"

lemma same_intent_increment: "same_intent m m' \<Longrightarrow> same_intent m (fst (increment_retry m'))"
  by (simp add: same_intent_def increment_retry_def Let_def)

lemma task_dropped_carries:
  "same_intent m (pend_msg p) \<Longrightarrow> carries m (fst (task_dropped A oc p s))"
  using same_intent_increment [of m "pend_msg p"]
  by (auto simp: task_dropped_def Let_def case_prod_beta split: option.splits retry_decision.splits)

lemma task_step_carries:
  "task_step A oc inp t s = Some (t', s') \<Longrightarrow> carries m t \<Longrightarrow> carries m t'"
  using task_dropped_carries [of m _ A oc s]
  by (cases rule: task_step.cases [of "(A, oc, inp, t, s)"])
    (auto simp: task_start_def task_bind_fee_def task_attempt_def task_reply_def task_outcome_def Let_def
      split: option.splits bool.splits sum.splits prod.splits send_outcome.splits,
      (metis fst_conv pending_transaction.select_convs(1))+)

fun added :: "('rep, 'sync) event list \<Rightarrow> message list" where
  "added [] = []"
| "added (AddMessage m now # evs) = m # added evs"
| "added (_ # evs) = added evs"

lemma added_snoc: "added (evs @ [ev]) = added evs @ (case ev of AddMessage m now \<Rightarrow> [m] | _ \<Rightarrow> [])"
  by (induction evs rule: added.induct) (auto split: event.splits)

definition accounted_by :: "message list \<Rightarrow> message list \<Rightarrow> ('r, 'f, 'fee, 'tok) sender \<Rightarrow> bool" where
  "accounted_by popped ms s \<longleftrightarrow> length popped = length (tasks s) \<and>
     mset ms = queue_messages (queue s) + mset popped \<and> (\<forall>i < length popped. carries (popped ! i) (tasks s ! i))"

definition accounted :: "message list \<Rightarrow> ('r, 'f, 'fee, 'tok) sender \<Rightarrow> bool" where
  "accounted ms s \<longleftrightarrow> (\<exists>popped. accounted_by popped ms s)"

text \<open>The messages popped so far, one for each task, only grow.\<close>

lemma exec_accounted:
  assumes "exec A oc ev s = Some s'" and p: "accounted_by popped (added evs) s" and "queue_invar (queue s)"
    and "\<forall>m. Readding m \<notin> set (tasks s)"
  shows "\<exists>ms. accounted_by (popped @ ms) (added (evs @ [ev])) s'"
proof -
  have unchanged: ?thesis if "queue s' = queue s" "tasks s' = tasks s" "added (evs @ [ev]) = added evs"
    using that p by (intro exI [of _ "[]"]) (simp add: accounted_by_def)
  show ?thesis
  proof (cases ev)
    case (AddMessage m now)
    then have "queue_messages (queue s') = add_mset m (queue_messages (queue s))" "tasks s' = tasks s"
      using assms(1) queue_push_messages [OF assms(3)] by (auto simp: add_message_def)
    then show ?thesis using p AddMessage by (intro exI [of _ "[]"]) (auto simp: accounted_by_def added_snoc)
  next
    case (TaskStep i inp)
    then obtain t u where r: "i < length (tasks s)" "task_step A oc inp (tasks s ! i) s = Some (t, u)"
      "s' = u\<lparr>tasks := (tasks s)[i := t], permits := permits s + (if ended t then 1 else 0)\<rparr>"
      using assms by (auto elim: run_taskE)
    have "tasks s ! i \<noteq> Readding m" for m using assms(4) nth_mem [OF r(1)] by metis
    then have q: "queue s' = queue s" using task_step_queue [OF r(2)] r(3) by auto
    have "\<forall>j < length popped. carries (popped ! j) (tasks s' ! j)"
      using p r task_step_carries [OF r(2)] by (auto simp: accounted_by_def nth_list_update)
    then show ?thesis
      using p q r(3) TaskStep by (intro exI [of _ "[]"]) (auto simp: accounted_by_def added_snoc)
  next
    case TryPop
    then consider "queue s' = queue s" "tasks s' = tasks s"
      | m where "queue_pop (queue s) = Some (m, queue s')" "tasks s' = tasks s @ [Spawned m]"
      using assms(1) by (auto simp: pop_or_park_def split: if_splits option.splits)
    then show ?thesis
    proof cases
      case 1
      then show ?thesis using unchanged TryPop by (simp add: added_snoc)
    next
      case 2
      then have "queue_messages (queue s) = add_mset m (queue_messages (queue s'))"
        using queue_pop_messages [OF assms(3)] by blast
      then show ?thesis
        using p 2 TryPop
        by (intro exI [of _ "[m]"]) (auto simp: accounted_by_def added_snoc nth_append same_intent_def)
    qed
  qed (use assms(1) unchanged in \<open>auto simp: added_snoc acquire_permit_def wake_up_def select_block_def
      cancel_process_next_def sync_done_def split: if_splits option.splits sum.splits\<close>)
qed

context retry_adapter
begin

fun task_ok :: "('fee, 'tok) task \<Rightarrow> bool" where
  "task_ok (Spawned m) = wf_message m"
| "task_ok (Bound m now tok) = (wf_message m \<and> clock_ok now)"
| "task_ok (Looping m fee tok cnt) =
     (wf_message m \<and> unat cnt \<le> unat (retry_count m) \<and> unat cnt \<le> 2 \<and> fee_ok (unat cnt) fee)"
| "task_ok (Awaiting m fee tok cnt i) =
     (wf_message m \<and> unat cnt \<le> unat (retry_count m) \<and> unat cnt \<le> 2 \<and> fee_ok (unat cnt) fee)"
| "task_ok (Finished res) = True"
| "task_ok _ = False"

fun input_ok :: "'rep task_input \<Rightarrow> bool" where
  "input_ok (Clock now i) = clock_ok now"
| "input_ok (Reply rep i) = (i \<le> latest)"
| "input_ok Go = True"

fun event_ok :: "nat \<Rightarrow> ('rep, 'sync) event \<Rightarrow> bool" where
  "event_ok b (AddMessage m now) = (wf_message m \<and> clock_ok now)"
| "event_ok b (TaskStep i inp) = input_ok inp"
| "event_ok b (SyncReply reply) = (\<forall>t \<in> targets reply. bounded b t)"
| "event_ok b _ = True"

definition step_ok :: "nat \<Rightarrow> ('r, 'f, 'fee, 'tok) sender \<Rightarrow> ('fee, 'tok) task \<Rightarrow> ('fee, 'tok) task \<times> ('r, 'f, 'fee, 'tok) sender \<Rightarrow> bool" where
  "step_ok k s t = (\<lambda>(t', s'). task_ok t' \<and> fees_ok (fees s') \<and> fits (Suc k) (replay s') \<and> queue s' = queue s \<and>
     token_change (busy (replay s)) (task_token t) (busy (replay s')) (task_token t'))"

lemma release_step_ok:
  assumes "fits k (replay s)" and "fees_ok (fees s)" and "task_token t = Some tok"
  shows "step_ok k s t (Finished res, release_token A tok s)"
  using assms release_busy [of "replay s" tok] release_fits [of k "replay s" tok]
  by (auto simp: step_ok_def token_change_def intro: fits_mono)

lemma start_ok:
  assumes "task_ok (Spawned m)" and "clock_ok now" and "fits k (replay s)" and "fees_ok (fees s)" and "k < limit"
  shows "step_ok k s (Spawned m) (task_start A oc m now s)"
proof -
  obtain t r' where n: "replay_next A oc (replay s) = Some (t, r')" using next_total [OF assms(3,5)] by blast
  have "is_expired oc m now = Some (expired_at m (unat now))" using assms(1) by (simp add: is_expired_eq)
  then show ?thesis
    using next_fresh [OF assms(3,5) n] n assms fits_mono [OF assms(3), of "Suc k"]
    by (cases "expired_at m (unat now)") (simp_all add: task_start_def step_ok_def token_change_def)
qed

lemma bind_fee_ok:
  assumes "task_ok (Bound m now tok)" and "fits k (replay s)" and "fees_ok (fees s)"
  shows "step_ok k s (Bound m now tok) (task_bind_fee A oc m now tok s)"
proof -
  obtain p where p: "effective_priority oc m now = Some p"
    using assms(1) clock_ok_priority [of m now oc] by auto
  obtain res where res: "fee_params A oc p (fees s) = Some res" "\<forall>fee. res = Inr fee \<longrightarrow> fee_ok 0 fee"
    using fee_params_ok [OF assms(3)] by blast
  show ?thesis
  proof (cases res)
    case (Inl e)
    then show ?thesis using p res assms(2,3) by (simp add: task_bind_fee_def release_step_ok)
  next
    case (Inr fee)
    then show ?thesis
      using p res assms fits_mono [OF assms(2), of "Suc k"]
      by (simp add: task_bind_fee_def step_ok_def token_change_def)
  qed
qed

lemma attempt_ok:
  assumes "task_ok (Looping m fee tok cnt)" and "fits k (replay s)" and "fees_ok (fees s)"
  shows "step_ok k s (Looping m fee tok cnt) (task_attempt A oc m fee tok cnt now i s)"
proof -
  have e: "is_expired oc m now = Some (expired_at m (unat now))" using assms(1) by (simp add: is_expired_eq)
  show ?thesis
  proof (cases "expired_at m (unat now)")
    case True
    then show ?thesis using e assms(2,3) by (simp add: task_attempt_def release_step_ok)
  next
    case False
    then show ?thesis
      using e assms fits_mono [OF assms(2), of "Suc k"]
      by (simp add: task_attempt_def step_ok_def token_change_def)
  qed
qed

lemma dropped_step_ok:
  assumes "task_ok (Awaiting m fee tok cnt i)" and "fits k (replay s)" and "fees_ok (fees s)"
    and "pend_msg p = m" and "pend_fee p = fee" and "pend_replay_token p = tok" and "pend_replacement_count p = cnt"
  shows "step_ok k s (Awaiting m fee tok cnt i) (task_dropped A oc p s)"
proof (cases "snd (increment_retry m)")
  case False
  then show ?thesis
    using assms by (simp add: task_dropped_def Let_def release_step_ok case_prod_beta)
next
  case True
  then have r: "unat (retry_count m) < 2" by (simp add: increment_retry_snd)
  then have "can_retry (pend_msg p)" using assms(4) by (simp add: can_retry_iff)
  moreover have c: "unat (pend_replacement_count p) = unat cnt" "unat cnt < 2" using assms(1,7) r by auto
  ultimately obtain fee' where h: "handle_dropped A oc p (fees s, replay s) = Some (Resubmit fee' tok, fees s, replay s)"
    and f: "fee_ok (Suc (unat cnt)) fee'"
    using dropped_ok [of p "unat cnt" "fees s" "replay s"] assms(1,5,6) by auto
  have add: "rust_add oc cnt 1 = Some (cnt + 1)" "unat (cnt + 1) = Suc (unat cnt)"
    using c(2) by (simp_all add: rust_ok)
  have "unat (retry_count (fst (increment_retry m))) = Suc (unat (retry_count m))"
    using r by (simp add: increment_retry_count)
  then show ?thesis
    using assms True h f add c fits_mono [OF assms(2), of "Suc k"] wf_increment_retry [of m]
    by (simp add: task_dropped_def Let_def step_ok_def token_change_def case_prod_beta)
qed

lemma reply_ok:
  assumes "task_ok (Awaiting m fee tok cnt i)" and "fits k (replay s)" and "fees_ok (fees s)"
    and "j \<le> latest" and "tok \<in> busy (replay s)"
  shows "step_ok k s (Awaiting m fee tok cnt i) (task_reply A oc m fee tok cnt i rep j s)"
proof -
  have f: "fee_ok (unat cnt) fee" "unat cnt \<le> 3" using assms(1) by auto
  obtain res where res: "client_send A oc m fee tok rep = Some res" using send_returns [OF f] by blast
  show ?thesis
  proof (cases res)
    case (Inl e)
    then show ?thesis using res assms(2,3) by (simp add: task_reply_def release_step_ok)
  next
    case (Inr out)
    show ?thesis
    proof (cases out)
      case (Confirmed h)
      let ?p = "\<lparr>pend_msg = m, pend_tx_id = h, pend_fee = fee, pend_replay_token = tok,
        pend_created_at = i, pend_replacement_count = cnt\<rparr>"
      obtain f' where "handle_confirmed A oc ?p (j - i) (fees s, replay s) = Some (f', advance tok (replay s))" "fees_ok f'"
        using confirmed_ok [OF assms(3), of "unat cnt" ?p "j - i" "replay s"] f
          le_trans [OF diff_le_self assms(4), of i] by auto
      moreover have "fits (Suc k) (advance tok (replay s))"
        using advance_fits [OF assms(2) busy_within [OF assms(2,5)]] fits_mono [of k _ "Suc k"] by simp
      ultimately show ?thesis
        using res Inr Confirmed advance_busy [of "replay s" tok]
        by (auto simp: task_reply_def task_outcome_def step_ok_def token_change_def)
    next
      case (Dropped h)
      then show ?thesis
        using res Inr assms(1-3) by (simp add: task_reply_def task_outcome_def dropped_step_ok)
    next
      case (Reverted h)
      then show ?thesis
        using res Inr assms(1-3) by (simp add: task_reply_def task_outcome_def dropped_step_ok)
    qed
  qed
qed

lemma task_step_ok:
  assumes "task_ok t" and "input_ok inp" and "fits k (replay s)" and "fees_ok (fees s)" and "k < limit"
    and "\<forall>tok. task_token t = Some tok \<longrightarrow> tok \<in> busy (replay s)" and "task_step A oc inp t s = Some r"
  shows "step_ok k s t r"
  using assms
  by (cases rule: task_step.cases [of "(A, oc, inp, t, s)"])
    (auto simp: start_ok bind_fee_ok attempt_ok reply_ok simp del: task_ok.simps(1-4))

text \<open>The invariant of all histories; \<open>k\<close> bounds the tokens seen so far.\<close>

definition safe :: "nat \<Rightarrow> ('r, 'f, 'fee, 'tok) sender \<Rightarrow> bool" where
  "safe k s \<longleftrightarrow> fits k (replay s) \<and> fees_ok (fees s) \<and> queue_invar (queue s) \<and>
     (\<forall>m \<in># queue_messages (queue s). wf_message m) \<and> (\<forall>t \<in> set (tasks s). task_ok t) \<and>
     tokens_exclusive (busy (replay s)) (tasks s) \<and> main s \<noteq> MainPanicked"

lemma safeI_step:
  assumes "safe k s" and "replay s' = replay s" and "fees s' = fees s" and "queue s' = queue s"
    and "tasks s' = tasks s" and "main s' \<noteq> MainPanicked"
  shows "safe (Suc k) s'"
  using assms fits_mono [of k "replay s" "Suc k"] by (simp add: safe_def)

lemma task_event_ok:
  assumes "safe k s" and "input_ok inp" and "k < limit" and "exec A oc (TaskStep i inp) s = Some s'"
  obtains t u where "i < length (tasks s)" and "task_step A oc inp (tasks s ! i) s = Some (t, u)"
    and "s' = u\<lparr>tasks := (tasks s)[i := t], permits := permits s + (if ended t then 1 else 0)\<rparr>"
    and "task_ok t" and "fees_ok (fees u)" and "fits (Suc k) (replay u)" and "queue u = queue s"
    and "token_change (busy (replay s)) (task_token (tasks s ! i)) (busy (replay u)) (task_token t)"
proof -
  obtain t u where r: "i < length (tasks s)" "task_step A oc inp (tasks s ! i) s = Some (t, u)"
    "s' = u\<lparr>tasks := (tasks s)[i := t], permits := permits s + (if ended t then 1 else 0)\<rparr>"
    using assms(4) by (auto elim: run_taskE)
  have "task_ok (tasks s ! i)" "fits k (replay s)" "fees_ok (fees s)"
    using assms(1) r(1) by (simp_all add: safe_def)
  moreover have "\<forall>tok. task_token (tasks s ! i) = Some tok \<longrightarrow> tok \<in> busy (replay s)"
    using assms(1) r(1) unfolding safe_def tokens_exclusive_def by blast
  ultimately have "step_ok k s (tasks s ! i) (t, u)" using assms(2,3) r(2) by (intro task_step_ok [of _ inp])
  then show ?thesis using that [OF r] by (simp add: step_ok_def)
qed

lemma exec_safe:
  assumes "safe k s" and "event_ok b ev" and "b \<le> k" and "k < limit" and "exec A oc ev s = Some s'"
  shows "safe (Suc k) s'"
proof (cases ev)
  case (AddMessage m now)
  then obtain q where "queue_push oc (queue s) m now = Some q" "s' = s\<lparr>queue := q, message_ready := True\<rparr>"
    using assms(5) by (auto simp: add_message_def)
  then show ?thesis
    using assms AddMessage queue_push_messages [of "queue s" oc m now q] fits_mono [of k "replay s" "Suc k"]
    by (auto simp: safe_def)
next
  case TryPop
  show ?thesis
  proof (cases "queue_pop (queue s)")
    case None
    then show ?thesis using TryPop assms by (intro safeI_step [of k s]) (auto simp: pop_or_park_def split: if_splits)
  next
    case (Some x)
    then obtain m q where "queue_pop (queue s) = Some (m, q)"
      "s' = s\<lparr>queue := q, tasks := tasks s @ [Spawned m], main := AcquirePermit\<rparr>"
      using TryPop assms(5) by (cases x) (auto simp: pop_or_park_def split: if_splits)
    then show ?thesis
      using assms queue_pop_messages [of "queue s" m q] fits_mono [of k "replay s" "Suc k"]
      by (auto simp: safe_def tokens_exclusive_spawn)
  qed
next
  case (SyncReply reply)
  obtain res r where r: "replay_sync A oc reply (replay s) = Some (res, r)"
    "r = replay s \<or> (\<exists>t \<in> targets reply. r = advance t (replay s))"
    using sync_advances by blast
  have "busy (replay s) \<subseteq> busy r" using r(2) advance_busy [of "replay s"] by (elim disjE bexE) simp_all
  moreover have "fits (Suc k) r"
    using r(2) assms SyncReply bounded_mono [of b _ k] advance_fits [of k "replay s"]
      fits_mono [of k _ "Suc k"] by (auto simp: safe_def)
  ultimately show ?thesis
    using r(1) assms SyncReply tokens_exclusive_mono [of "busy (replay s)" "tasks s" "busy r"]
    by (auto simp: safe_def sync_done_def split: if_splits sum.splits)
next
  case (TaskStep i inp)
  obtain t u where r: "i < length (tasks s)" "task_step A oc inp (tasks s ! i) s = Some (t, u)"
    "s' = u\<lparr>tasks := (tasks s)[i := t], permits := permits s + (if ended t then 1 else 0)\<rparr>"
    and ok: "task_ok t" "fees_ok (fees u)" "fits (Suc k) (replay u)" "queue u = queue s"
      "token_change (busy (replay s)) (task_token (tasks s ! i)) (busy (replay u)) (task_token t)"
    by (rule task_event_ok [OF assms(1) _ assms(4) assms(5) [unfolded TaskStep]]) (use assms(2) TaskStep in simp)
  have "tokens_exclusive (busy (replay s)) (tasks s)" using assms(1) by (simp add: safe_def)
  from tokens_exclusive_step [OF this r(1) ok(5)] show ?thesis
    using assms(1) ok(1-4) task_step_frame [OF r(2)] set_update_subset_insert [of "tasks s" i t]
    by (auto simp: safe_def r(3))
qed (use assms in \<open>auto simp: acquire_permit_def wake_up_def select_block_def cancel_process_next_def
    intro!: safeI_step [of k s] split: if_splits option.splits sum.splits\<close>)

lemma history_safe:
  assumes "history A oc (sender_new f r) evs s" and "fits b r" and "fees_ok f"
    and "\<forall>ev \<in> set evs. event_ok b ev" and "b + length evs \<le> limit"
  shows "safe (b + length evs) s \<and> accounted (added evs) s"
  using assms
proof (induction rule: history.induct)
  case start
  then show ?case
    using pq.invar_empty
    by (simp add: safe_def sender_new_def tokens_exclusive_def accounted_def accounted_by_def queue_messages_def
        pq.items_empty)
next
  case (step evs s ev s')
  then have IH: "safe (b + length evs) s" "accounted (added evs) s" by auto
  then have inv: "\<forall>m. Readding m \<notin> set (tasks s)" "queue_invar (queue s)" by (auto simp: safe_def)
  have "accounted (added (evs @ [ev])) s'"
    using exec_accounted [OF step.hyps(2) _ inv(2,1), of _ evs] IH(2) unfolding accounted_def by blast
  then show ?case using exec_safe [OF IH(1) _ _ _ step.hyps(2), of b] step.prems by auto
qed

end

subsection \<open>The Ethereum sender\<close>

text \<open>
  The same for the Ethereum adapter, with the range of the outside world written out: the
  node's account nonces stay below \<open>b\<close>.
\<close>

fun eth_event_ok :: "nat \<Rightarrow> (eth_reply, chain_error + u64) event \<Rightarrow> bool" where
  "eth_event_ok b (AddMessage m now) = (wf_message m \<and> clock_ok now)"
| "eth_event_ok b (TaskStep i (Clock now j)) = clock_ok now"
| "eth_event_ok b (TaskStep i (Reply rep j)) = (j \<le> max_latency)"
| "eth_event_ok b (SyncReply (Inr n)) = (unat n \<le> b)"
| "eth_event_ok b _ = True"

definition eth_history_ok where
  "eth_history_ok b f r evs \<longleftrightarrow> eth_fees_ok f \<and> nonce_fits b r \<and>
     (\<forall>ev \<in> set evs. eth_event_ok b ev) \<and> b + length evs \<le> 2 ^ 64"

lemma eth_event_ok_iff: "eth.event_ok b ev \<longleftrightarrow> eth_event_ok b ev"
  by (cases "(b, ev)" rule: eth_event_ok.cases) auto

lemma eth_history_safe:
  assumes "history (eth_adapter cid) oc (sender_new f r) evs s" and "eth_history_ok b f r evs"
  shows "eth.safe (b + length evs) s" and "accounted (added evs) s"
  using eth.history_safe [OF assms(1), of b] assms(2)
  by (simp_all add: eth_history_ok_def eth_event_ok_iff)

lemma busy_history_ok: "eth_history_ok 0 gas_price_new \<lparr>current = 0, in_flight = {}\<rparr> busy_events"
  by (simp add: eth_history_ok_def eth_fees_ok_new nonce_fits_def busy_events_def sleepy_events_def
      wf_message_def message_default_def message_consts clock_ok_def)

subsection \<open>Properties\<close>

text \<open>
  C1: No two transactions of the sender share a nonce: in every history in range, whatever
  the interleaving of tasks, blocks and messages, two running tasks hold different nonces,
  and a nonce held by a task is spent or in flight for the nonce manager, so that it is
  not handed out again.
\<close>
theorem sender_nonces_exclusive:
  assumes "history (eth_adapter cid) oc (sender_new f r) evs s" and "eth_history_ok b f r evs"
    and "i < length (tasks s)" and "task_token (tasks s ! i) = Some n"
  shows "n \<in> nonce_busy (replay s) \<and>
    (\<forall>j < length (tasks s). j \<noteq> i \<longrightarrow> task_token (tasks s ! j) \<noteq> Some n) \<and>
    (\<forall>n' r'. b + length evs < 2 ^ 64 \<longrightarrow> get_next_available_nonce oc (replay s) = Some (n', r') \<longrightarrow> n' \<noteq> n)"
proof -
  have safe: "tokens_exclusive (nonce_busy (replay s)) (tasks s)" "nonce_fits (b + length evs) (replay s)"
    using eth_history_safe(1) [OF assms(1,2)] unfolding eth.safe_def by blast+
  then have "n \<in> nonce_busy (replay s) \<and> (\<forall>j < length (tasks s). j \<noteq> i \<longrightarrow> task_token (tasks s ! j) \<noteq> Some n)"
    using assms(3,4) unfolding tokens_exclusive_def by blast
  then show ?thesis using nm.next_fresh [OF safe(2), of oc] by blast
qed

theorem sender_nonces_exclusive_witness:
  "task_token (tasks busy_state ! 0) = Some 0 \<and> 0 \<in> nonce_busy (replay busy_state)"
  using sender_nonces_exclusive [OF busy_history busy_history_ok, of 0 0] by (simp add: busy_state_def)

text \<open>
  C2: Nothing panics: in every history in range, in builds with and without overflow checks,
  no task and not the loop ends in a panic, and the branches that abandon or requeue a
  message after the strategy has already released its nonce are never taken.
\<close>
theorem sender_never_panics:
  assumes "history (eth_adapter cid) oc (sender_new f r) evs s" and "eth_history_ok b f r evs"
  shows "Panicked \<notin> set (tasks s) \<and> main s \<noteq> MainPanicked \<and>
    (\<forall>n m. Abandoning n \<notin> set (tasks s) \<and> Requeueing m n \<notin> set (tasks s) \<and> Readding m \<notin> set (tasks s))"
proof -
  have ok: "\<forall>t \<in> set (tasks s). eth.task_ok t" "main s \<noteq> MainPanicked"
    using eth_history_safe(1) [OF assms] unfolding eth.safe_def by blast+
  have "t \<notin> set (tasks s)" if "\<not> eth.task_ok t" for t using ok(1) that by blast
  then show ?thesis using ok(2) by simp
qed

theorem sender_never_panics_witness:
  "Panicked \<notin> set (tasks busy_state) \<and> main busy_state \<noteq> MainPanicked"
  using sender_never_panics [OF busy_history busy_history_ok] by blast

text \<open>
  C4: No message is lost or processed twice: at every moment the messages handed to the
  sender are exactly those in the queue and those given to a task, one task per message,
  and a running task works on its message with at most the retry counter changed.
\<close>
theorem messages_accounted:
  assumes "history (eth_adapter cid) oc (sender_new f r) evs s" and "eth_history_ok b f r evs"
  shows "\<exists>popped. length popped = length (tasks s) \<and>
    mset (added evs) = queue_messages (queue s) + mset popped \<and>
    (\<forall>i < length popped. carries (popped ! i) (tasks s ! i))"
  using eth_history_safe(2) [OF assms] by (simp add: accounted_def accounted_by_def)

theorem messages_accounted_witness:
  "\<exists>popped. length popped = 1 \<and> {#message_default 0#} = queue_messages (queue busy_state) + mset popped"
proof -
  from messages_accounted [OF busy_history busy_history_ok]
  obtain popped where "length popped = length (tasks busy_state)"
    "mset (added busy_events) = queue_messages (queue busy_state) + mset popped" by blast
  moreover have "added busy_events = [message_default 0]" by (simp add: busy_events_def sleepy_events_def)
  moreover have "length (tasks busy_state) = 1" by (simp add: busy_state_def)
  ultimately show ?thesis by (metis mset.simps(1,2))
qed



text \<open>
  C37: A reverted transaction is treated like a dropped one: while the message has retries
  left it is sent again under the same nonce, although a reverted transaction is mined and
  has used that nonce up.
\<close>
theorem reverted_is_resubmitted_at_same_nonce:
  assumes "eth_send_transaction cid oc msg fee n rep = Some (Inr (Reverted h))"
    and "unat (retry_count msg) < 2" and "unat cnt \<le> unat (retry_count msg)" and "eth_fee_ok (unat cnt) fee"
  shows "\<exists>fee'. task_reply (eth_adapter cid) oc msg fee n cnt i rep j s
    = (Looping (fst (increment_retry msg)) fee' n (cnt + 1), s)"
proof -
  let ?p = "\<lparr>pend_msg = msg, pend_tx_id = h, pend_fee = fee, pend_replay_token = n,
      pend_created_at = i, pend_replacement_count = cnt\<rparr>"
  obtain fee' where "eth_handle_dropped oc ?p (fees s, replay s) = Some (Resubmit fee' n, fees s, replay s)"
    using eth_dropped_in_budget [of ?p "unat cnt" oc "fees s" "replay s"] assms(2,3,4) by (auto simp: can_retry_iff)
  moreover have "rust_add oc cnt 1 = Some (cnt + 1)" using assms(2,3) by (simp add: rust_ok)
  ultimately show ?thesis
    using assms(1,2) by (simp add: task_reply_def task_outcome_def task_dropped_def Let_def case_prod_beta increment_retry_snd)
qed

theorem reverted_is_resubmitted_at_same_nonce_witness:
  "\<exists>fee'. task_reply (eth_adapter 1) True (message_default 0) \<lparr>eth_base_fee = 2000000000, eth_priority_fee = 3\<rparr> 7 0 0
      \<lparr>reply_submit = (\<lambda>_. Inr 9), reply_register = Inr (), reply_watch = Inr 9,
        reply_receipt = (\<lambda>_. Inr (Some \<lparr>receipt_status = False, receipt_block_number = None\<rparr>))\<rparr> 1 busy_state
    = (Looping (fst (increment_retry (message_default 0))) fee' 7 (0 + 1), busy_state)"
proof -
  let ?rep = "\<lparr>reply_submit = (\<lambda>_. Inr 9), reply_register = Inr (), reply_watch = Inr 9,
      reply_receipt = (\<lambda>_. Inr (Some \<lparr>receipt_status = False, receipt_block_number = None\<rparr>))\<rparr>"
  let ?fee = "\<lparr>eth_base_fee = 2000000000, eth_priority_fee = 3\<rparr>"
  have send: "eth_send_transaction 1 True (message_default 0) ?fee 7 ?rep = Some (Inr (Reverted 9))"
    by (simp add: eth_send_transaction_def build_tx_def receipt_outcome_def rust_ok)
  show ?thesis
    by (rule reverted_is_resubmitted_at_same_nonce [OF send])
      (simp_all add: message_default_def eth_fee_ok_def)
qed

end
