(* ===== verification/Block_Feed.thy ===== *)
theory Block_Feed
  imports Prelude "HOL-Library.Sublist"
begin

text \<open>
  How block numbers reach the sender: \<open>subscribe_new_blocks\<close> of crates/bulkmail/src/chain.rs
  forwards the headers of the node's subscription through a bounded channel, and the one of
  adapter/ethereum.rs forwards their numbers through a second one; adapter/solana.rs has one
  such stage, on slots. A stage is a spawned task with its channel. A send waits while the
  channel is full, which is that no step of it is possible.
\<close>

subsection \<open>A stage\<close>

datatype 'a forwarder = Waiting | Holding 'a | Stopped

record ('a, 'b) stage =
  forwarder :: "'a forwarder"
  buffer :: "'b list"
  rx_alive :: bool

definition CHANNEL_CAPACITY :: nat where "CHANNEL_CAPACITY = 32"

definition stage_new :: "('a, 'b) stage" where
  "stage_new = \<lparr>forwarder = Waiting, buffer = [], rx_alive = True\<rparr>"

text \<open>The task receives an item.\<close>

definition stage_take :: "'a \<Rightarrow> ('a, 'b) stage \<Rightarrow> ('a, 'b) stage option" where
  "stage_take x st = (case forwarder st of Waiting \<Rightarrow> Some (st\<lparr>forwarder := Holding x\<rparr>) | _ \<Rightarrow> None)"

text \<open>The task's source has ended: the loop and the task end, and the channel's sender is dropped.\<close>

definition stage_end :: "('a, 'b) stage \<Rightarrow> ('a, 'b) stage option" where
  "stage_end st = (case forwarder st of Waiting \<Rightarrow> Some (st\<lparr>forwarder := Stopped\<rparr>) | _ \<Rightarrow> None)"

text \<open>The task sends the item it holds; without a receiver the send fails and the loop breaks.\<close>

definition stage_send :: "('a \<Rightarrow> 'b) \<Rightarrow> ('a, 'b) stage \<Rightarrow> ('a, 'b) stage option" where
  "stage_send f st =
     (case forwarder st of
        Holding x \<Rightarrow>
          if \<not> rx_alive st then Some (st\<lparr>forwarder := Stopped\<rparr>)
          else if length (buffer st) < CHANNEL_CAPACITY then Some (st\<lparr>forwarder := Waiting, buffer := buffer st @ [f x]\<rparr>)
          else None
      | _ \<Rightarrow> None)"

text \<open>The receiver's \<open>recv\<close>: an item, or \<open>None\<close> once the channel is empty and its sender dropped.\<close>

definition stage_recv :: "('a, 'b) stage \<Rightarrow> ('b option \<times> ('a, 'b) stage) option" where
  "stage_recv st =
     (if \<not> rx_alive st then None
      else case buffer st of
        x # rest \<Rightarrow> Some (Some x, st\<lparr>buffer := rest\<rparr>)
      | [] \<Rightarrow> (case forwarder st of Stopped \<Rightarrow> Some (None, st) | _ \<Rightarrow> None))"

definition stage_drop_rx :: "('a, 'b) stage \<Rightarrow> ('a, 'b) stage" where
  "stage_drop_rx st = st\<lparr>buffer := [], rx_alive := False\<rparr>"

subsection \<open>The two stages of the Ethereum client\<close>

text \<open>
  The node's subscription is the list of results its \<open>recv\<close> still returns; the first error ends
  the first task. \<open>received\<close> is what the sender's loop has got so far.
\<close>

record ('e, 'h) feed =
  subscription :: "('e + 'h) list"
  chain_stage :: "('h, 'h) stage"
  client_stage :: "('h, u64) stage"
  received :: "u64 list"

definition feed_new :: "('e + 'h) list \<Rightarrow> ('e, 'h) feed" where
  "feed_new sub = \<lparr>subscription = sub, chain_stage = stage_new, client_stage = stage_new, received = []\<rparr>"

inductive feed_step :: "('h \<Rightarrow> u64) \<Rightarrow> ('e, 'h) feed \<Rightarrow> ('e, 'h) feed \<Rightarrow> bool" for number where
  header: "subscription s = Inr h # rest \<Longrightarrow> stage_take h (chain_stage s) = Some c \<Longrightarrow>
    feed_step number s (s\<lparr>subscription := rest, chain_stage := c\<rparr>)"
| lost: "subscription s = Inl e # rest \<Longrightarrow> stage_end (chain_stage s) = Some c \<Longrightarrow>
    feed_step number s (s\<lparr>subscription := rest, chain_stage := c\<rparr>)"
| chain_send: "stage_send id (chain_stage s) = Some c \<Longrightarrow> feed_step number s (s\<lparr>chain_stage := c\<rparr>)"
| client_recv: "stage_recv (chain_stage s) = Some (Some h, c) \<Longrightarrow> stage_take h (client_stage s) = Some d \<Longrightarrow>
    feed_step number s (s\<lparr>chain_stage := c, client_stage := d\<rparr>)"
| client_end: "stage_recv (chain_stage s) = Some (None, c) \<Longrightarrow> stage_end (client_stage s) = Some d \<Longrightarrow>
    feed_step number s (s\<lparr>chain_stage := stage_drop_rx c, client_stage := d\<rparr>)"
| client_send: "stage_send number (client_stage s) = Some d \<Longrightarrow>
    feed_step number s (s\<lparr>client_stage := d,
      chain_stage := (if forwarder d = Stopped then stage_drop_rx (chain_stage s) else chain_stage s)\<rparr>)"
| sender_recv: "stage_recv (client_stage s) = Some (Some n, d) \<Longrightarrow>
    feed_step number s (s\<lparr>client_stage := d, received := received s @ [n]\<rparr>)"
| sender_drop: "rx_alive (client_stage s) \<Longrightarrow>
    feed_step number s (s\<lparr>client_stage := stage_drop_rx (client_stage s)\<rparr>)"

inductive_cases feed_stepE: "feed_step number s s'"

abbreviation feed_reach :: "('h \<Rightarrow> u64) \<Rightarrow> ('e, 'h) feed \<Rightarrow> ('e, 'h) feed \<Rightarrow> bool" where
  "feed_reach number \<equiv> (feed_step number)\<^sup>*\<^sup>*"

subsection \<open>What is in flight\<close>

text \<open>The headers before the first error of the subscription.\<close>

fun good_headers :: "('e + 'h) list \<Rightarrow> 'h list" where
  "good_headers (Inr h # rest) = h # good_headers rest"
| "good_headers _ = []"

fun held :: "'a forwarder \<Rightarrow> 'a list" where
  "held (Holding x) = [x]"
| "held _ = []"

text \<open>
  Everything between the node and the sender, oldest first. A stopped first task takes no more
  of the subscription; a dead receiver passes nothing on.
\<close>

definition upstream :: "('e, 'h) feed \<Rightarrow> 'h list" where
  "upstream s = buffer (chain_stage s) @ held (forwarder (chain_stage s)) @
     (if forwarder (chain_stage s) = Stopped then [] else good_headers (subscription s))"

definition in_flight_numbers :: "('h \<Rightarrow> u64) \<Rightarrow> ('e, 'h) feed \<Rightarrow> u64 list" where
  "in_flight_numbers number s =
     buffer (client_stage s) @ map number (held (forwarder (client_stage s)) @ upstream s)"

definition stage_ok :: "('a, 'b) stage \<Rightarrow> bool" where
  "stage_ok st \<longleftrightarrow> length (buffer st) \<le> CHANNEL_CAPACITY \<and> (\<not> rx_alive st \<longrightarrow> buffer st = [])"

definition feed_inv :: "('h \<Rightarrow> u64) \<Rightarrow> u64 list \<Rightarrow> ('e, 'h) feed \<Rightarrow> bool" where
  "feed_inv number all s \<longleftrightarrow>
     prefix (received s) all \<and> stage_ok (chain_stage s) \<and> stage_ok (client_stage s) \<and>
     (rx_alive (client_stage s) \<longrightarrow> received s @ in_flight_numbers number s = all \<and>
        (forwarder (client_stage s) = Stopped \<longrightarrow> upstream s = []) \<and>
        (\<not> rx_alive (chain_stage s) \<longrightarrow> forwarder (client_stage s) = Stopped))"

named_theorems stage_defs \<open>the operations of a stage\<close>

lemmas stage_op_defs [stage_defs] = stage_take_def stage_end_def stage_send_def stage_recv_def stage_drop_rx_def

lemma feed_inv_new: "feed_inv number (map number (good_headers sub)) (feed_new sub)"
  by (simp add: feed_inv_def feed_new_def stage_ok_def stage_new_def in_flight_numbers_def upstream_def)

lemma prefix_received: "xs @ n # ys = all \<Longrightarrow> prefix (xs @ [n]) all"
  by (metis append.assoc append_Cons append_Nil prefixI)

lemma feed_inv_step:
  assumes inv: "feed_inv number all s" and "feed_step number s s'"
  shows "feed_inv number all s'"
  using assms(2)
proof cases
  case (header h rest c)
  then show ?thesis using inv
    by (auto simp: feed_inv_def in_flight_numbers_def upstream_def stage_ok_def stage_defs split: forwarder.splits)
next
  case (lost e rest c)
  then show ?thesis using inv
    by (auto simp: feed_inv_def in_flight_numbers_def upstream_def stage_ok_def stage_defs split: forwarder.splits)
next
  case (chain_send c)
  then show ?thesis using inv
    by (auto simp: feed_inv_def in_flight_numbers_def upstream_def stage_ok_def stage_defs split: forwarder.splits if_splits)
next
  case (client_recv h c d)
  then show ?thesis using inv
    by (auto simp: feed_inv_def in_flight_numbers_def upstream_def stage_ok_def stage_defs
        split: forwarder.splits if_splits list.splits)
next
  case (client_end c d)
  then show ?thesis using inv
    by (auto simp: feed_inv_def in_flight_numbers_def upstream_def stage_ok_def stage_defs
        split: forwarder.splits if_splits list.splits)
next
  case (client_send d)
  then show ?thesis using inv
    by (auto simp: feed_inv_def in_flight_numbers_def upstream_def stage_ok_def stage_defs split: forwarder.splits if_splits)
next
  case (sender_recv n d)
  then show ?thesis using inv
    by (auto simp: feed_inv_def in_flight_numbers_def upstream_def stage_ok_def stage_defs prefix_received
        split: forwarder.splits if_splits list.splits)
next
  case sender_drop
  then show ?thesis using inv by (simp add: feed_inv_def stage_ok_def stage_defs)
qed

lemma feed_inv_reach: "feed_reach number s s' \<Longrightarrow> feed_inv number all s \<Longrightarrow> feed_inv number all s'"
  by (induction rule: rtranclp_induct) (auto intro: feed_inv_step)

text \<open>While the sender listens and something is under way, a step that keeps it listening is possible.\<close>

lemma feed_progress:
  assumes inv: "feed_inv number all s" and alive: "rx_alive (client_stage s)" and more: "in_flight_numbers number s \<noteq> []"
  shows "\<exists>s'. feed_step number s s' \<and> rx_alive (client_stage s')"
proof -
  let ?c = "chain_stage s" and ?d = "client_stage s"
  have cap: "0 < CHANNEL_CAPACITY" by (simp add: CHANNEL_CAPACITY_def)
  consider (rec) n b where "buffer ?d = n # b"
    | (client) h where "buffer ?d = []" "forwarder ?d = Holding h"
    | (stopped) "buffer ?d = []" "forwarder ?d = Stopped"
    | (recv) h b where "forwarder ?d = Waiting" "buffer ?c = h # b"
    | (chain) h where "forwarder ?d = Waiting" "buffer ?c = []" "forwarder ?c = Holding h"
    | (rest) "buffer ?d = []" "forwarder ?d = Waiting" "buffer ?c = []" "held (forwarder ?c) = []"
    by (cases "buffer ?d"; cases "forwarder ?d"; cases "buffer ?c"; cases "forwarder ?c") auto
  then show ?thesis
  proof cases
    case rec
    then have "stage_recv ?d = Some (Some n, ?d\<lparr>buffer := b\<rparr>)" using alive by (simp add: stage_recv_def)
    from sender_recv [OF this] show ?thesis using alive by fastforce
  next
    case client
    then have "stage_send number ?d = Some (?d\<lparr>forwarder := Waiting, buffer := [number h]\<rparr>)" using alive cap by (simp add: stage_send_def)
    from client_send [OF this] show ?thesis using alive by fastforce
  next
    case stopped
    then have "in_flight_numbers number s = []" using inv alive by (simp add: feed_inv_def in_flight_numbers_def)
    then show ?thesis using more by simp
  next
    case recv
    then have "rx_alive ?c" using inv alive by (auto simp: feed_inv_def)
    then have "stage_recv ?c = Some (Some h, ?c\<lparr>buffer := b\<rparr>)" using recv by (simp add: stage_recv_def)
    moreover have "stage_take h ?d = Some (?d\<lparr>forwarder := Holding h\<rparr>)" using recv by (simp add: stage_take_def)
    ultimately show ?thesis using client_recv [of s h _ _ number] alive by fastforce
  next
    case chain
    then have "rx_alive ?c" using inv alive by (auto simp: feed_inv_def)
    then have "stage_send id ?c = Some (?c\<lparr>forwarder := Waiting, buffer := [h]\<rparr>)" using chain cap by (simp add: stage_send_def)
    from chain_send [OF this] show ?thesis using alive by fastforce
  next
    case rest
    then have "upstream s \<noteq> []" using more by (simp add: in_flight_numbers_def)
    then have w: "forwarder ?c = Waiting" "good_headers (subscription s) \<noteq> []"
      using rest by (auto simp: upstream_def split: if_splits) (cases "forwarder ?c"; simp)
    then obtain h sub where "subscription s = Inr h # sub" by (cases "subscription s" rule: good_headers.cases) auto
    moreover have "stage_take h ?c = Some (?c\<lparr>forwarder := Holding h\<rparr>)" using w by (simp add: stage_take_def)
    ultimately show ?thesis using header [of s h sub _ number] alive by fastforce
  qed
qed

definition running :: "('a, 'b) stage \<Rightarrow> nat" where
  "running st = (if forwarder st = Stopped then 0 else 1) + (if rx_alive st then 1 else 0)"

definition feed_measure :: "('e, 'h) feed \<Rightarrow> nat" where
  "feed_measure s = 5 * length (subscription s) + 4 * length (held (forwarder (chain_stage s))) +
     3 * length (buffer (chain_stage s)) + 2 * length (held (forwarder (client_stage s))) + length (buffer (client_stage s)) +
     running (chain_stage s) + running (client_stage s)"

lemma feed_measure_decreases: "feed_step number s s' \<Longrightarrow> feed_measure s' < feed_measure s"
  by (erule feed_stepE)
    (auto simp: feed_measure_def running_def stage_defs split: forwarder.splits if_splits list.splits)

subsection \<open>Solana\<close>

text \<open>The thread of the Solana client forwards the slots of its subscription in one stage.\<close>

record sol_feed =
  slots_left :: "u64 list"
  slot_stage :: "(u64, u64) stage"
  slots_received :: "u64 list"

definition sol_feed_new :: "u64 list \<Rightarrow> sol_feed" where
  "sol_feed_new slots = \<lparr>slots_left = slots, slot_stage = stage_new, slots_received = []\<rparr>"

inductive sol_feed_step :: "sol_feed \<Rightarrow> sol_feed \<Rightarrow> bool" where
  slot: "slots_left s = n # rest \<Longrightarrow> stage_take n (slot_stage s) = Some c \<Longrightarrow>
    sol_feed_step s (s\<lparr>slots_left := rest, slot_stage := c\<rparr>)"
| slots_end: "slots_left s = [] \<Longrightarrow> stage_end (slot_stage s) = Some c \<Longrightarrow> sol_feed_step s (s\<lparr>slot_stage := c\<rparr>)"
| slot_send: "stage_send id (slot_stage s) = Some c \<Longrightarrow> sol_feed_step s (s\<lparr>slot_stage := c\<rparr>)"
| slot_recv: "stage_recv (slot_stage s) = Some (Some n, c) \<Longrightarrow>
    sol_feed_step s (s\<lparr>slot_stage := c, slots_received := slots_received s @ [n]\<rparr>)"
| slot_drop: "rx_alive (slot_stage s) \<Longrightarrow> sol_feed_step s (s\<lparr>slot_stage := stage_drop_rx (slot_stage s)\<rparr>)"

inductive_cases sol_feed_stepE: "sol_feed_step s s'"

definition sol_feed_inv :: "u64 list \<Rightarrow> sol_feed \<Rightarrow> bool" where
  "sol_feed_inv all s \<longleftrightarrow> prefix (slots_received s) all \<and> stage_ok (slot_stage s) \<and>
     (rx_alive (slot_stage s) \<longrightarrow>
        slots_received s @ buffer (slot_stage s) @ held (forwarder (slot_stage s)) @ slots_left s = all)"

lemma sol_feed_inv_step: "sol_feed_step s s' \<Longrightarrow> sol_feed_inv all s \<Longrightarrow> sol_feed_inv all s'"
  by (erule sol_feed_stepE)
    (auto simp: sol_feed_inv_def stage_ok_def stage_defs prefix_received split: forwarder.splits if_splits list.splits)

lemma sol_feed_inv_new: "sol_feed_inv slots (sol_feed_new slots)"
  by (simp add: sol_feed_inv_def sol_feed_new_def stage_ok_def stage_new_def)

lemma sol_slots_in_order: "sol_feed_step\<^sup>*\<^sup>* (sol_feed_new slots) s \<Longrightarrow> sol_feed_inv slots s"
  by (induction rule: rtranclp_induct) (auto intro: sol_feed_inv_new sol_feed_inv_step)

subsection \<open>Properties\<close>

text \<open>
  C22: Block numbers reach the sender in order, without loss or repetition: in every state of the
  two forwarding tasks and their channels, what the sender has received is a prefix of the
  numbers of the headers the node delivered before an error; while the sender listens, the
  rest is exactly what is in flight, and if nothing but dropping the receiver can happen any
  more, all of it has arrived. No channel holds more than 32 items, and every step decreases
  a measure.
\<close>
theorem blocks_arrive_in_order:
  assumes "feed_reach number (feed_new sub) s"
  shows "prefix (received s) (map number (good_headers sub)) \<and>
    length (buffer (chain_stage s)) \<le> 32 \<and> length (buffer (client_stage s)) \<le> 32 \<and>
    (rx_alive (client_stage s) \<longrightarrow> received s @ in_flight_numbers number s = map number (good_headers sub)) \<and>
    (rx_alive (client_stage s) \<and> (\<forall>s'. feed_step number s s' \<longrightarrow> \<not> rx_alive (client_stage s')) \<longrightarrow>
       received s = map number (good_headers sub)) \<and>
    (\<forall>s'. feed_step number s s' \<longrightarrow> feed_measure s' < feed_measure s)"
proof -
  have inv: "feed_inv number (map number (good_headers sub)) s" using feed_inv_reach [OF assms feed_inv_new] .
  then have "received s @ in_flight_numbers number s = map number (good_headers sub)" if "rx_alive (client_stage s)"
    using that by (simp add: feed_inv_def)
  moreover have "in_flight_numbers number s = []"
    if "rx_alive (client_stage s)" "\<forall>s'. feed_step number s s' \<longrightarrow> \<not> rx_alive (client_stage s')"
    using feed_progress [OF inv that(1)] that(2) by blast
  moreover have "prefix (received s) (map number (good_headers sub))" "length (buffer (chain_stage s)) \<le> 32"
    "length (buffer (client_stage s)) \<le> 32"
    using inv by (simp_all add: feed_inv_def stage_ok_def CHANNEL_CAPACITY_def)
  ultimately show ?thesis using feed_measure_decreases by auto
qed

definition ex_feed :: "(unit, u64) feed" where
  "ex_feed = (feed_new [Inr 7, Inr 8, Inl ()])\<lparr>subscription := [Inr 8, Inl ()],
     chain_stage := stage_new\<lparr>forwarder := Holding 7\<rparr>\<rparr>"

theorem blocks_arrive_in_order_witness:
  "received ex_feed @ in_flight_numbers id ex_feed = [7, 8] \<and> prefix (received ex_feed) [7, 8]"
proof -
  have "feed_step id (feed_new [Inr 7, Inr 8, Inl ()]) ex_feed"
    unfolding ex_feed_def by (rule header) (simp_all add: feed_new_def stage_new_def stage_take_def)
  then have "feed_reach id (feed_new [Inr 7, Inr 8, Inl ()]) ex_feed" by (rule r_into_rtranclp)
  from blocks_arrive_in_order [OF this] show ?thesis by (simp add: ex_feed_def feed_new_def stage_new_def)
qed

end
