(* ===== verification/Oracle_Eth.thy ===== *)
theory Oracle_Eth
  imports Sender_Safety Block_Feed
begin

text \<open>
  The example crates/bulkmail/examples/oracle_eth.rs: a task that adds a fixed transfer to the
  sender over and over and asks the chain for its state in between, and the program that
  starts it. Each round has the clock readings and the node's replies; an error of the node
  ends the task.
\<close>

definition oracle_message :: "u64 \<Rightarrow> message" where
  "oracle_message now = (message_default now)\<lparr>msg_to := Some 0, msg_gas := 21000, msg_value := 1000000\<rparr>"

record oracle_round =
  created_ms :: u64
  added_ms :: u64
  block_reply :: "rpc_error + u64"
  nonce_reply :: "rpc_error + u64"

fun continuous_send ::
  "bool \<Rightarrow> oracle_round list \<Rightarrow> ('r, 'f, 'fee, 'tok) sender \<Rightarrow> (chain_error option \<times> ('r, 'f, 'fee, 'tok) sender) option" where
  "continuous_send oc [] s = Some (None, s)"
| "continuous_send oc (r # rs) s = do {
     s \<leftarrow> add_message oc (oracle_message (created_ms r)) (added_ms r) s;
     case chain_get_block_number (block_reply r) of
       Inl e \<Rightarrow> Some (Some e, s)
     | Inr block_number \<Rightarrow>
         (case chain_get_account_nonce (nonce_reply r) of
            Inl e \<Rightarrow> Some (Some e, s)
          | Inr nonce \<Rightarrow> continuous_send oc rs s)
   }"

text \<open>The rounds the task starts: up to and including the first with an error.\<close>

fun started :: "oracle_round list \<Rightarrow> oracle_round list" where
  "started [] = []"
| "started (r # rs) = (if isl (block_reply r) \<or> isl (nonce_reply r) then [r] else r # started rs)"

lemma oracle_message_wf: "unat now < 2 ^ 63 \<Longrightarrow> wf_message (oracle_message now)"
  by (simp add: wf_message_def oracle_message_def message_default_def message_consts)

text \<open>
  The task panics on no clock reading of this epoch, adds exactly one message per round it
  starts, keeps the rest of the sender except for the stored wake-up, and reports an error exactly
  if a round failed.
\<close>

lemma continuous_send_adds:
  assumes "queue_invar (queue s)"
    and "\<forall>r \<in> set rs. unat (created_ms r) < 2 ^ 42 \<and> unat (added_ms r) < 2 ^ 42"
  shows "\<exists>res s'. continuous_send oc rs s = Some (res, s') \<and> queue_invar (queue s') \<and>
    queue_messages (queue s') = queue_messages (queue s) + mset (map (\<lambda>r. oracle_message (created_ms r)) (started rs)) \<and>
    tasks s' = tasks s \<and> permits s' = permits s \<and> (rs \<noteq> [] \<longrightarrow> message_ready s') \<and>
    (res = None \<longleftrightarrow> (\<forall>r \<in> set rs. \<not> isl (block_reply r) \<and> \<not> isl (nonce_reply r)))"
  using assms
proof (induction rs arbitrary: s)
  case (Cons r rs)
  let ?m = "oracle_message (created_ms r)"
  have t: "unat (created_ms r) < 2 ^ 42" "unat (added_ms r) < 2 ^ 42" using Cons.prems(2) by simp_all
  have "age_in_range ?m (added_ms r)"
    using t by (simp add: age_in_range_def oracle_message_def message_default_def)
  moreover have "wf_message ?m" using t(1) by (intro oracle_message_wf) simp
  ultimately obtain p where "effective_priority oc ?m (added_ms r) = Some p" using effective_priority_value by metis
  then obtain q where q: "queue_push oc (queue s) ?m (added_ms r) = Some q" by (simp add: queue_push_def)
  define s1 where "s1 = s\<lparr>queue := q, message_ready := True\<rparr>"
  have add: "add_message oc ?m (added_ms r) s = Some s1" using q by (simp add: add_message_def s1_def)
  have s1: "queue_messages (queue s1) = add_mset ?m (queue_messages (queue s))" "queue_invar (queue s1)"
    "tasks s1 = tasks s" "permits s1 = permits s" "message_ready s1"
    using queue_push_messages [OF Cons.prems(1) q] by (simp_all add: s1_def)
  show ?case
  proof (cases "isl (block_reply r) \<or> isl (nonce_reply r)")
    case True
    then have "\<exists>e. continuous_send oc (r # rs) s = Some (Some e, s1)"
      using add by (cases "block_reply r"; cases "nonce_reply r")
        (auto simp: chain_get_block_number_def chain_get_account_nonce_def from_provider_def)
    then obtain e where "continuous_send oc (r # rs) s = Some (Some e, s1)" by blast
    then show ?thesis using True s1 by (intro exI [of _ "Some e"] exI [of _ s1]) auto
  next
    case False
    then have run: "continuous_send oc (r # rs) s = continuous_send oc rs s1"
      using add by (cases "block_reply r"; cases "nonce_reply r")
        (auto simp: chain_get_block_number_def chain_get_account_nonce_def from_provider_def)
    obtain res s' where r: "continuous_send oc rs s1 = Some (res, s')" "queue_invar (queue s')"
      "queue_messages (queue s') = queue_messages (queue s1) + mset (map (\<lambda>r. oracle_message (created_ms r)) (started rs))"
      "tasks s' = tasks s1" "permits s' = permits s1" "rs \<noteq> [] \<longrightarrow> message_ready s'"
      "res = None \<longleftrightarrow> (\<forall>r \<in> set rs. \<not> isl (block_reply r) \<and> \<not> isl (nonce_reply r))"
      using Cons.IH [OF s1(2)] Cons.prems(2) by auto
    have "message_ready s'" using r(1,6) s1(5) by (cases rs) auto
    then show ?thesis using r s1 False run by (intro exI [of _ res] exI [of _ s']) auto
  qed
qed auto

subsection \<open>The program\<close>

text \<open>
  \<open>main\<close>: a local node with its keys, the chain connection, the nonce manager and the sender. A
  node that does not start ends the program without an error; a node without keys panics.
  The address of the key matters only for the node's reply about its nonce.
\<close>

definition CHAIN_ID :: u64 where
  "CHAIN_ID = 1337"

datatype oracle_error = TM error | OracleChain chain_error

datatype oracle_setup =
    NodeFailed
  | SetupFailed oracle_error
  | Started "(nonce_state, gas_price_manager, eth_fee_params, u64) sender"

definition oracle_start :: "'e + 'key list \<Rightarrow> rpc_error + 'provider \<Rightarrow> rpc_error + u64 \<Rightarrow> oracle_setup option" where
  "oracle_start node connection nonce =
     (case node of
        Inl e \<Rightarrow> Some NodeFailed
      | Inr keys \<Rightarrow>
          (case keys of
             [] \<Rightarrow> None
           | sender_key # _ \<Rightarrow> Some
               (case chain_new connection sender_key CHAIN_ID of
                  Inl e \<Rightarrow> SetupFailed (OracleChain e)
                | Inr chain \<Rightarrow>
                    (case eth_replay_new (chain_get_account_nonce nonce) of
                       Inl e \<Rightarrow> SetupFailed (TM e)
                     | Inr nonces \<Rightarrow> Started (sender_new gas_price_new nonces)))))"

text \<open>The program's result: none while \<open>run\<close> goes on, then its error; a panic is none either.\<close>

definition oracle_result :: "('r, 'f, 'fee, 'tok) sender \<Rightarrow> oracle_error option" where
  "oracle_result s = (case main s of main_pc.Stopped e \<Rightarrow> Some (TM e) | _ \<Rightarrow> None)"

text \<open>
  The example as a whole: if it starts with the node's nonce \<open>n\<close>, then in every history in range
  in which only its own task adds messages, no task and no loop panics, and every message
  in the queue or in a task is the example's transfer.
\<close>
lemma oracle_runs_safely:
  assumes "oracle_start node connection nonce = Some (Started s0)"
    and "history (eth_adapter CHAIN_ID) oc s0 evs s" and "\<forall>ev \<in> set evs. eth_event_ok b ev"
    and "\<forall>m \<in> set (added evs). \<exists>now. m = oracle_message now"
    and "\<forall>n. nonce = Inr n \<longrightarrow> unat n \<le> b" and "b + length evs \<le> 2 ^ 64"
  shows "Panicked \<notin> set (tasks s) \<and> main s \<noteq> MainPanicked \<and>
    (\<exists>popped. length popped = length (tasks s) \<and> set_mset (queue_messages (queue s)) \<union> set popped = set (added evs) \<and>
      (\<forall>i < length popped. carries (popped ! i) (tasks s ! i) \<and> (\<exists>now. popped ! i = oracle_message now)))"
proof -
  obtain n where n: "nonce = Inr n" "s0 = sender_new gas_price_new \<lparr>current = n, in_flight = {}\<rparr>"
    using assms(1) by (cases nonce) (auto simp: oracle_start_def eth_replay_new_def nonce_manager_new_def chain_get_account_nonce_def
        from_provider_def split: sum.splits list.splits)
  have ok: "eth_history_ok b gas_price_new \<lparr>current = n, in_flight = {}\<rparr> evs"
    using assms(3,5,6) n(1) by (simp add: eth_history_ok_def eth_fees_ok_new nonce_fits_def)
  have safe: "\<forall>t \<in> set (tasks s). eth.task_ok t" "main s \<noteq> MainPanicked"
    using eth_history_safe(1) [OF assms(2) [unfolded n(2)] ok] unfolding eth.safe_def by blast+
  obtain popped where p: "length popped = length (tasks s)" "mset (added evs) = queue_messages (queue s) + mset popped"
    "\<forall>i < length popped. carries (popped ! i) (tasks s ! i)"
    using eth_history_safe(2) [OF assms(2) [unfolded n(2)] ok] by (auto simp: accounted_def accounted_by_def)
  have set: "set_mset (queue_messages (queue s)) \<union> set popped = set (added evs)" using p(2) by (metis set_mset_mset set_mset_union)
  have "popped ! i \<in> set (added evs)" if "i < length popped" for i using set that by auto
  then show ?thesis using safe p(1,3) set assms(4) eth.task_ok.simps by (intro conjI exI [of _ popped]) auto
qed

end
