(* ===== verification/Sender_Types.thy ===== *)
theory Sender_Types
  imports Sender_Safety
begin

text \<open>
  The typing of the sender's state, for every adapter: what the queue and the tasks hold.
  A message anywhere in the sender is one that was added, with nothing changed but the
  retry counter, which has only grown; it stays in the range of \<open>wf_message\<close>; a queued entry
  carries the effective priority its message had at some moment; and a task has been
  resubmitted at most as often as its message was counted.
\<close>

definition descends :: "message list \<Rightarrow> message \<Rightarrow> bool" where
  "descends ms m \<longleftrightarrow> wf_message m \<and> (\<exists>m0 \<in> set ms. same_intent m0 m \<and> retry_count m0 \<le> retry_count m)"

definition entry_typed :: "bool \<Rightarrow> message list \<Rightarrow> prioritized_message \<Rightarrow> bool" where
  "entry_typed oc ms pm \<longleftrightarrow> descends ms (pm_message pm) \<and>
     (\<exists>now. effective_priority oc (pm_message pm) now = Some (pm_priority pm))"

fun task_typed :: "message list \<Rightarrow> ('fee, 'tok) task \<Rightarrow> bool" where
  "task_typed ms (Spawned m) = descends ms m"
| "task_typed ms (Bound m now tok) = descends ms m"
| "task_typed ms (Looping m fee tok cnt) = (descends ms m \<and> cnt \<le> retry_count m)"
| "task_typed ms (Awaiting m fee tok cnt i) = (descends ms m \<and> cnt \<le> retry_count m)"
| "task_typed ms (Requeueing m tok) = descends ms m"
| "task_typed ms (Readding m) = descends ms m"
| "task_typed ms _ = True"

definition sender_typed :: "bool \<Rightarrow> message list \<Rightarrow> ('r, 'f, 'fee, 'tok) sender \<Rightarrow> bool" where
  "sender_typed oc ms s \<longleftrightarrow> queue_invar (queue s) \<and> (\<forall>pm \<in># queue_items (queue s). entry_typed oc ms pm) \<and>
     (\<forall>t \<in> set (tasks s). task_typed ms t)"

subsection \<open>Subject reduction\<close>

lemma descends_mono: "descends ms m \<Longrightarrow> set ms \<subseteq> set ms' \<Longrightarrow> descends ms' m"
  by (auto simp: descends_def)

lemma task_typed_mono: "task_typed ms t \<Longrightarrow> set ms \<subseteq> set ms' \<Longrightarrow> task_typed ms' t"
  by (cases t) (auto intro: descends_mono)

lemma sender_typed_mono: "sender_typed oc ms s \<Longrightarrow> set ms \<subseteq> set ms' \<Longrightarrow> sender_typed oc ms' s"
  by (auto simp: sender_typed_def entry_typed_def intro: descends_mono task_typed_mono)

lemma descends_increment:
  assumes "descends ms m" and "snd (increment_retry m)"
  shows "descends ms (fst (increment_retry m))" and "unat (retry_count (fst (increment_retry m))) = Suc (unat (retry_count m))"
proof -
  show c: "unat (retry_count (fst (increment_retry m))) = Suc (unat (retry_count m))"
    using assms(2) by (simp add: increment_retry_count increment_retry_snd)
  have "wf_message (fst (increment_retry m))" using assms wf_increment_retry by (auto simp: descends_def)
  moreover have "retry_count m \<le> retry_count (fst (increment_retry m))" using c by (simp add: word_le_nat_alt)
  ultimately show "descends ms (fst (increment_retry m))"
    using assms(1) unfolding descends_def by (meson order_trans same_intent_increment)
qed

lemma task_dropped_typed:
  assumes "descends ms (pend_msg p)" and "pend_replacement_count p \<le> retry_count (pend_msg p)"
  shows "task_typed ms (fst (task_dropped A oc p s))"
proof (cases "snd (increment_retry (pend_msg p))")
  case True
  note d = descends_increment [OF assms(1) True]
  have "unat (pend_replacement_count p) \<le> unat (retry_count (pend_msg p))" using assms(2) by (simp add: word_le_nat_alt)
  moreover have "unat (retry_count (pend_msg p)) < 2" using True by (simp add: increment_retry_snd)
  ultimately have "pend_replacement_count p + 1 \<le> retry_count (fst (increment_retry (pend_msg p)))"
    using d(2) by (simp add: word_le_nat_alt unat_add_ok)
  then show ?thesis
    using d(1) True by (auto simp: task_dropped_def Let_def case_prod_beta dest: rust_add_SomeD
        split: option.splits retry_decision.splits)
qed (simp add: task_dropped_def Let_def case_prod_beta)

lemma task_step_typed:
  assumes "task_step A oc inp t s = Some (t', s')" and "task_typed ms t"
  shows "task_typed ms t'"
  using assms task_dropped_typed [of ms _ A oc s]
  by (cases rule: task_step.cases [of "(A, oc, inp, t, s)"])
    (auto simp: task_start_def task_bind_fee_def task_attempt_def task_reply_def task_outcome_def Let_def
      split: option.splits bool.splits sum.splits prod.splits send_outcome.splits,
      (metis fst_conv pending_transaction.select_convs)+)

lemma push_typed:
  assumes "queue_push oc q m now = Some q'" and "queue_invar q" and "\<forall>pm \<in># queue_items q. entry_typed oc ms pm" and "descends ms m"
  shows "queue_invar q' \<and> (\<forall>pm \<in># queue_items q'. entry_typed oc ms pm)"
proof -
  obtain p where "effective_priority oc m now = Some p" "q' = queue_insert q \<lparr>pm_message = m, pm_priority = p\<rparr>"
    using assms(1) by (auto simp: queue_push_def bind_eq_Some_conv)
  moreover from this have "entry_typed oc ms \<lparr>pm_message = m, pm_priority = p\<rparr>"
    using assms(4) by (auto simp: entry_typed_def intro: exI [of _ now])
  ultimately show ?thesis using assms(2,3) by (simp add: pq.items_push pq.invar_push)
qed

lemma pop_typed:
  assumes "queue_pop q = Some (m, q')" and "queue_invar q" and "\<forall>pm \<in># queue_items q. entry_typed oc ms pm"
  shows "descends ms m \<and> queue_invar q' \<and> (\<forall>pm \<in># queue_items q'. entry_typed oc ms pm)"
proof -
  obtain p where "queue_take q = Some (\<lparr>pm_message = m, pm_priority = p\<rparr>, q')" using assms(1) by (auto simp: queue_pop_Some)
  from pq.pop_items [OF assms(2) this] pq.invar_pop [OF assms(2) this] show ?thesis
    using assms(3) by (auto simp: entry_typed_def)
qed

lemma exec_typed:
  assumes "exec A oc ev s = Some s'" and "sender_typed oc (added evs) s" and "\<forall>m \<in> set (added (evs @ [ev])). wf_message m"
  shows "sender_typed oc (added (evs @ [ev])) s'"
proof -
  let ?ms = "added (evs @ [ev])"
  have t: "sender_typed oc ?ms s" by (rule sender_typed_mono [OF assms(2)]) (auto simp: added_snoc split: event.splits)
  have q: "queue_invar (queue s)" "\<forall>pm \<in># queue_items (queue s). entry_typed oc ?ms pm" "\<forall>t \<in> set (tasks s). task_typed ?ms t"
    using t by (simp_all add: sender_typed_def)
  show ?thesis
  proof (cases ev)
    case (AddMessage m now)
    then have "descends ?ms m" using assms(3) by (auto simp: descends_def added_snoc same_intent_def)
    then show ?thesis using AddMessage assms(1) q push_typed [OF _ q(1,2)] by (auto simp: add_message_def sender_typed_def)
  next
    case (TaskStep i inp)
    then obtain t u where r: "i < length (tasks s)" "task_step A oc inp (tasks s ! i) s = Some (t, u)"
      "s' = u\<lparr>tasks := (tasks s)[i := t], permits := permits s + (if ended t then 1 else 0)\<rparr>"
      using assms by (auto elim: run_taskE)
    have ti: "task_typed ?ms (tasks s ! i)" using q(3) r(1) by simp
    have "\<forall>t' \<in> set ((tasks s)[i := t]). task_typed ?ms t'"
      using q(3) task_step_typed [OF r(2) ti] set_update_subset_insert [of "tasks s" i t] by auto
    moreover have "queue_invar (queue u) \<and> (\<forall>pm \<in># queue_items (queue u). entry_typed oc ?ms pm)"
      using task_step_queue [OF r(2)] q(1,2) push_typed [OF _ q(1,2)] ti by fastforce
    ultimately show ?thesis using r(3) by (simp add: sender_typed_def)
  next
    case TryPop
    then show ?thesis using assms(1) t q pop_typed [OF _ q(1,2)]
      by (auto simp: pop_or_park_def sender_typed_def split: if_splits option.splits)
  qed (use assms(1) t in \<open>auto simp: sender_typed_def acquire_permit_def wake_up_def select_block_def
      cancel_process_next_def sync_done_def split: if_splits option.splits sum.splits\<close>)
qed

subsection \<open>Property\<close>

text \<open>
  C8: The sender's state stays well-typed, whatever the adapter answers and however the
  events interleave: if the messages added are in range, then so is every message in the
  queue or in a task, it is one of the added messages with nothing but a larger retry
  counter, the queue is a heap whose entries carry an effective priority of their message,
  and no task counts more replacements than retries.
\<close>
theorem sender_well_typed:
  assumes "history A oc (sender_new f r) evs s" and "\<forall>m \<in> set (added evs). wf_message m"
  shows "sender_typed oc (added evs) s"
  using assms
proof (induction rule: history.induct)
  case start
  then show ?case using pq.invar_empty by (simp add: sender_typed_def sender_new_def pq.items_empty)
next
  case (step evs s ev s')
  then show ?case by (intro exec_typed) (auto simp: added_snoc)
qed

theorem sender_well_typed_witness:
  "sender_typed True (added busy_events) busy_state"
proof (rule sender_well_typed [OF busy_history])
  show "\<forall>m \<in> set (added busy_events). wf_message m"
    by (simp add: busy_events_def sleepy_events_def wf_message_def message_default_def message_consts)
qed

end
