(* ===== verification/Sender_Progress.thy ===== *)
theory Sender_Progress
  imports Sender_Safety
begin

text \<open>
  The sender is never stuck: whatever its tasks are doing, a message in the queue of a running
  sender can be picked up by steps of the sender alone. A task that has not ended has a step
  for the input it waits for, and ends after finitely many; that frees a permit.
\<close>

fun internal :: "('rep, 'sync) event \<Rightarrow> bool" where
  "internal (AddMessage m now) = False"
| "internal (Block b) = False"
| "internal (Subscribe r) = False"
| "internal (SyncReply r) = False"
| "internal _ = True"

lemma task_can_step: "\<not> ended t \<Longrightarrow> \<exists>inp t' s'. task_step A oc (inp :: 'rep task_input) t s = Some (t', s')"
proof -
  assume "\<not> ended t"
  then show ?thesis
  proof (cases t)
    case (Awaiting m fee tok cnt i)
    then show ?thesis by (intro exI [of _ "Reply undefined 0"]) (simp add: prod_eq_iff)
  next
    case (Spawned m)
    then show ?thesis by (intro exI [of _ "Clock 0 0"]) (simp add: prod_eq_iff)
  next
    case (Looping m fee tok cnt)
    then show ?thesis by (intro exI [of _ "Clock 0 0"]) (simp add: prod_eq_iff)
  next
    case (Readding m)
    then show ?thesis by (intro exI [of _ "Clock 0 0"]) (simp split: option.splits)
  qed (auto intro!: exI [of _ Go] simp: prod_eq_iff)
qed

lemma task_step_queue_nonempty:
  assumes "task_step A oc inp t s = Some (t', s')" and "queue_invar (queue s)" and "\<not> queue_is_empty (queue s)"
  shows "queue_invar (queue s') \<and> \<not> queue_is_empty (queue s')"
proof -
  have e: "queue_is_empty q \<longleftrightarrow> queue_messages q = {#}" for q
    by (simp add: queue_is_empty_def queue_messages_def queue_items_def)
  consider "queue s' = queue s" | m now where "queue_push oc (queue s) m now = Some (queue s')"
    using task_step_queue [OF assms(1)] by blast
  then show ?thesis
  proof cases
    case 2
    then show ?thesis using queue_push_messages [OF assms(2) 2] by (simp add: e)
  qed (use assms(2,3) in simp)
qed

lemma drive_task:
  assumes "i < length (tasks s)" and "\<not> ended (tasks s ! i)" and "queue_invar (queue s)" and "\<not> queue_is_empty (queue s)"
  shows "\<exists>evs s'. fold_opt (exec A oc) evs s = Some s' \<and> list_all internal evs \<and> permits s' = Suc (permits s) \<and>
    main s' = main s \<and> length (tasks s') = length (tasks s) \<and> queue_invar (queue s') \<and> \<not> queue_is_empty (queue s')"
  using assms
proof (induction "task_measure (tasks s ! i)" arbitrary: s rule: less_induct)
  case less
  obtain inp t' u where step: "task_step A oc inp (tasks s ! i) s = Some (t', u)" using task_can_step [OF less.prems(2)] by blast
  note fr = task_step_frame [OF step]
  let ?s = "u\<lparr>tasks := (tasks s)[i := t'], permits := permits s + (if ended t' then 1 else 0)\<rparr>"
  have ex: "exec A oc (TaskStep i inp) s = Some ?s" using less.prems(1) step fr by (simp add: run_task_def)
  have q: "queue_invar (queue ?s)" "\<not> queue_is_empty (queue ?s)"
    using task_step_queue_nonempty [OF step less.prems(3,4)] by simp_all
  show ?case
  proof (cases "ended t'")
    case True
    then show ?thesis using ex q fr by (intro exI [of _ "[TaskStep i inp]"] exI [of _ ?s]) simp
  next
    case False
    have "task_measure (tasks ?s ! i) < task_measure (tasks s ! i)"
      using task_step_decreases [OF step] less.prems(1) by simp
    from less.hyps [OF this] less.prems(1) False q obtain evs s' where
      "fold_opt (exec A oc) evs ?s = Some s'" "list_all internal evs" "permits s' = Suc (permits s)"
      "main s' = main u" "length (tasks s') = length (tasks s)" "queue_invar (queue s')" "\<not> queue_is_empty (queue s')" by auto
    then show ?thesis using ex fr by (intro exI [of _ "TaskStep i inp # evs"] exI [of _ s']) simp
  qed
qed

text \<open>From a free permit to a new task.\<close>

lemma acquire_and_pop:
  assumes "main s = AcquirePermit" and "0 < permits s" and "queue_invar (queue s)" and "\<not> queue_is_empty (queue s)"
  shows "\<exists>m s'. fold_opt (exec A oc) [Acquire, TryPop] s = Some s' \<and> m \<in># queue_messages (queue s) \<and>
    tasks s' = tasks s @ [Spawned m] \<and> main s' = AcquirePermit"
proof -
  obtain m q where pop: "queue_pop (queue s) = Some (m, q)" using queue_pop_None_empty [OF assms(3)] assms(4) by force
  then have "m \<in># queue_messages (queue s)" using queue_pop_messages [OF assms(3)] by fastforce
  then show ?thesis using assms(1,2) pop by (simp add: acquire_permit_def pop_or_park_def)
qed

text \<open>A sender that waits for a permit with a message queued: a permit is free, or a task can be run to its end.\<close>

lemma acquire_starts:
  assumes "main s = AcquirePermit" and "permits s + live_tasks s = 16"
    and "queue_invar (queue s)" and "\<not> queue_is_empty (queue s)"
  shows "\<exists>evs s' ts m. fold_opt (exec A oc) evs s = Some s' \<and> list_all internal evs \<and>
    tasks s' = ts @ [Spawned m] \<and> length ts = length (tasks s) \<and> main s' = AcquirePermit"
proof -
  have "\<exists>pre u. fold_opt (exec A oc) pre s = Some u \<and> list_all internal pre \<and> main u = AcquirePermit \<and> 0 < permits u \<and>
      queue_invar (queue u) \<and> \<not> queue_is_empty (queue u) \<and> length (tasks u) = length (tasks s)"
  proof (cases "0 < permits s")
    case True
    then show ?thesis using assms by (intro exI [of _ "[]"]) simp
  next
    case False
    then have "live_tasks s = 16" using assms(2) by simp
    then obtain t where "t \<in> set (tasks s)" "\<not> ended t" unfolding live_tasks_def by (metis filter_False length_0_conv zero_neq_numeral)
    then obtain i where "i < length (tasks s)" "\<not> ended (tasks s ! i)" by (metis in_set_conv_nth)
    from drive_task [OF this] assms(1,3,4) show ?thesis by (metis zero_less_Suc)
  qed
  then obtain pre u where u: "fold_opt (exec A oc) pre s = Some u" "list_all internal pre" "length (tasks u) = length (tasks s)"
    and go: "main u = AcquirePermit" "0 < permits u" "queue_invar (queue u)" "\<not> queue_is_empty (queue u)" by blast
  obtain m s' where "fold_opt (exec A oc) [Acquire, TryPop] u = Some s'" "tasks s' = tasks u @ [Spawned m]" "main s' = AcquirePermit"
    using acquire_and_pop [OF go] by blast
  then show ?thesis
    using u by (intro exI [of _ "pre @ [Acquire, TryPop]"] exI [of _ s'] exI [of _ "tasks u"] exI [of _ m]) (simp add: fold_opt_append)
qed

subsection \<open>Property\<close>



end
