(* ===== verification/Sender_Once.thy ===== *)
theory Sender_Once
  imports Sender_Safety
begin

text \<open>
  What the sender submits over a whole history, and what a chain may make of it. A chain
  mines at most one transaction for each nonce of an account; the sender keeps one nonce for
  all submissions of a message and never gives a confirmed nonce to another message. So a
  message is executed at most as often as it was added.
\<close>

subsection \<open>The submissions of a history\<close>

definition intent :: "message \<Rightarrow> message" where
  "intent m = m\<lparr>retry_count := 0\<rparr>"

lemma same_intent_iff: "same_intent m m' \<longleftrightarrow> intent m = intent m'"
  by (auto simp: same_intent_def intent_def)

record ('fee, 'tok) submission =
  sub_task :: nat
  sub_msg :: message
  sub_fee :: 'fee
  sub_token :: 'tok

text \<open>The call of \<open>send_transaction\<close> that an event makes.\<close>

fun submits :: "bool \<Rightarrow> ('rep, 'sync) event \<Rightarrow> ('r, 'f, 'fee, 'tok) sender \<Rightarrow> ('fee, 'tok) submission list" where
  "submits oc (TaskStep i (Clock now t)) s =
     (if i < length (tasks s)
      then case tasks s ! i of
             Looping msg fee tok cnt \<Rightarrow>
               if is_expired oc msg now = Some False
               then [\<lparr>sub_task = i, sub_msg = msg, sub_fee = fee, sub_token = tok\<rparr>] else []
           | _ \<Rightarrow> []
      else [])"
| "submits oc _ s = []"

fun submissions ::
  "('r, 'f, 'fee, 'tok, 'id, 'rep, 'sync) chain_adapter \<Rightarrow> bool \<Rightarrow> ('rep, 'sync) event list \<Rightarrow>
   ('r, 'f, 'fee, 'tok) sender \<Rightarrow> ('fee, 'tok) submission list" where
  "submissions A oc [] s = []"
| "submissions A oc (ev # evs) s =
     submits oc ev s @ (case exec A oc ev s of None \<Rightarrow> [] | Some s' \<Rightarrow> submissions A oc evs s')"

lemma submissions_append:
  "fold_opt (exec A oc) evs s = Some s' \<Longrightarrow>
   submissions A oc (evs @ evs') s = submissions A oc evs s @ submissions A oc evs' s'"
  by (induction evs arbitrary: s) (auto simp: bind_eq_Some_conv)

lemma submits_looping:
  "x \<in> set (submits oc ev s) \<Longrightarrow> sub_task x < length (tasks s) \<and>
   (\<exists>cnt. tasks s ! sub_task x = Looping (sub_msg x) (sub_fee x) (sub_token x) cnt)"
proof (induction oc ev s rule: submits.induct)
  case (1 oc i now t s)
  then have i: "i < length (tasks s)" by (cases "i < length (tasks s)") simp_all
  show ?case
  proof (cases "tasks s ! i")
    case (Looping msg fee tok cnt)
    then have "x = \<lparr>sub_task = i, sub_msg = msg, sub_fee = fee, sub_token = tok\<rparr>"
      using 1 i by (cases "is_expired oc msg now = Some False") simp_all
    then show ?thesis using i Looping by simp
  qed (use 1 i in simp_all)
qed simp_all

lemma task_step_not_spawned: "task_step A oc inp t s = Some (t', s') \<Longrightarrow> t' \<noteq> Spawned m"
  by (cases rule: task_step.cases [of "(A, oc, inp, t, s)"])
    (auto simp: task_start_def task_bind_fee_def task_attempt_def task_reply_def task_outcome_def task_dropped_def Let_def
      split: option.splits bool.splits sum.splits prod.splits send_outcome.splits if_splits retry_decision.splits)

subsection \<open>One token for each task\<close>

text \<open>
  A task that submitted still has the token of its submissions or has ended, and what it
  submitted is the message popped for it.
\<close>

definition logged :: "message list \<Rightarrow> ('fee, 'tok) submission list \<Rightarrow> ('r, 'f, 'fee, 'tok) sender \<Rightarrow> bool" where
  "logged popped subs s \<longleftrightarrow>
     (\<forall>x \<in> set subs. sub_task x < length popped \<and> same_intent (popped ! sub_task x) (sub_msg x) \<and>
        (task_token (tasks s ! sub_task x) = Some (sub_token x) \<or> ended (tasks s ! sub_task x))) \<and>
     (\<forall>x \<in> set subs. \<forall>y \<in> set subs. sub_task x = sub_task y \<longrightarrow> sub_token x = sub_token y)"

lemma logged_more:
  assumes "logged popped subs s" and "tasks s' = tasks s @ ts" and "length popped = length (tasks s)"
  shows "logged (popped @ ms) subs s'"
proof -
  have "(popped @ ms) ! i = popped ! i \<and> tasks s' ! i = tasks s ! i" if "i < length popped" for i
    using that assms(2,3) by (simp add: nth_append)
  then show ?thesis using assms(1) unfolding logged_def by (metis length_append trans_less_add1)
qed

lemma logged_submits:
  assumes "logged popped subs s" and "accounted_by popped ms s"
  shows "logged popped (subs @ submits oc ev s) s"
proof -
  have new: "sub_task x < length popped" "same_intent (popped ! sub_task x) (sub_msg x)"
    "task_token (tasks s ! sub_task x) = Some (sub_token x)" "\<not> ended (tasks s ! sub_task x)"
    if x: "x \<in> set (submits oc ev s)" for x
  proof -
    obtain cnt where l: "sub_task x < length (tasks s)" "tasks s ! sub_task x = Looping (sub_msg x) (sub_fee x) (sub_token x) cnt"
      using submits_looping [OF x] by blast
    then have "carries (popped ! sub_task x) (tasks s ! sub_task x)" "sub_task x < length popped"
      using assms(2) unfolding accounted_by_def by metis+
    then show "sub_task x < length popped" "same_intent (popped ! sub_task x) (sub_msg x)"
      "task_token (tasks s ! sub_task x) = Some (sub_token x)" "\<not> ended (tasks s ! sub_task x)" using l(2) by simp_all
  qed
  have old: "task_token (tasks s ! sub_task x) = Some (sub_token x) \<or> ended (tasks s ! sub_task x)" if "x \<in> set subs" for x
    using that assms(1) unfolding logged_def by blast
  have "sub_token x = sub_token y"
    if "x \<in> set subs \<or> x \<in> set (submits oc ev s)" "y \<in> set subs \<or> y \<in> set (submits oc ev s)" "sub_task x = sub_task y" for x y
  proof (cases "x \<in> set subs \<and> y \<in> set subs")
    case True
    then show ?thesis using assms(1) that(3) unfolding logged_def by blast
  next
    case False
    then have live: "\<not> ended (tasks s ! sub_task x)" using that(1,2) new(4) [of x] new(4) [of y] that(3) by auto
    have "task_token (tasks s ! sub_task x) = Some (sub_token x)" using that(1) old [of x] new(3) [of x] live by blast
    moreover have "task_token (tasks s ! sub_task y) = Some (sub_token y)"
      using that(2) old [of y] new(3) [of y] live unfolding that(3) by blast
    ultimately show ?thesis using that(3) by simp
  qed
  then show ?thesis using assms(1) new unfolding logged_def set_append Un_iff by blast
qed

context retry_adapter
begin

lemma exec_logged:
  assumes "safe k s" and "event_ok b ev" and "k < limit" and "exec A oc ev s = Some s'"
    and "accounted_by popped (added evs) s" and "logged popped subs s"
  shows "\<exists>ms. accounted_by (popped @ ms) (added (evs @ [ev])) s' \<and> logged (popped @ ms) (subs @ submits oc ev s) s'"
proof -
  have inv: "queue_invar (queue s)" "\<forall>m. Readding m \<notin> set (tasks s)" using assms(1) by (auto simp: safe_def)
  obtain ms where ms: "accounted_by (popped @ ms) (added (evs @ [ev])) s'"
    using exec_accounted [OF assms(4,5) inv(1,2)] by blast
  have len: "length popped = length (tasks s)" using assms(5) by (simp add: accounted_by_def)
  note new = logged_submits [OF assms(6,5), of oc ev]
  have "logged (popped @ ms) (subs @ submits oc ev s) s'"
  proof (cases "\<exists>i inp. ev = TaskStep i inp")
    case False
    then have "\<exists>ts. tasks s' = tasks s @ ts"
      using assms(4) by (cases ev) (auto simp: add_message_def acquire_permit_def pop_or_park_def wake_up_def select_block_def
          cancel_process_next_def sync_done_def split: if_splits option.splits sum.splits)
    then show ?thesis using logged_more [OF new _ len] by blast
  next
    case True
    then obtain i inp where ev: "ev = TaskStep i inp" by blast
    obtain t u where r: "i < length (tasks s)" "task_step A oc inp (tasks s ! i) s = Some (t, u)"
      "s' = u\<lparr>tasks := (tasks s)[i := t], permits := permits s + (if ended t then 1 else 0)\<rparr>"
      and t: "task_ok t" "token_change (busy (replay s)) (task_token (tasks s ! i)) (busy (replay u)) (task_token t)"
      by (rule task_event_ok [OF assms(1) _ assms(3) assms(4) [unfolded ev]]) (use assms(2) ev in simp, blast)
    have "ended t" if "task_token (tasks s ! i) = Some tok" "task_token t \<noteq> Some tok" for tok
      using t that task_step_not_spawned [OF r(2)] by (cases t) (auto simp: token_change_def)
    then have t': "task_token t = Some tok \<or> ended t" if "task_token (tasks s ! i) = Some tok" for tok
      using that by blast
    have live: "\<not> ended (tasks s ! i)" using task_step_live [OF r(2)] .
    have "task_token (tasks s' ! j) = Some tok \<or> ended (tasks s' ! j)"
      if "task_token (tasks s ! j) = Some tok \<or> ended (tasks s ! j)" for j tok
      using that t' live r(1,3) by (cases "j = i") auto
    then have "logged popped (subs @ submits oc ev s) s'" using new unfolding logged_def by blast
    moreover have "ms = []" using ms len r(3) by (simp add: accounted_by_def)
    ultimately show ?thesis by simp
  qed
  then show ?thesis using ms by blast
qed

lemma history_logged:
  assumes "history A oc (sender_new f r) evs s" and "fits b r" and "fees_ok f"
    and "\<forall>ev \<in> set evs. event_ok b ev" and "b + length evs \<le> limit"
  shows "\<exists>popped. accounted_by popped (added evs) s \<and> logged popped (submissions A oc evs (sender_new f r)) s"
  using assms
proof (induction rule: history.induct)
  case start
  then show ?case by (intro exI [of _ "[]"]) (simp add: accounted_by_def logged_def sender_new_def queue_messages_def pq.items_empty)
next
  case (step evs s ev s')
  have safe: "safe (b + length evs) s" using history_safe [OF step.hyps(1)] step.prems by simp
  obtain popped where p: "accounted_by popped (added evs) s" "logged popped (submissions A oc evs (sender_new f r)) s"
    using step.IH step.prems by auto
  have "submissions A oc (evs @ [ev]) (sender_new f r) = submissions A oc evs (sender_new f r) @ submits oc ev s"
    using step.hyps by (simp add: submissions_append history_iff_run)
  then show ?case using exec_logged [OF safe _ _ step.hyps(2) p] step.prems by auto
qed

subsection \<open>Spent tokens\<close>

definition spent :: "'tok \<Rightarrow> ('r, 'f, 'fee, 'tok) sender \<Rightarrow> bool" where
  "spent tok s \<longleftrightarrow> tok \<in> busy (replay s) \<and> (\<forall>t \<in> set (tasks s). task_token t \<noteq> Some tok)"

lemma exec_spent:
  assumes "safe k s" and "event_ok b ev" and "k < limit" and "exec A oc ev s = Some s'" and "spent tok s"
  shows "spent tok s'"
proof (cases "\<exists>i inp. ev = TaskStep i inp")
  case True
  then obtain i inp where ev: "ev = TaskStep i inp" by blast
  obtain t u where r: "i < length (tasks s)"
    "s' = u\<lparr>tasks := (tasks s)[i := t], permits := permits s + (if ended t then 1 else 0)\<rparr>"
    and "token_change (busy (replay s)) (task_token (tasks s ! i)) (busy (replay u)) (task_token t)"
    by (rule task_event_ok [OF assms(1) _ assms(3) assms(4) [unfolded ev]]) (use assms(2) ev in simp, blast)
  moreover have "task_token (tasks s ! i) \<noteq> Some tok" using assms(5) r(1) by (simp add: spent_def)
  ultimately have "tok \<in> busy (replay u)" "task_token t \<noteq> Some tok"
    using assms(5) by (auto simp: spent_def token_change_def)
  then show ?thesis
    using assms(5) r(2) set_update_subset_insert [of "tasks s" i t] by (auto simp: spent_def)
next
  case False
  have "x \<in> busy r" if "replay_sync A oc reply (replay s) = Some (res, r)" "x \<in> busy (replay s)" for reply res r x
    using sync_advances [of reply "replay s"] advance_busy [of "replay s"] that by auto
  then show ?thesis
    using False assms(4,5) by (cases ev) (auto simp: spent_def add_message_def acquire_permit_def pop_or_park_def wake_up_def
        select_block_def cancel_process_next_def sync_done_def split: if_splits option.splits sum.splits)
qed

lemma confirmed_spent:
  assumes "safe k s" and "input_ok (Reply rep j)" and "k < limit" and "exec A oc (TaskStep i (Reply rep j)) s = Some s'"
    and "tasks s ! i = Awaiting m fee tok cnt t" and "client_send A oc m fee tok rep = Some (Inr (Confirmed h))"
  shows "spent tok s'"
proof -
  obtain t' u where r: "i < length (tasks s)" "task_step A oc (Reply rep j) (tasks s ! i) s = Some (t', u)"
    "s' = u\<lparr>tasks := (tasks s)[i := t'], permits := permits s + (if ended t' then 1 else 0)\<rparr>"
    and ok: "task_ok t'" "token_change (busy (replay s)) (task_token (tasks s ! i)) (busy (replay u)) (task_token t')"
    by (rule task_event_ok [OF assms(1-4)]) blast
  have inv: "task_ok (tasks s ! i)" "fits k (replay s)" "fees_ok (fees s)" "tokens_exclusive (busy (replay s)) (tasks s)"
    using assms(1) r(1) by (simp_all add: safe_def)
  have others: "tok \<in> busy (replay s)" "\<forall>x < length (tasks s). x \<noteq> i \<longrightarrow> task_token (tasks s ! x) \<noteq> Some tok"
    using inv(4) r(1) assms(5) unfolding tokens_exclusive_def by auto
  let ?p = "\<lparr>pend_msg = m, pend_tx_id = h, pend_fee = fee, pend_replay_token = tok, pend_created_at = t, pend_replacement_count = cnt\<rparr>"
  obtain f' where "handle_confirmed A oc ?p (j - t) (fees s, replay s) = Some (f', advance tok (replay s))"
    using confirmed_ok [OF inv(3), of "unat cnt" ?p "j - t" "replay s"] inv(1) assms(2,5) le_trans [OF diff_le_self, of j latest t] by auto
  then have "t' = Finished (Inr ())" "replay u = advance tok (replay s)"
    using r(2) assms(5,6) by (auto simp: task_reply_def task_outcome_def)
  moreover from this others have "tok \<in> busy (replay u)" using advance_busy [of "replay s" tok] by auto
  moreover have "task_token ((tasks s)[i := Finished (Inr ())] ! x) \<noteq> Some tok" if "x < length (tasks s)" for x
    using that others(2) r(1) by (cases "x = i") simp_all
  ultimately show ?thesis using r(3) by (auto simp: spent_def in_set_conv_nth)
qed

lemma spent_never_submitted:
  assumes "fold_opt (exec A oc) evs s = Some s'" and "safe k s" and "spent tok s"
    and "\<forall>ev \<in> set evs. event_ok b ev" and "b \<le> k" and "k + length evs \<le> limit"
  shows "\<forall>x \<in> set (submissions A oc evs s). sub_token x \<noteq> tok"
  using assms
proof (induction evs arbitrary: k s)
  case (Cons ev evs)
  then obtain s1 where s1: "exec A oc ev s = Some s1" "fold_opt (exec A oc) evs s1 = Some s'"
    by (auto simp: bind_eq_Some_conv)
  have ev: "event_ok b ev" "k < limit" using Cons.prems by simp_all
  have "\<forall>x \<in> set (submissions A oc evs s1). sub_token x \<noteq> tok"
    using Cons.IH [OF s1(2) exec_safe [OF Cons.prems(2) ev(1) Cons.prems(5) ev(2) s1(1)]
        exec_spent [OF Cons.prems(2) ev s1(1) Cons.prems(3)]] Cons.prems by simp
  moreover have "sub_token x \<noteq> tok" if l: "x \<in> set (submits oc ev s)" for x
  proof -
    obtain cnt where "sub_task x < length (tasks s)" "tasks s ! sub_task x = Looping (sub_msg x) (sub_fee x) (sub_token x) cnt"
      using submits_looping [OF l] by blast
    then have "Looping (sub_msg x) (sub_fee x) (sub_token x) cnt \<in> set (tasks s)" by (metis nth_mem)
    then show ?thesis using Cons.prems(3) by (force simp: spent_def)
  qed
  ultimately show ?case using s1(1) by auto
qed simp

end

lemma mset_map_nth_subset:
  assumes "distinct is" and "set is \<subseteq> {..< length xs}"
  shows "mset (map ((!) xs) is) \<subseteq># mset xs"
proof -
  have "mset is \<subseteq># mset [0..< length xs]"
    using assms by (auto simp: mset_set_set [symmetric] intro!: subset_imp_msubset_mset_set)
  then have "image_mset ((!) xs) (mset is) \<subseteq># image_mset ((!) xs) (mset [0..< length xs])"
    by (rule image_mset_subseteq_mono)
  then show ?thesis by (simp only: mset_map [symmetric] map_nth)
qed

definition sent_events :: "(eth_reply, chain_error + u64) event list" where
  "sent_events = busy_events @ [TaskStep 0 Go, TaskStep 0 (Clock 0 0)]"

definition sent_state :: "eth_fee_params \<Rightarrow> (nonce_state, gas_price_manager, eth_fee_params, u64) sender" where
  "sent_state fee = busy_state\<lparr>tasks := [Awaiting (message_default 0) fee 0 0 0]\<rparr>"

lemma sent_history:
  "\<exists>fee. eth_fee_ok 0 fee \<and>
     history (eth_adapter 1) True (sender_new gas_price_new \<lparr>current = 0, in_flight = {}\<rparr>) sent_events (sent_state fee) \<and>
     submissions (eth_adapter 1) True sent_events (sender_new gas_price_new \<lparr>current = 0, in_flight = {}\<rparr>) =
       [\<lparr>sub_task = 0, sub_msg = message_default 0, sub_fee = fee, sub_token = 0\<rparr>]"
proof -
  let ?s0 = "sender_new gas_price_new \<lparr>current = 0, in_flight = {}\<rparr> :: (nonce_state, gas_price_manager, eth_fee_params, u64) sender"
  obtain p where p: "effective_priority True (message_default 0) 0 = Some p"
    using clock_ok_priority [of "message_default 0" 0 True]
    by (auto simp: wf_message_def message_default_def message_consts clock_ok_def)
  obtain fee where fee: "eth_get_fee_params True p gas_price_new = Some (Inr fee)" "eth_fee_ok 0 fee"
    using eth_fee_params_ok [OF eth_fees_ok_new] by blast
  have live: "is_expired True (message_default 0) 0 = Some False" by (simp add: is_expired_def message_default_def)
  have bind: "exec (eth_adapter 1) True (TaskStep 0 Go) busy_state = Some (busy_state\<lparr>tasks := [Looping (message_default 0) fee 0 0]\<rparr>)"
    using p fee(1) by (simp add: busy_state_def run_task_def task_bind_fee_def)
  have send: "exec (eth_adapter 1) True (TaskStep 0 (Clock 0 0)) (busy_state\<lparr>tasks := [Looping (message_default 0) fee 0 0]\<rparr>) =
      Some (sent_state fee)"
    using live by (simp add: busy_state_def sent_state_def run_task_def task_attempt_def)
  have run: "fold_opt (exec (eth_adapter 1) True) busy_events ?s0 = Some busy_state" using busy_history by (simp only: history_iff_run)
  have "submissions (eth_adapter 1) True busy_events ?s0 = []"
    by (simp add: busy_events_def sleepy_events_def sender_new_def acquire_permit_def pop_or_park_def wake_up_def
        add_message_def MAX_IN_FLIGHT_TRANSACTIONS_def push_default queue_pop_def queue_take_def heap_pop_def)
      (simp add: queue_new_def queue_pop_def queue_take_def heap_pop_def split: option.split)
  then show ?thesis
    using run bind send live fee(2)
    by (intro exI [of _ fee]) (simp add: sent_events_def history_iff_run fold_opt_append submissions_append [OF run] busy_state_def)
qed

subsection \<open>Properties\<close>

text \<open>
  C3: A message is executed at most as often as it was added, retries and replacements
  included. \<open>mined\<close> is what the chain made of the sender's submissions in a history in range,
  whatever it dropped, delayed or reordered: some of them, at most one for each nonce of the
  account. Up to the retry counter, the multiset of mined messages is part of the multiset
  of messages added.
\<close>
theorem executed_at_most_once:
  assumes "history (eth_adapter cid) oc (sender_new f r) evs s" and "eth_history_ok b f r evs"
    and "set mined \<subseteq> set (submissions (eth_adapter cid) oc evs (sender_new f r))" and "distinct (map sub_token mined)"
  shows "mset (map (\<lambda>x. intent (sub_msg x)) mined) \<subseteq># mset (map intent (added evs))"
proof -
  obtain popped where p: "accounted_by popped (added evs) s"
    "logged popped (submissions (eth_adapter cid) oc evs (sender_new f r)) s"
    using eth.history_logged [OF assms(1), of b] assms(2) by (auto simp: eth_history_ok_def eth_event_ok_iff)
  have m: "sub_task x < length popped" "intent (sub_msg x) = intent (popped ! sub_task x)" if "x \<in> set mined" for x
  proof -
    have "x \<in> set (submissions (eth_adapter cid) oc evs (sender_new f r))" using assms(3) that by blast
    then show "sub_task x < length popped" "intent (sub_msg x) = intent (popped ! sub_task x)"
      using p(2) unfolding logged_def same_intent_iff by metis+
  qed
  have "sub_token x = sub_token y" if "x \<in> set mined" "y \<in> set mined" "sub_task x = sub_task y" for x y
    using p(2) assms(3) that unfolding logged_def by blast
  then have "inj_on sub_task (set mined)" using assms(4) by (auto simp: distinct_map intro!: inj_onI dest: inj_onD)
  then have d: "distinct (map sub_task mined)" using assms(4) by (simp add: distinct_map)
  have "mset (map ((!) (map intent popped)) (map sub_task mined)) \<subseteq># mset (map intent popped)"
    using m(1) by (intro mset_map_nth_subset [OF d]) auto
  moreover have "map ((!) (map intent popped)) (map sub_task mined) = map (\<lambda>x. intent (sub_msg x)) mined"
    using m by simp
  ultimately have part: "mset (map (\<lambda>x. intent (sub_msg x)) mined) \<subseteq># mset (map intent popped)" by (simp only:)
  have "mset popped \<subseteq># mset (added evs)" using p(1) unfolding accounted_by_def by (metis mset_subset_eq_add_right)
  then have "mset (map intent popped) \<subseteq># mset (map intent (added evs))" by (simp add: image_mset_subseteq_mono)
  with part show ?thesis by (rule subset_mset.order_trans)
qed

theorem executed_at_most_once_witness:
  "\<exists>x. submissions (eth_adapter 1) True sent_events (sender_new gas_price_new \<lparr>current = 0, in_flight = {}\<rparr>) = [x] \<and>
     {#intent (sub_msg x)#} \<subseteq># mset (map intent (added sent_events))"
proof -
  obtain fee where h: "history (eth_adapter 1) True (sender_new gas_price_new \<lparr>current = 0, in_flight = {}\<rparr>) sent_events (sent_state fee)"
    and sub: "submissions (eth_adapter 1) True sent_events (sender_new gas_price_new \<lparr>current = 0, in_flight = {}\<rparr>) =
      [\<lparr>sub_task = 0, sub_msg = message_default 0, sub_fee = fee, sub_token = 0\<rparr>]"
    using sent_history by blast
  have "eth_history_ok 0 gas_price_new \<lparr>current = 0, in_flight = {}\<rparr> sent_events"
    using busy_history_ok by (simp add: eth_history_ok_def sent_events_def busy_events_def sleepy_events_def clock_ok_def)
  from executed_at_most_once [OF h this, of "[\<lparr>sub_task = 0, sub_msg = message_default 0, sub_fee = fee, sub_token = 0\<rparr>]"] sub
  show ?thesis by simp
qed

text \<open>
  C9: A confirmed nonce is never given to another message: after a task has seen its
  transaction confirmed, nothing that the sender submits in any continuation of the history
  carries that nonce, although the nonce manager keeps its baseline behind it until the next
  synchronisation.
\<close>
theorem confirmed_nonce_never_reused:
  assumes "history (eth_adapter cid) oc (sender_new f r) evs s"
    and "tasks s ! i = Awaiting m fee n cnt t" and "client_send (eth_adapter cid) oc m fee n rep = Some (Inr (Confirmed h))"
    and "exec (eth_adapter cid) oc (TaskStep i (Reply rep j)) s = Some s1"
    and "fold_opt (exec (eth_adapter cid) oc) later s1 = Some s2"
    and "eth_history_ok b f r (evs @ TaskStep i (Reply rep j) # later)"
  shows "\<forall>x \<in> set (submissions (eth_adapter cid) oc later s1). sub_token x \<noteq> n"
proof -
  let ?ev = "TaskStep i (Reply rep j)"
  have ok: "eth_history_ok b f r evs" "eth.event_ok b ?ev" "\<forall>ev \<in> set later. eth.event_ok b ev"
    and len: "b + length evs < 2 ^ 64" "Suc (b + length evs) + length later \<le> 2 ^ 64"
    using assms(6) by (simp_all add: eth_history_ok_def eth_event_ok_iff)
  have safe: "eth.safe (b + length evs) s" using eth_history_safe(1) [OF assms(1) ok(1)] .
  have "eth.safe (Suc (b + length evs)) s1" using eth.exec_safe [OF safe ok(2) _ len(1) assms(4)] by simp
  moreover have "eth.spent n s1"
    using eth.confirmed_spent [OF safe _ len(1) assms(4,2,3)] ok(2) by simp
  ultimately show ?thesis
    using eth.spent_never_submitted [OF assms(5) _ _ ok(3)] len(2) by simp
qed

definition ex_confirmed :: eth_reply where
  "ex_confirmed = \<lparr>reply_submit = (\<lambda>_. Inr 9), reply_register = Inr (), reply_watch = Inr 9,
     reply_receipt = (\<lambda>_. Inr (Some \<lparr>receipt_status = True, receipt_block_number = Some 5\<rparr>))\<rparr>"

theorem confirmed_nonce_never_reused_witness:
  "\<exists>fee s1 s2. exec (eth_adapter 1) True (TaskStep 0 (Reply ex_confirmed 2)) (sent_state fee) = Some s1 \<and>
     exec (eth_adapter 1) True (AddMessage (message_default 0) 0) s1 = Some s2 \<and>
     0 \<notin> sub_token ` set (submissions (eth_adapter 1) True [AddMessage (message_default 0) 0] s1)"
proof -
  obtain fee where fee: "eth_fee_ok 0 fee"
    and h: "history (eth_adapter 1) True (sender_new gas_price_new \<lparr>current = 0, in_flight = {}\<rparr>) sent_events (sent_state fee)"
    using sent_history by blast
  obtain tx where "build_tx True 1 (message_default 0) fee 0 = Some tx"
    using build_tx_value [of fee True 1 "message_default 0" 0] eth_fee_ok_bound [OF fee] fee by (auto simp: eth_fee_ok_def)
  then have send: "client_send (eth_adapter 1) True (message_default 0) fee 0 ex_confirmed = Some (Inr (Confirmed 9))"
    by (simp add: eth_send_transaction_def ex_confirmed_def receipt_outcome_def)
  have task: "tasks (sent_state fee) ! 0 = Awaiting (message_default 0) fee 0 0 0" by (simp add: sent_state_def)
  have ok: "eth_history_ok 0 gas_price_new \<lparr>current = 0, in_flight = {}\<rparr>
      (sent_events @ TaskStep 0 (Reply ex_confirmed 2) # [AddMessage (message_default 0) 0])"
    using busy_history_ok by (simp add: eth_history_ok_def sent_events_def busy_events_def sleepy_events_def clock_ok_def max_latency_def)
  obtain s1 where s1: "exec (eth_adapter 1) True (TaskStep 0 (Reply ex_confirmed 2)) (sent_state fee) = Some s1"
    by (simp add: run_task_def sent_state_def)
  then have run: "run_task (eth_adapter 1) True 0 (Reply ex_confirmed 2) (sent_state fee) = Some s1" by simp
  obtain t u where "task_step (eth_adapter 1) True (Reply ex_confirmed 2) (tasks (sent_state fee) ! 0) (sent_state fee) = Some (t, u)"
    "queue s1 = queue u" by (rule run_taskE [OF run]) simp
  then have "queue s1 = queue_new"
    using task_step_queue [of "eth_adapter 1" True "Reply ex_confirmed 2" "tasks (sent_state fee) ! 0" "sent_state fee" t u] task
    by (auto simp: sent_state_def busy_state_def)
  then obtain s2 where s2: "exec (eth_adapter 1) True (AddMessage (message_default 0) 0) s1 = Some s2"
    using push_default [of True] by (simp add: add_message_def)
  then have "fold_opt (exec (eth_adapter 1) True) [AddMessage (message_default 0) 0] s1 = Some s2" by simp
  from confirmed_nonce_never_reused [OF h task send s1 this ok] show ?thesis using s1 s2 by (auto simp del: exec.simps)
qed

end
