(* ===== verification/Fee_Locks.thy ===== *)
theory Fee_Locks
  imports Ethereum
begin

text \<open>
  The gas price manager of crates/bulkmail/src/gas_price.rs under its two locks. A call takes
  one lock, drops it and takes the other, so that other calls can run in between: a fee is
  computed from an estimate and a window that may belong to different moments. The theorem
  says what still holds for every interleaving of any number of calls.
\<close>

subsection \<open>Calls in steps\<close>

text \<open>Each step is one critical section; no call holds both locks.\<close>

datatype fee_call =
    Pricing u32
  | Estimated u32 u128
  | Priced u32 u128 u128
  | Recording duration u128
  | Sampled u128
  | Recorded
  | CallPanicked

definition push_sample :: "duration \<Rightarrow> gas_price_manager \<Rightarrow> gas_price_manager" where
  "push_sample d g =
     (let times = confirmation_times g @ [d]
      in g\<lparr>confirmation_times := if CONFIRMATION_TIME_WINDOW < length times then tl times else times\<rparr>)"

definition blend_fee :: "bool \<Rightarrow> u128 \<Rightarrow> gas_price_manager \<Rightarrow> gas_price_manager option" where
  "blend_fee oc used g = do { total \<leftarrow> rust_add oc (priority_fee g) used; Some (g\<lparr>priority_fee := total div 2\<rparr>) }"

fun call_step :: "bool \<Rightarrow> fee_call \<Rightarrow> gas_price_manager \<Rightarrow> (fee_call \<times> gas_price_manager) option" where
  "call_step oc (Pricing p) g = Some (Estimated p (priority_fee g), g)"
| "call_step oc (Estimated p base) g =
     Some (case calculate_priority_fee oc (g\<lparr>priority_fee := base\<rparr>) p of
             None \<Rightarrow> CallPanicked
           | Some fee \<Rightarrow> Priced p (get_base_fee g) fee, g)"
| "call_step oc (Recording d used) g = Some (Sampled used, push_sample d g)"
| "call_step oc (Sampled used) g =
     Some (case blend_fee oc used g of None \<Rightarrow> (CallPanicked, g) | Some g' \<Rightarrow> (Recorded, g'))"
| "call_step oc _ g = None"

fun_cases call_step_SomeE: "call_step oc c g = Some (c', g')"

text \<open>A call that runs alone is the sequential code.\<close>

lemma alone_get_gas_price:
  "(call_step oc (Pricing p) g \<bind> (\<lambda>(c, g). call_step oc c g)) =
   Some (case get_gas_price oc g p of Some (Inr (base, fee)) \<Rightarrow> Priced p base fee | _ \<Rightarrow> CallPanicked, g)"
  by (simp add: get_gas_price_def split: option.split)

lemma alone_update:
  "update_on_confirmation oc d used g = Some g' \<Longrightarrow>
   (call_step oc (Recording d used) g \<bind> (\<lambda>(c, g). call_step oc c g)) = Some (Recorded, g')"
  by (auto simp: update_on_confirmation_def push_sample_def blend_fee_def Let_def bind_eq_Some_conv split: option.split)

text \<open>Runs of several calls; \<open>gs\<close> are the states the manager went through.\<close>

inductive fee_run ::
  "bool \<Rightarrow> fee_call list \<Rightarrow> gas_price_manager \<Rightarrow> gas_price_manager list \<Rightarrow> fee_call list \<Rightarrow> bool" for oc cs0 g0 where
  start: "fee_run oc cs0 g0 [g0] cs0"
| step: "fee_run oc cs0 g0 gs cs \<Longrightarrow> i < length cs \<Longrightarrow> call_step oc (cs ! i) (last gs) = Some (c, g) \<Longrightarrow>
    fee_run oc cs0 g0 (gs @ [g]) (cs[i := c])"

subsection \<open>The invariant\<close>

text \<open>A fee computed from the estimate of one state and the window of the same or a later one.\<close>

definition fee_of_states :: "gas_price_manager list \<Rightarrow> u32 \<Rightarrow> u128 \<Rightarrow> bool" where
  "fee_of_states gs p fee \<longleftrightarrow> (\<exists>j k. j \<le> k \<and> k < length gs \<and>
     unat fee = fee_spec (unat (priority_fee (gs ! j))) (congestion_of (confirmation_times (gs ! k))) (unat p))"

lemma fee_of_states_more: "fee_of_states gs p fee \<Longrightarrow> fee_of_states (gs @ [g]) p fee"
proof -
  assume "fee_of_states gs p fee"
  then obtain j k where "j \<le> k" "k < length gs"
    "unat fee = fee_spec (unat (priority_fee (gs ! j))) (congestion_of (confirmation_times (gs ! k))) (unat p)"
    unfolding fee_of_states_def by blast
  then show ?thesis unfolding fee_of_states_def by (intro exI [of _ j] exI [of _ k]) (simp add: nth_append)
qed

fun call_ok :: "gas_price_manager list \<Rightarrow> nat \<Rightarrow> nat \<Rightarrow> fee_call \<Rightarrow> bool" where
  "call_ok gs lo hi (Pricing p) = True"
| "call_ok gs lo hi (Estimated p base) = (\<exists>j < length gs. base = priority_fee (gs ! j))"
| "call_ok gs lo hi (Priced p base fee) = (base = 2000000000 \<and> fee_of_states gs p fee)"
| "call_ok gs lo hi (Recording d used) = (in_range d used \<and> lo \<le> unat used \<and> unat used \<le> hi)"
| "call_ok gs lo hi (Sampled used) = (unat used < 2 ^ 100 \<and> lo \<le> unat used \<and> unat used \<le> hi)"
| "call_ok gs lo hi Recorded = True"
| "call_ok gs lo hi CallPanicked = False"

definition manager_ok :: "nat \<Rightarrow> nat \<Rightarrow> gas_price_manager \<Rightarrow> bool" where
  "manager_ok lo hi g \<longleftrightarrow> wf_gas_price g \<and> lo \<le> unat (priority_fee g) \<and> unat (priority_fee g) \<le> hi"

lemma call_ok_more: "call_ok gs lo hi c \<Longrightarrow> call_ok (gs @ [g]) lo hi c"
proof (induction gs lo hi c rule: call_ok.induct)
  case (2 gs lo hi p base)
  then show ?case by (auto simp: nth_append intro: less_SucI)
qed (auto simp: fee_of_states_more)

lemma push_sample_ok:
  assumes "manager_ok lo hi g" and "in_range d used"
  shows "manager_ok lo hi (push_sample d g)"
proof -
  have "set (tl (confirmation_times g @ [d])) \<subseteq> insert d (set (confirmation_times g))"
    using list.set_sel(2) [of "confirmation_times g @ [d]"] by auto
  then show ?thesis
    using assms by (auto simp: manager_ok_def wf_gas_price_def in_range_def push_sample_def Let_def gas_price_consts)
qed

lemma blend_fee_ok:
  assumes "manager_ok lo hi g" and "unat used < 2 ^ 100" and "lo \<le> unat used" and "unat used \<le> hi"
  shows "\<exists>g'. blend_fee oc used g = Some g' \<and> manager_ok lo hi g' \<and> confirmation_times g' = confirmation_times g"
proof -
  have b: "unat (priority_fee g) < 2 ^ 100" using assms(1) by (simp add: manager_ok_def wf_gas_price_def)
  then have "unat (priority_fee g) + unat used < 2 ^ 128" using assms(2) by simp
  then have "rust_add oc (priority_fee g) used = Some (priority_fee g + used)"
    "unat ((priority_fee g + used) div 2) = (unat (priority_fee g) + unat used) div 2"
    by (simp_all add: rust_ok unat_div_distrib)
  then show ?thesis using assms b by (auto simp: blend_fee_def manager_ok_def wf_gas_price_def)
qed

lemma call_step_ok:
  assumes "call_step oc c (last gs) = Some (c', g')" and "gs \<noteq> []" and "call_ok gs lo hi c" and "\<forall>g \<in> set gs. manager_ok lo hi g"
  shows "call_ok (gs @ [g']) lo hi c' \<and> manager_ok lo hi g'"
proof -
  have g: "manager_ok lo hi (last gs)" "last gs = gs ! (length gs - 1)" "length gs - 1 < length gs"
    using assms(2,4) by (simp_all add: last_conv_nth)
  show ?thesis
  proof (cases c)
    case (Pricing p)
    then show ?thesis using assms(1) g by (auto simp: nth_append intro!: exI [of _ "length gs - 1"])
  next
    case (Estimated p base)
    then obtain j where j: "j < length gs" "base = priority_fee (gs ! j)" using assms(3) by auto
    have "wf_gas_price ((last gs)\<lparr>priority_fee := base\<rparr>)"
      using g(1) assms(4) nth_mem [OF j(1)] j(2) by (auto simp: manager_ok_def wf_gas_price_def)
    from calculate_priority_fee_value [OF this, of oc p] obtain fee where
      f: "calculate_priority_fee oc ((last gs)\<lparr>priority_fee := base\<rparr>) p = Some fee"
      "unat fee = fee_spec (unat base) (congestion_of (confirmation_times (last gs))) (unat p)" by auto
    then have c': "c' = Priced p (get_base_fee (last gs)) fee" "g' = last gs" using assms(1) Estimated by auto
    have "j \<le> length gs - 1" using j(1) by simp
    then have "fee_of_states gs p fee" unfolding fee_of_states_def using g(2,3) j(2) f(2) by metis
    then have "call_ok gs lo hi c'" by (simp add: c' get_base_fee_def gas_price_consts)
    then show ?thesis using g(1) c'(2) call_ok_more by blast
  next
    case (Recording d used)
    then show ?thesis using assms(1,3) push_sample_ok [OF g(1)] by (auto simp: in_range_def)
  next
    case (Sampled used)
    then show ?thesis using assms(1,3) blend_fee_ok [OF g(1), of used oc] by auto
  qed (use assms in auto)
qed

lemma fee_run_ok:
  assumes "fee_run oc cs0 g0 gs cs" and "\<forall>c \<in> set cs0. call_ok [g0] lo hi c" and "manager_ok lo hi g0"
  shows "gs \<noteq> [] \<and> (\<forall>c \<in> set cs. call_ok gs lo hi c) \<and> (\<forall>g \<in> set gs. manager_ok lo hi g)"
  using assms
proof (induction rule: fee_run.induct)
  case (step gs cs i c g)
  then have IH: "gs \<noteq> []" "\<forall>c \<in> set cs. call_ok gs lo hi c" "\<forall>g \<in> set gs. manager_ok lo hi g" by auto
  have "call_ok gs lo hi (cs ! i)" using IH(2) step.hyps(2) by simp
  from call_step_ok [OF step.hyps(3) IH(1) this IH(3)] show ?case
    using IH call_ok_more set_update_subset_insert [of cs i c] by (auto dest!: subsetD)
qed simp

lemma fee_spec_bounds: "min base 100000000000 \<le> fee_spec base level prio" "fee_spec base level prio \<le> min (6 * base) 100000000000"
proof -
  have m: "1 \<le> unat (multiplier level)" "unat (multiplier level) \<le> 3" by (rule multiplier_range)+
  have p: "pct_val (min prio 100) \<le> 100" using pct_val_le [of "min prio 100"] by simp
  have "base * 1 * 100 \<le> base * unat (multiplier level) * (100 + pct_val (min prio 100))" using m(1) by (intro mult_mono) simp_all
  then have "base * 1 * 100 div 100 \<le> base * unat (multiplier level) * (100 + pct_val (min prio 100)) div 100" by (rule div_le_mono)
  then have "base \<le> base * unat (multiplier level) * (100 + pct_val (min prio 100)) div 100" by simp
  then show "min base 100000000000 \<le> fee_spec base level prio" unfolding fee_spec_def by simp
  have "base * unat (multiplier level) * (100 + pct_val (min prio 100)) \<le> base * 3 * 200" using m(2) p by (intro mult_mono) simp_all
  then have "base * unat (multiplier level) * (100 + pct_val (min prio 100)) div 100 \<le> base * 3 * 200 div 100" by (rule div_le_mono)
  then show "fee_spec base level prio \<le> min (6 * base) 100000000000" unfolding fee_spec_def by simp
qed

subsection \<open>Properties\<close>

text \<open>
  C16: The gas price manager under concurrency: for any number of calls that price messages and
  record confirmations, in any interleaving of their critical sections and in every build, no
  call panics, the window and the estimate stay in range, the estimate stays between the
  bounds of the initial estimate and the fees used, and every price is the fixed base fee with
  a fee between the lower bound and six times the upper one, capped at 100 Gwei; it belongs to
  the estimate of one state of the manager and the window of the same or a later state.
\<close>
theorem interleaved_fees_in_range:
  assumes "fee_run oc cs0 g0 gs cs" and "wf_gas_price g0" and "lo \<le> unat (priority_fee g0)" and "unat (priority_fee g0) \<le> hi"
    and "\<forall>c \<in> set cs0. (\<exists>p. c = Pricing p) \<or>
      (\<exists>d used. c = Recording d used \<and> in_range d used \<and> lo \<le> unat used \<and> unat used \<le> hi)"
  shows "CallPanicked \<notin> set cs \<and> wf_gas_price (last gs) \<and>
    lo \<le> unat (priority_fee (last gs)) \<and> unat (priority_fee (last gs)) \<le> hi \<and>
    (\<forall>p base fee. Priced p base fee \<in> set cs \<longrightarrow> base = 2000000000 \<and> fee_of_states gs p fee \<and>
       min lo 100000000000 \<le> unat fee \<and> unat fee \<le> min (6 * hi) 100000000000)"
proof -
  have "\<forall>c \<in> set cs0. call_ok [g0] lo hi c" using assms(5) by auto
  from fee_run_ok [OF assms(1) this] assms(2-4)
  have ok: "gs \<noteq> []" "\<forall>c \<in> set cs. call_ok gs lo hi c" "\<forall>g \<in> set gs. manager_ok lo hi g" by (simp_all add: manager_ok_def)
  have "min lo 100000000000 \<le> unat fee \<and> unat fee \<le> min (6 * hi) 100000000000" if fee: "fee_of_states gs p fee" for p fee
  proof -
    obtain j k where jk: "j < length gs"
      "unat fee = fee_spec (unat (priority_fee (gs ! j))) (congestion_of (confirmation_times (gs ! k))) (unat p)"
      using fee unfolding fee_of_states_def by (metis le_less_trans)
    have "lo \<le> unat (priority_fee (gs ! j)) \<and> unat (priority_fee (gs ! j)) \<le> hi"
      using ok(3) nth_mem [OF jk(1)] by (simp add: manager_ok_def)
    then show ?thesis
      using fee_spec_bounds [of "unat (priority_fee (gs ! j))" "congestion_of (confirmation_times (gs ! k))" "unat p"] jk(2) by auto
  qed
  moreover have "CallPanicked \<notin> set cs" using ok(2) by auto
  moreover have "manager_ok lo hi (last gs)" using ok(1,3) by simp
  ultimately show ?thesis using ok(2) by (force simp: manager_ok_def)
qed

text \<open>
  A price that runs beside one confirmation: it has read the estimate, then the confirmation
  of a slow transaction runs completely, then it reads the window.
\<close>

definition slow_sample :: duration where "slow_sample = 100 * 10 ^ 9"

definition mixed_run :: "gas_price_manager list" where
  "mixed_run = [gas_price_new, gas_price_new, push_sample slow_sample gas_price_new,
     \<lparr>confirmation_times = [slow_sample], priority_fee = 2000000000\<rparr>, \<lparr>confirmation_times = [slow_sample], priority_fee = 2000000000\<rparr>]"

lemma mixed_price:
  "\<exists>fee. unat fee = 3000000000 \<and> fee_run True [Pricing 0, Recording slow_sample 3000000000] gas_price_new mixed_run
     [Priced 0 2000000000 fee, Recorded]"
proof -
  let ?g1 = "push_sample slow_sample gas_price_new" and ?g2 = "\<lparr>confirmation_times = [slow_sample], priority_fee = 2000000000\<rparr>"
  let ?e = "Estimated 0 (priority_fee gas_price_new)"
  have "wf_gas_price (?g2\<lparr>priority_fee := priority_fee gas_price_new\<rparr>)"
    by (simp add: wf_gas_price_def slow_sample_def gas_price_new_def gas_price_consts)
  from calculate_priority_fee_value [OF this, of True 0] obtain fee where
    f: "calculate_priority_fee True (?g2\<lparr>priority_fee := priority_fee gas_price_new\<rparr>) 0 = Some fee"
    "unat fee = fee_spec (unat (priority_fee gas_price_new)) (congestion_of [slow_sample]) 0" by auto
  have fee: "unat fee = 3000000000"
    using f(2) by (simp add: fee_spec_def congestion_of_def slow_sample_def gas_price_new_def gas_price_consts pct_val_def)
  have blend: "blend_fee True 3000000000 ?g1 = Some ?g2"
    by (simp add: blend_fee_def push_sample_def gas_price_new_def gas_price_consts rust_ok Let_def)
  have 0: "fee_run True [Pricing 0, Recording slow_sample 3000000000] gas_price_new [gas_price_new] [Pricing 0, Recording slow_sample 3000000000]"
    by (rule fee_run.start)
  have 1: "fee_run True [Pricing 0, Recording slow_sample 3000000000] gas_price_new [gas_price_new, gas_price_new]
      [?e, Recording slow_sample 3000000000]" using fee_run.step [OF 0, of 0] by simp
  have 2: "fee_run True [Pricing 0, Recording slow_sample 3000000000] gas_price_new [gas_price_new, gas_price_new, ?g1]
      [?e, Sampled 3000000000]" using fee_run.step [OF 1, of 1] by simp
  have 3: "fee_run True [Pricing 0, Recording slow_sample 3000000000] gas_price_new [gas_price_new, gas_price_new, ?g1, ?g2]
      [?e, Recorded]" using fee_run.step [OF 2, of 1] blend by simp
  have "fee_run True [Pricing 0, Recording slow_sample 3000000000] gas_price_new [gas_price_new, gas_price_new, ?g1, ?g2, ?g2]
      [Priced 0 (get_base_fee ?g2) fee, Recorded]" using fee_run.step [OF 3, of 0] f(1) by simp
  then show ?thesis using fee by (auto simp: mixed_run_def get_base_fee_def gas_price_consts)
qed

text \<open>
  The price is not atomic: before the confirmation the same message costs 2 Gwei, after it 6
  Gwei, and the interleaved call answers 3 Gwei.
\<close>
lemma price_not_atomic:
  "\<exists>fee. fee_run True [Pricing 0, Recording slow_sample 3000000000] gas_price_new mixed_run [Priced 0 2000000000 fee, Recorded] \<and>
     get_gas_price True gas_price_new 0 \<noteq> Some (Inr (2000000000, fee)) \<and>
     get_gas_price True \<lparr>confirmation_times = [slow_sample], priority_fee = 2000000000\<rparr> 0 \<noteq> Some (Inr (2000000000, fee))"
proof -
  obtain fee where f: "unat fee = 3000000000"
    "fee_run True [Pricing 0, Recording slow_sample 3000000000] gas_price_new mixed_run [Priced 0 2000000000 fee, Recorded]"
    using mixed_price by blast
  have "calculate_priority_fee True gas_price_new 0 \<noteq> Some fee"
    using calculate_priority_fee_value [OF wf_gas_price_new, of True 0] f(1)
    by (auto simp: fee_spec_def congestion_of_def gas_price_new_def gas_price_consts pct_val_def)
  moreover have "wf_gas_price \<lparr>confirmation_times = [slow_sample], priority_fee = 2000000000\<rparr>"
    by (simp add: wf_gas_price_def slow_sample_def)
  from calculate_priority_fee_value [OF this, of True 0] f(1)
  have "calculate_priority_fee True \<lparr>confirmation_times = [slow_sample], priority_fee = 2000000000\<rparr> 0 \<noteq> Some fee"
    by (auto simp: fee_spec_def congestion_of_def slow_sample_def pct_val_def)
  ultimately show ?thesis using f(2) by (auto simp: get_gas_price_def)
qed

theorem interleaved_fees_in_range_witness:
  "\<exists>fee. fee_run True [Pricing 0, Recording slow_sample 3000000000] gas_price_new mixed_run [Priced 0 2000000000 fee, Recorded] \<and>
     1000000000 \<le> unat fee \<and> unat fee \<le> 18000000000"
proof -
  obtain fee where f: "fee_run True [Pricing 0, Recording slow_sample 3000000000] gas_price_new mixed_run [Priced 0 2000000000 fee, Recorded]"
    using mixed_price by blast
  have "in_range slow_sample 3000000000" by (simp add: in_range_def slow_sample_def)
  then show ?thesis
    using interleaved_fees_in_range [OF f wf_gas_price_new, of 1000000000 3000000000] f
    by (auto simp: gas_price_new_def gas_price_consts)
qed

end
