(* ===== verification/Decimal.thy ===== *)
theory Decimal
  imports Prelude
begin

text \<open>
  Decimal numbers as the standard library prints and reads them: the \<open>Display\<close> of unsigned
  integers and \<open>str::parse\<close> for \<open>u64\<close>, with their round trip. Both crates format with them.
\<close>

text \<open>
  \<open>str::parse::<u64>\<close>: an optional plus sign, then at least one decimal digit; a value that
  does not fit is an error. \<open>show_nat\<close> is the \<open>Display\<close> of an unsigned integer.
\<close>

definition digit_value :: "char \<Rightarrow> nat option" where
  "digit_value c = (if of_char c \<in> {48..<58 :: nat} then Some (of_char c - 48) else None)"

fun read_digits :: "string \<Rightarrow> nat \<Rightarrow> nat option" where
  "read_digits [] acc = Some acc"
| "read_digits (c # cs) acc =
     do { d \<leftarrow> digit_value c; if 2 ^ 64 \<le> acc * 10 + d then None else read_digits cs (acc * 10 + d) }"

definition parse_u64 :: "string \<Rightarrow> u64 option" where
  "parse_u64 s =
     (let ds = (case s of c # cs \<Rightarrow> if c = CHR ''+'' then cs else s | [] \<Rightarrow> [])
      in if ds = [] then None else map_option of_nat (read_digits ds 0))"

fun show_nat :: "nat \<Rightarrow> string" where
  "show_nat n = (if n < 10 then [char_of (48 + n)] else show_nat (n div 10) @ [char_of (48 + n mod 10)])"

declare show_nat.simps [simp del]

lemma digit_value_digit [simp]: "d < 10 \<Longrightarrow> digit_value (char_of (48 + d)) = Some d"
  by (simp add: digit_value_def)

lemma read_digits_append: "read_digits (xs @ ys) acc = read_digits xs acc \<bind> read_digits ys"
  by (induction xs arbitrary: acc) (auto split: bind_splits)

lemma read_show_nat: "n < 2 ^ 64 \<Longrightarrow> read_digits (show_nat n) 0 = Some n"
proof (induction n rule: less_induct)
  case (less n)
  show ?case
  proof (cases "n < 10")
    case True
    then show ?thesis using less.prems by (simp add: show_nat.simps)
  next
    case False
    then have "read_digits (show_nat (n div 10)) 0 = Some (n div 10)"
      using less.IH [of "n div 10"] less.prems by simp
    moreover have "n div 10 * 10 + n mod 10 = n" by simp
    ultimately show ?thesis
      using False less.prems by (subst show_nat.simps) (simp add: read_digits_append)
  qed
qed

lemma show_nat_head: "\<exists>(d::nat) cs. d < 10 \<and> show_nat n = char_of (48 + d) # cs"
proof (induction n rule: less_induct)
  case (less n)
  show ?case
  proof (cases "n < 10")
    case True
    then show ?thesis by (subst show_nat.simps) auto
  next
    case False
    then obtain d :: nat and cs where "d < 10" "show_nat (n div 10) = char_of (48 + d) # cs"
      using less.IH [of "n div 10"] by auto
    then show ?thesis using False by (subst show_nat.simps) auto
  qed
qed

lemma digit_not_plus: "(d::nat) < 10 \<Longrightarrow> char_of (48 + d) \<noteq> CHR ''+''"
proof
  assume "d < 10" and "char_of (48 + d) = CHR ''+''"
  then have "digit_value CHR ''+'' = Some d" by (metis digit_value_digit)
  then show False by (simp add: digit_value_def)
qed

lemma parse_show_u64 [simp]: "parse_u64 (show_nat (unat w)) = Some w"
proof -
  obtain d :: nat and cs where d: "d < 10" "show_nat (unat w) = char_of (48 + d) # cs" using show_nat_head by blast
  have "unat w < 2 ^ 64" using unat_less_exp [of w] by simp
  then have "read_digits (char_of (48 + d) # cs) 0 = Some (unat w)" using read_show_nat d(2) by metis
  then show ?thesis
    using d digit_not_plus [OF d(1)] by (simp add: parse_u64_def Let_def del: read_digits.simps)
qed

lemma show_nat_digits: "c \<in> set (show_nat n) \<Longrightarrow> digit_value c \<noteq> None"
proof (induction n rule: less_induct)
  case (less n)
  show ?case
  proof (cases "n < 10")
    case True
    then show ?thesis using less.prems by (simp add: show_nat.simps)
  next
    case False
    then have "c \<in> set (show_nat (n div 10)) \<or> c = char_of (48 + n mod 10)"
      using less.prems by (subst (asm) show_nat.simps) auto
    then show ?thesis using False less.IH [of "n div 10"] by auto
  qed
qed

lemma show_nat_nonempty: "show_nat n \<noteq> []"
  using show_nat_head [of n] by auto

lemma digit_char_inj: "a < 10 \<Longrightarrow> b < 10 \<Longrightarrow> (char_of (48 + a) :: char) = char_of (48 + b) \<Longrightarrow> a = (b :: nat)"
  by (metis digit_value_digit option.inject)

lemma show_nat_inj: "show_nat n = show_nat k \<Longrightarrow> n = k"
proof (induction n arbitrary: k rule: less_induct)
  case (less n)
  consider "n < 10" "k < 10" | "n < 10" "10 \<le> k" | "10 \<le> n" "k < 10" | "10 \<le> n" "10 \<le> k" by linarith
  then show ?case
  proof cases
    case 1
    then show ?thesis using less.prems by (simp add: show_nat.simps digit_char_inj)
  next
    case 4
    then have "show_nat (n div 10) @ [char_of (48 + n mod 10)] = show_nat (k div 10) @ [char_of (48 + k mod 10)]"
      using less.prems by (subst (asm) (1 2) show_nat.simps) simp
    then have "show_nat (n div 10) = show_nat (k div 10)" "(char_of (48 + n mod 10) :: char) = char_of (48 + k mod 10)"
      by simp_all
    then have "n div 10 = k div 10" "n mod 10 = k mod 10"
      using less.IH [of "n div 10" "k div 10"] 4 by (auto intro: digit_char_inj)
    then show ?thesis by (metis div_mult_mod_eq)
  qed (use less.prems show_nat_nonempty [of "k div 10"] show_nat_nonempty [of "n div 10"] in
      \<open>simp_all add: show_nat.simps [of n] show_nat.simps [of k] append_eq_Cons_conv Cons_eq_append_conv\<close>)
qed

definition show_word :: "'a::len word \<Rightarrow> string" where
  "show_word w = show_nat (unat w)"

lemma comma_not_digit: "CHR '','' \<notin> set (show_word w)"
proof
  assume "CHR '','' \<in> set (show_word w)"
  then have "digit_value CHR '','' \<noteq> None" using show_nat_digits unfolding show_word_def by blast
  then show False by (simp add: digit_value_def)
qed

lemma show_word_inj: "show_word v = show_word w \<Longrightarrow> v = w"
  by (auto simp: show_word_def word_unat_eq_iff dest: show_nat_inj)

end
