(* ===== verification/Message_Text.thy ===== *)
theory Message_Text
  imports Message Decimal
begin

text \<open>
  The \<open>Display\<close> of a message, message.rs. How alloy prints an address and a 256-bit value is a
  parameter. The text leaves out the payload and determines everything else.
\<close>

text \<open>The derived \<open>Debug\<close> of an \<open>Option\<close>.\<close>

fun debug_option :: "('a \<Rightarrow> string) \<Rightarrow> 'a option \<Rightarrow> string" where
  "debug_option sh None = ''None''"
| "debug_option sh (Some x) = ''Some('' @ sh x @ '')''"

definition message_display :: "(address \<Rightarrow> string) \<Rightarrow> (u256 \<Rightarrow> string) \<Rightarrow> message \<Rightarrow> string" where
  "message_display show_address show_u256 m =
     ''Message { to: '' @ debug_option show_address (msg_to m) @
     '', value: '' @ show_u256 (msg_value m) @
     '', gas: '' @ show_word (msg_gas m) @
     '', priority: '' @ show_word (priority m) @
     '', deadline_ms: '' @ debug_option show_word (deadline_ms m) @
     '', created_at_ms: '' @ show_word (created_at_ms m) @
     '', retry_count: '' @ show_word (retry_count m) @ '' }''"

subsection \<open>Fields between commas\<close>

lemma split_at_char: "c \<notin> set x \<Longrightarrow> c \<notin> set y \<Longrightarrow> x @ c # r = y @ c # r' \<longleftrightarrow> x = y \<and> r = r'"
proof (induction x arbitrary: y)
  case Nil
  then show ?case by (cases y) auto
next
  case (Cons a x)
  then show ?case by (cases y) auto
qed

lemma debug_option_char:
  assumes "\<And>x. CHR '','' \<notin> set (sh x)"
  shows "CHR '','' \<notin> set (debug_option sh v)"
  using assms by (cases v) auto

lemma debug_option_inj:
  assumes "debug_option sh v = debug_option sh w" and "\<And>x y. sh x = sh y \<Longrightarrow> x = y"
  shows "v = w"
  using assms by (cases v; cases w) auto

text \<open>
  The text of a message tells messages apart: if alloy prints different addresses and
  different values differently and puts no comma into them, then two messages with the same
  text agree in every field but the payload, which the text leaves out.
\<close>
lemma message_display_determines:
  assumes "inj show_address" and "\<forall>a. CHR '','' \<notin> set (show_address a)"
    and "inj show_u256" and "\<forall>v. CHR '','' \<notin> set (show_u256 v)"
  shows "message_display show_address show_u256 m = message_display show_address show_u256 m' \<longleftrightarrow>
    m' = m\<lparr>msg_data := msg_data m'\<rparr>"
proof
  assume "message_display show_address show_u256 m = message_display show_address show_u256 m'"
  then have "debug_option show_address (msg_to m) = debug_option show_address (msg_to m')"
    "show_u256 (msg_value m) = show_u256 (msg_value m')" "show_word (msg_gas m) = show_word (msg_gas m')"
    "show_word (priority m) = show_word (priority m')"
    "debug_option show_word (deadline_ms m) = debug_option show_word (deadline_ms m')"
    "show_word (created_at_ms m) = show_word (created_at_ms m')" "show_word (retry_count m) = show_word (retry_count m')"
    using assms(2,4) debug_option_char [of show_address] debug_option_char [of "show_word :: u32 \<Rightarrow> string"]
    by (simp_all add: message_display_def split_at_char comma_not_digit)
  then have "msg_to m = msg_to m'" "msg_value m = msg_value m'" "msg_gas m = msg_gas m'" "priority m = priority m'"
    "deadline_ms m = deadline_ms m'" "created_at_ms m = created_at_ms m'" "retry_count m = retry_count m'"
    using assms(1,3) debug_option_inj [of show_word "deadline_ms m" "deadline_ms m'"]
    by (auto dest: debug_option_inj injD show_word_inj)
  then show "m' = m\<lparr>msg_data := msg_data m'\<rparr>" by simp
next
  assume eq: "m' = m\<lparr>msg_data := msg_data m'\<rparr>"
  show "message_display show_address show_u256 m = message_display show_address show_u256 m'"
    by (subst eq) (simp add: message_display_def)
qed

end
