(* ===== verification/Mempool.thy ===== *)
theory Mempool
  imports F64 "HOL-Library.AList" "HOL-Library.Product_Lexorder"
begin

text \<open>
  The mempool tracker of crates/mempooloracle/src/lib.rs: per-account queues of pending
  transactions, the two ordered indexes, insertion with eviction, the five phases of a
  block, classification and the queries of the handle.

  A \<open>HashMap\<close> is an association list with distinct keys; its order stands for the
  unspecified iteration order. A \<open>BTreeMap\<close> with unit values is the strictly ascending
  list of its keys, in Rust's tuple order, which is the lexicographic one. \<open>usize\<close> is the
  64-bit word of the supported targets. Byte arrays are compared lexicographically, as are
  the words they spell.
\<close>

type_synonym tx_id = "256 word"
type_synonym addr = "160 word"

text \<open>\<open>std::cmp::Reverse\<close>.\<close>

datatype 'a reverse = Reverse (unreverse: 'a)

instantiation reverse :: (linorder) linorder
begin

definition less_eq_reverse :: "'a reverse \<Rightarrow> 'a reverse \<Rightarrow> bool" where
  "less_eq_reverse x y \<longleftrightarrow> unreverse y \<le> unreverse x"

definition less_reverse :: "'a reverse \<Rightarrow> 'a reverse \<Rightarrow> bool" where
  "less_reverse x y \<longleftrightarrow> unreverse y < unreverse x"

instance
  by standard (auto simp: less_eq_reverse_def less_reverse_def reverse.expand)

end

record pending_tx =
  ptx_id :: tx_id
  ptx_sender :: addr
  ptx_nonce :: u64
  max_fee_per_gas :: u128
  max_priority_fee_per_gas :: u128
  gas_limit :: u64

record block_update =
  included_txs :: "pending_tx list"
  new_base_fee :: u128
  gas_used :: u64
  block_gas_limit :: u64

record account_queue =
  confirmed_nonce :: u64
  slots :: "pending_tx option list"

record tracker_config =
  initial_base_fee :: u128
  global_capacity :: u64
  per_account_capacity :: u64
  private_flow_prior :: f64

type_synonym fee_key = "u128 \<times> addr \<times> u64"
type_synonym prio_key = "u128 reverse \<times> addr \<times> u64"

record mempool =
  account_queues :: "(addr \<times> account_queue) list"
  base_fee_eligibility :: "fee_key list"
  prio_index :: "prio_key list"
  config :: tracker_config
  current_base_fee :: u128
  private_flow_ratio :: f64
  last_block_gas_limit :: u64

datatype mempool_event = PendingTransaction pending_tx | NewBlock block_update

datatype tx_classification = Marketable | BaseFeeInvalid | Unmarketable | NonceBound

subsection \<open>Insertion\<close>

definition effective_priority_fee :: "mempool \<Rightarrow> pending_tx \<Rightarrow> u128" where
  "effective_priority_fee m tx =
     min (max_priority_fee_per_gas tx) (saturating_sub (max_fee_per_gas tx) (current_base_fee m))"

text \<open>\<open>slots.get(i)\<close> flattened: the transaction at an index, if there is one.\<close>

definition slot_get :: "account_queue \<Rightarrow> u64 \<Rightarrow> pending_tx option" where
  "slot_get q i = (if unat i < length (slots q) then slots q ! unat i else None)"

text \<open>
  The eviction at the top of \<open>insert\<close>. \<open>None\<close> is a panic; the flag says whether \<open>insert\<close> goes
  on.
\<close>

definition evict :: "bool \<Rightarrow> pending_tx \<Rightarrow> mempool \<Rightarrow> (bool \<times> mempool) option" where
  "evict oc tx m =
     (if length (base_fee_eligibility m) < unat (global_capacity (config m)) then Some (True, m)
      else case prio_index m of
        [] \<Rightarrow> Some (False, m)
      | (worst_fee, worst_addr, worst_nonce) # rest \<Rightarrow>
          if effective_priority_fee m tx \<le> unreverse worst_fee then Some (False, m)
          else
            let m = m\<lparr>prio_index := rest\<rparr> in
            (case map_of (account_queues m) worst_addr of
               None \<Rightarrow> Some (True, m)
             | Some q \<Rightarrow> do {
                 nonce_offset \<leftarrow> rust_sub oc worst_nonce (confirmed_nonce q);
                 Some (True,
                   case slot_get q nonce_offset of
                     None \<Rightarrow> m
                   | Some evicted_tx \<Rightarrow>
                       m\<lparr>base_fee_eligibility := remove1 (max_fee_per_gas evicted_tx, worst_addr, worst_nonce) (base_fee_eligibility m),
                         account_queues := AList.update worst_addr (q\<lparr>slots := (slots q)[unat nonce_offset := None]\<rparr>) (account_queues m)\<rparr>)
               }))"

text \<open>The account queue of a sender, extended downwards when an older nonce arrives.\<close>

definition entry_queue :: "pending_tx \<Rightarrow> mempool \<Rightarrow> account_queue" where
  "entry_queue tx m =
     (case map_of (account_queues m) (ptx_sender tx) of
        Some q \<Rightarrow> q
      | None \<Rightarrow> \<lparr>confirmed_nonce = ptx_nonce tx, slots = []\<rparr>)"

definition prepend_slots :: "bool \<Rightarrow> pending_tx \<Rightarrow> u64 \<Rightarrow> account_queue \<Rightarrow> (bool \<times> account_queue) option" where
  "prepend_slots oc tx cap q =
     (if ptx_nonce tx < confirmed_nonce q then do {
        prepend \<leftarrow> rust_sub oc (confirmed_nonce q) (ptx_nonce tx);
        total \<leftarrow> rust_add oc prepend (of_nat (length (slots q)));
        if cap < total then Some (False, q)
        else Some (True, q\<lparr>slots := replicate (unat prepend) None @ slots q, confirmed_nonce := ptx_nonce tx\<rparr>)
      } else Some (True, q))"

definition put_slot :: "nat \<Rightarrow> pending_tx \<Rightarrow> account_queue \<Rightarrow> account_queue" where
  "put_slot i tx q =
     (let s = (if length (slots q) \<le> i then slots q @ replicate (i + 1 - length (slots q)) None else slots q)
      in q\<lparr>slots := s[i := Some tx]\<rparr>)"

definition place :: "bool \<Rightarrow> pending_tx \<Rightarrow> mempool \<Rightarrow> mempool option" where
  "place oc tx m = do {
     let q = entry_queue tx m;
     let cap = per_account_capacity (config m);
     let a = ptx_sender tx;
     let m = m\<lparr>account_queues := AList.update a q (account_queues m)\<rparr>;
     (go_on, q) \<leftarrow> prepend_slots oc tx cap q;
     if \<not> go_on then Some m
     else do {
       let m = m\<lparr>account_queues := AList.update a q (account_queues m)\<rparr>;
       nonce_offset \<leftarrow> rust_sub oc (ptx_nonce tx) (confirmed_nonce q);
       if cap \<le> nonce_offset then Some m
       else Some (m\<lparr>account_queues := AList.update a (put_slot (unat nonce_offset) tx q) (account_queues m),
            base_fee_eligibility := insort_insert (max_fee_per_gas tx, a, ptx_nonce tx) (base_fee_eligibility m),
            prio_index := insort_insert (Reverse (effective_priority_fee m tx), a, ptx_nonce tx) (prio_index m)\<rparr>)
     }
   }"

definition insert_tx :: "bool \<Rightarrow> pending_tx \<Rightarrow> mempool \<Rightarrow> mempool option" where
  "insert_tx oc tx m = do {
     (go_on, m) \<leftarrow> evict oc tx m;
     if go_on then place oc tx m else Some m
   }"

subsection \<open>A block\<close>

text \<open>The transaction of the pool at a nonce, by the account's queue.\<close>

definition queue_find :: "account_queue \<Rightarrow> u64 \<Rightarrow> pending_tx option" where
  "queue_find q n = (if confirmed_nonce q \<le> n then slot_get q (n - confirmed_nonce q) else None)"

definition find_tx_by_addr_and_nonce :: "mempool \<Rightarrow> addr \<Rightarrow> u64 \<Rightarrow> pending_tx option" where
  "find_tx_by_addr_and_nonce m a n =
     (case map_of (account_queues m) a of None \<Rightarrow> None | Some q \<Rightarrow> queue_find q n)"

text \<open>1. The gas of the block's transactions the pool knew, and the private-flow average.\<close>

definition known_gas :: "bool \<Rightarrow> mempool \<Rightarrow> pending_tx list \<Rightarrow> u64 option" where
  "known_gas oc m txs = fold_opt (\<lambda>tx g.
     (if find_tx_by_addr_and_nonce m (ptx_sender tx) (ptx_nonce tx) \<noteq> None
      then rust_add oc g (gas_limit tx) else Some g)) txs 0"

definition alpha :: f64 where "alpha = to_f64 (1 / 10)"

definition ema :: "f64 \<Rightarrow> f64 \<Rightarrow> f64" where
  "ema observed ratio = f64_add (f64_mul alpha observed) (f64_mul (f64_sub (Finite 1) alpha) ratio)"

definition observe_flow :: "block_update \<Rightarrow> u64 \<Rightarrow> mempool \<Rightarrow> mempool" where
  "observe_flow b known m =
     (if 0 < block_gas_limit b
      then m\<lparr>private_flow_ratio :=
             ema (f64_div (f64_of_word (saturating_sub (gas_used b) known)) (f64_of_word (block_gas_limit b)))
               (private_flow_ratio m)\<rparr>
      else m)\<lparr>last_block_gas_limit := block_gas_limit b\<rparr>"

text \<open>2. A confirmed transaction leaves its slot and the indexes.\<close>

definition remove_confirmed :: "pending_tx \<Rightarrow> mempool \<Rightarrow> mempool" where
  "remove_confirmed tx m =
     (case map_of (account_queues m) (ptx_sender tx) of
        None \<Rightarrow> m
      | Some q \<Rightarrow>
          (case queue_find q (ptx_nonce tx) of
             None \<Rightarrow> m
           | Some mtx \<Rightarrow>
               m\<lparr>account_queues := AList.update (ptx_sender tx)
                    (q\<lparr>slots := (slots q)[unat (ptx_nonce tx - confirmed_nonce q) := None]\<rparr>) (account_queues m),
                 base_fee_eligibility := remove1 (max_fee_per_gas mtx, ptx_sender mtx, ptx_nonce mtx) (base_fee_eligibility m),
                 prio_index := remove1 (Reverse (effective_priority_fee m mtx), ptx_sender mtx, ptx_nonce mtx) (prio_index m)\<rparr>))"

text \<open>3. The confirmed nonce moves past the included one, and the slots below it go.\<close>

definition advance_account :: "bool \<Rightarrow> pending_tx \<Rightarrow> mempool \<Rightarrow> mempool option" where
  "advance_account oc tx m =
     (case map_of (account_queues m) (ptx_sender tx) of
        None \<Rightarrow> Some m
      | Some q \<Rightarrow> do {
          after \<leftarrow> rust_add oc (ptx_nonce tx) 1;
          let new = max (confirmed_nonce q) after;
          drain_count \<leftarrow> rust_sub oc new (confirmed_nonce q);
          let s = (if unat drain_count < length (slots q) then drop (unat drain_count) (slots q) else []);
          Some (m\<lparr>account_queues := AList.update (ptx_sender tx)
                 (q\<lparr>confirmed_nonce := new, slots := (if drain_count > 0 then s else slots q)\<rparr>) (account_queues m)\<rparr>)
        })"

text \<open>5. The keys an account contributes to the rebuilt index: until the first obstacle.\<close>

fun account_keys :: "mempool \<Rightarrow> bool \<Rightarrow> pending_tx option list \<Rightarrow> prio_key list" where
  "account_keys m nonce_bound [] = []"
| "account_keys m nonce_bound (None # rest) = account_keys m True rest"
| "account_keys m nonce_bound (Some tx # rest) =
     (if nonce_bound then account_keys m nonce_bound rest
      else if max_fee_per_gas tx < current_base_fee m then account_keys m True rest
      else if effective_priority_fee m tx > 0
      then (Reverse (effective_priority_fee m tx), ptx_sender tx, ptx_nonce tx) # account_keys m nonce_bound rest
      else account_keys m True rest)"

definition rebuild :: "mempool \<Rightarrow> mempool" where
  "rebuild m = m\<lparr>prio_index :=
     fold insort_insert (concat (map (\<lambda>(a, q). account_keys m False (slots q)) (account_queues m))) []\<rparr>"

definition apply_block :: "bool \<Rightarrow> block_update \<Rightarrow> mempool \<Rightarrow> mempool option" where
  "apply_block oc b m = do {
     known \<leftarrow> known_gas oc m (included_txs b);
     let m = observe_flow b known m;
     let m = fold remove_confirmed (included_txs b) m;
     m \<leftarrow> fold_opt (advance_account oc) (included_txs b) m;
     Some (rebuild (m\<lparr>current_base_fee := new_base_fee b\<rparr>))
   }"

subsection \<open>Queries\<close>

text \<open>
  \<open>classify_transaction\<close>: the loop runs over the offsets below the transaction's own and
  stops at the first obstacle.
\<close>

fun blocked_below :: "mempool \<Rightarrow> pending_tx option list \<Rightarrow> nat \<Rightarrow> bool" where
  "blocked_below m ss 0 = False"
| "blocked_below m [] (Suc n) = True"
| "blocked_below m (None # ss) (Suc n) = True"
| "blocked_below m (Some tx # ss) (Suc n) =
     (max_fee_per_gas tx < current_base_fee m \<or> effective_priority_fee m tx = 0 \<or> blocked_below m ss n)"

definition classify_transaction :: "bool \<Rightarrow> mempool \<Rightarrow> pending_tx \<Rightarrow> tx_classification option" where
  "classify_transaction oc m tx =
     (case map_of (account_queues m) (ptx_sender tx) of
        None \<Rightarrow> Some NonceBound
      | Some q \<Rightarrow> do {
          n \<leftarrow> rust_sub oc (ptx_nonce tx) (confirmed_nonce q);
          Some (if blocked_below m (slots q) (unat n) then NonceBound
                else if max_fee_per_gas tx < current_base_fee m then BaseFeeInvalid
                else if effective_priority_fee m tx = 0 then Unmarketable
                else Marketable)
        })"

definition all_txs :: "mempool \<Rightarrow> pending_tx list" where
  "all_txs m = concat (map (\<lambda>(a, q). List.map_filter id (slots q)) (account_queues m))"

definition find_tx_by_id :: "mempool \<Rightarrow> tx_id \<Rightarrow> pending_tx option" where
  "find_tx_by_id m i = find (\<lambda>tx. ptx_id tx = i) (all_txs m)"

text \<open>The handle's operations; the outer option is a panic, the inner one the answer.\<close>

definition classification :: "bool \<Rightarrow> mempool \<Rightarrow> tx_id \<Rightarrow> tx_classification option option" where
  "classification oc m i =
     (case find_tx_by_id m i of
        None \<Rightarrow> Some None
      | Some tx \<Rightarrow> map_option Some (classify_transaction oc m tx))"

definition is_marketable :: "bool \<Rightarrow> mempool \<Rightarrow> tx_id \<Rightarrow> bool option option" where
  "is_marketable oc m i = map_option (map_option (\<lambda>c. c = Marketable)) (classification oc m i)"

definition gas_ahead :: "bool \<Rightarrow> mempool \<Rightarrow> tx_id \<Rightarrow> u64 option option" where
  "gas_ahead oc m i =
     (case find_tx_by_id m i of
        None \<Rightarrow> Some None
      | Some tx \<Rightarrow> do {
          c \<leftarrow> classify_transaction oc m tx;
          if c \<noteq> Marketable then Some None
          else
            map_option Some
              (fold_opt (\<lambda>(f, a, n) g.
                 (case find_tx_by_addr_and_nonce m a n of
                    None \<Rightarrow> Some g
                  | Some tx_ahead \<Rightarrow> rust_add oc g (gas_limit tx_ahead)))
               (takeWhile (\<lambda>k. k < (Reverse (effective_priority_fee m tx), ptx_sender tx, ptx_nonce tx)) (prio_index m)) 0)
        })"

definition usable_capacity :: "mempool \<Rightarrow> u64" where
  "usable_capacity m =
     f64_to_word (f64_mul (f64_of_word (last_block_gas_limit m)) (f64_sub (Finite 1) (private_flow_ratio m)))"

definition estimated_blocks_to_confirm :: "bool \<Rightarrow> mempool \<Rightarrow> tx_id \<Rightarrow> u64 option option" where
  "estimated_blocks_to_confirm oc m i =
     (case find_tx_by_id m i of
        None \<Rightarrow> Some None
      | Some tx \<Rightarrow> do {
          ahead \<leftarrow> gas_ahead oc m i;
          Some (map_option (\<lambda>g. if usable_capacity m = 0 then - 1
                             else saturating_add g (gas_limit tx) div usable_capacity m) ahead)
        })"

definition priority_queue_view :: "mempool \<Rightarrow> fee_key list" where
  "priority_queue_view m = map (\<lambda>(f, a, n). (unreverse f, a, n)) (prio_index m)"

subsection \<open>The tracker\<close>

definition from_channel :: "bool \<Rightarrow> pending_tx list \<Rightarrow> tracker_config \<Rightarrow> mempool option" where
  "from_channel oc initial_txs cfg =
     fold_opt (insert_tx oc) initial_txs
       \<lparr>account_queues = [], base_fee_eligibility = [], prio_index = [], config = cfg,
        current_base_fee = initial_base_fee cfg, private_flow_ratio = private_flow_prior cfg,
        last_block_gas_limit = 30000000\<rparr>"

fun handle_event :: "bool \<Rightarrow> mempool_event \<Rightarrow> mempool \<Rightarrow> mempool option" where
  "handle_event oc (PendingTransaction tx) m = insert_tx oc tx m"
| "handle_event oc (NewBlock b) m = apply_block oc b m"

text \<open>\<open>run\<close> handles events until the channel closes: the list of all events sent to it.\<close>

definition tracker_run :: "bool \<Rightarrow> mempool_event list \<Rightarrow> mempool \<Rightarrow> mempool option" where
  "tracker_run oc = fold_opt (handle_event oc)"

end
