(* ===== verification/Mempool_Pool.thy ===== *)
theory Mempool_Pool
  imports Mempool
begin

text \<open>
  The tracker as a partial map: \<open>find_tx_by_addr_and_nonce m\<close> gives the pending transaction
  of an account at a nonce. The well-formedness invariant of the state, its preservation by
  every operation, the absence of panics in range, and the effect of insertion, eviction
  and blocks on the map.
\<close>

text \<open>
  In range: nonces below \<open>2^64 - 1\<close> (EIP-2681), and gas limits of a block that sum up to less
  than \<open>2^64\<close>.
\<close>

definition tx_ok :: "pending_tx \<Rightarrow> bool" where
  "tx_ok tx \<longleftrightarrow> unat (ptx_nonce tx) < 2 ^ 64 - 1"

definition block_ok :: "block_update \<Rightarrow> bool" where
  "block_ok b \<longleftrightarrow> (\<forall>tx \<in> set (included_txs b). tx_ok tx) \<and>
     sum_list (map (\<lambda>tx. unat (gas_limit tx)) (included_txs b)) < 2 ^ 64"

fun event_in_range :: "mempool_event \<Rightarrow> bool" where
  "event_in_range (PendingTransaction tx) = tx_ok tx"
| "event_in_range (NewBlock b) = block_ok b"

text \<open>
  Slot \<open>i\<close> of an account holds a transaction of that account with nonce \<open>confirmed + i\<close>; the
  slots respect the per-account capacity and end before the last nonce.
\<close>

definition queue_ok :: "nat \<Rightarrow> addr \<Rightarrow> account_queue \<Rightarrow> bool" where
  "queue_ok cap a q \<longleftrightarrow> length (slots q) \<le> cap \<and> unat (confirmed_nonce q) + length (slots q) < 2 ^ 64 \<and>
     (\<forall>i < length (slots q). \<forall>tx. slots q ! i = Some tx \<longrightarrow>
        ptx_sender tx = a \<and> unat (ptx_nonce tx) = unat (confirmed_nonce q) + i)"

definition wf_mempool :: "mempool \<Rightarrow> bool" where
  "wf_mempool m \<longleftrightarrow>
     distinct (map fst (account_queues m)) \<and>
     (\<forall>a q. map_of (account_queues m) a = Some q \<longrightarrow> queue_ok (unat (per_account_capacity (config m))) a q) \<and>
     sorted (base_fee_eligibility m) \<and> distinct (base_fee_eligibility m) \<and>
     sorted (prio_index m) \<and> distinct (prio_index m) \<and>
     (\<forall>f a n. (f, a, n) \<in> set (prio_index m) \<longrightarrow>
        (\<exists>q. map_of (account_queues m) a = Some q \<and> confirmed_nonce q \<le> n)) \<and>
     (\<forall>a n tx. find_tx_by_addr_and_nonce m a n = Some tx \<longrightarrow> (max_fee_per_gas tx, a, n) \<in> set (base_fee_eligibility m))"

subsection \<open>One account's queue\<close>

lemma queue_find_Some:
  assumes "queue_ok cap a q" and "queue_find q n = Some tx"
  shows "ptx_sender tx = a" and "ptx_nonce tx = n" and "confirmed_nonce q \<le> n"
proof -
  have n: "confirmed_nonce q \<le> n" and i: "unat (n - confirmed_nonce q) < length (slots q)"
    "slots q ! unat (n - confirmed_nonce q) = Some tx"
    using assms(2) by (auto simp: queue_find_def slot_get_def split: if_splits)
  then show "ptx_sender tx = a" "confirmed_nonce q \<le> n" using assms(1) by (auto simp: queue_ok_def)
  have "unat (ptx_nonce tx) = unat (confirmed_nonce q) + unat (n - confirmed_nonce q)"
    using assms(1) i by (simp add: queue_ok_def)
  then show "ptx_nonce tx = n" using n by (simp add: unat_sub_ok word_le_nat_alt word_unat_eq_iff)
qed

text \<open>Reading a slot by its nonce, over the natural numbers.\<close>

lemma queue_find_nat:
  "queue_find q n = (if unat (confirmed_nonce q) \<le> unat n \<and> unat n - unat (confirmed_nonce q) < length (slots q)
     then slots q ! (unat n - unat (confirmed_nonce q)) else None)"
  by (auto simp: queue_find_def slot_get_def unat_sub_ok word_le_nat_alt)

lemma nth_update_same: "j < length xs \<Longrightarrow> xs[i := y] ! j = (if j = i then y else xs ! j)"
  by (cases "i = j") simp_all

lemma queue_ok_clear: "queue_ok cap a q \<Longrightarrow> queue_ok cap a (q\<lparr>slots := (slots q)[i := None]\<rparr>)"
  by (auto simp: queue_ok_def nth_update_same split: if_splits)

lemma queue_find_clear:
  assumes "confirmed_nonce q \<le> n"
  shows "queue_find (q\<lparr>slots := (slots q)[unat (n - confirmed_nonce q) := None]\<rparr>) n'
    = (if n' = n then None else queue_find q n')"
  using assms by (auto simp: queue_find_nat unat_sub_ok nth_update_same word_unat_eq_iff word_le_nat_alt)

lemma prepend_slots_spec:
  assumes "queue_ok (unat cap) a q"
  shows "\<exists>go q'. prepend_slots oc tx cap q = Some (go, q') \<and> queue_ok (unat cap) a q' \<and>
    (\<forall>n. queue_find q' n = queue_find q n) \<and>
    (go \<longrightarrow> confirmed_nonce q' = min (confirmed_nonce q) (ptx_nonce tx)) \<and> (\<not> go \<longrightarrow> q' = q) \<and>
    (go \<longleftrightarrow> unat (confirmed_nonce q) + length (slots q) \<le> unat (ptx_nonce tx) + unat cap \<or> confirmed_nonce q \<le> ptx_nonce tx)"
proof (cases "ptx_nonce tx < confirmed_nonce q")
  case True
  define d where "d = confirmed_nonce q - ptx_nonce tx"
  have d: "unat d = unat (confirmed_nonce q) - unat (ptx_nonce tx)"
    using True by (simp add: d_def unat_sub_ok)
  have lt: "unat (ptx_nonce tx) < unat (confirmed_nonce q)" using True by (simp add: word_less_nat_alt)
  have len: "unat (of_nat (length (slots q)) :: u64) = length (slots q)"
    using assms by (simp add: queue_ok_def unat_of_nat take_bit_nat_eq_self)
  have s: "unat d + length (slots q) < 2 ^ 64" using assms d lt unfolding queue_ok_def by linarith
  have ops: "rust_sub oc (confirmed_nonce q) (ptx_nonce tx) = Some d"
    "rust_add oc d (of_nat (length (slots q))) = Some (d + of_nat (length (slots q)))"
    "unat (d + of_nat (length (slots q))) = unat d + length (slots q)"
    using True s len by (simp_all add: rust_ok d_def)
  let ?q = "q\<lparr>slots := replicate (unat d) None @ slots q, confirmed_nonce := ptx_nonce tx\<rparr>"
  have "queue_ok (unat cap) a ?q" if "unat d + length (slots q) \<le> unat cap"
  proof -
    have c: "unat (confirmed_nonce q) = unat (ptx_nonce tx) + unat d" using d lt by simp
    have "ptx_sender tx' = a \<and> unat (ptx_nonce tx') = unat (ptx_nonce tx) + i"
      if "i < unat d + length (slots q)" "(replicate (unat d) None @ slots q) ! i = Some tx'" for i tx'
    proof -
      have i: "unat d \<le> i" "i - unat d < length (slots q)" "slots q ! (i - unat d) = Some tx'"
        using that by (auto simp: nth_append split: if_splits)
      then have "ptx_sender tx' = a \<and> unat (ptx_nonce tx') = unat (confirmed_nonce q) + (i - unat d)"
        using assms unfolding queue_ok_def by blast
      then show ?thesis using c i(1) by simp
    qed
    then show ?thesis using assms that c by (simp add: queue_ok_def)
  qed
  moreover have "queue_find ?q n = queue_find q n" for n
    using d lt by (auto simp: queue_find_nat nth_append)
  ultimately show ?thesis
    using True ops lt d assms by (auto simp: prepend_slots_def word_less_nat_alt word_le_nat_alt not_less min_def)
next
  case False
  then have "prepend_slots oc tx cap q = Some (True, q)" by (simp add: prepend_slots_def)
  then show ?thesis using assms False by (auto simp: not_less min_def)
qed

lemma put_slot_slots:
  "length (slots (put_slot i tx q)) = max (Suc i) (length (slots q))"
  "j < max (Suc i) (length (slots q)) \<Longrightarrow>
   slots (put_slot i tx q) ! j = (if j = i then Some tx else if j < length (slots q) then slots q ! j else None)"
  "confirmed_nonce (put_slot i tx q) = confirmed_nonce q"
  by (auto simp: put_slot_def Let_def nth_update_same nth_append)

lemma put_slot_ok:
  assumes "queue_ok cap a q" and "confirmed_nonce q \<le> ptx_nonce tx" and "ptx_sender tx = a" and "tx_ok tx"
    and "i = unat (ptx_nonce tx) - unat (confirmed_nonce q)" and "i < cap"
  shows "queue_ok cap a (put_slot i tx q)"
proof -
  have le: "unat (confirmed_nonce q) \<le> unat (ptx_nonce tx)" using assms(2) by (simp add: word_le_nat_alt)
  have q: "length (slots q) \<le> cap" "unat (confirmed_nonce q) + length (slots q) < 2 ^ 64"
    "\<And>i tx. i < length (slots q) \<Longrightarrow> slots q ! i = Some tx \<Longrightarrow>
      ptx_sender tx = a \<and> unat (ptx_nonce tx) = unat (confirmed_nonce q) + i"
    using assms(1) by (auto simp: queue_ok_def)
  have i: "unat (confirmed_nonce q) + i = unat (ptx_nonce tx)" using le assms(5) by simp
  have "unat (confirmed_nonce q) + max (Suc i) (length (slots q)) < 2 ^ 64"
    using q(2) i assms(4) unfolding tx_ok_def by linarith
  then show ?thesis
    using q(1,3) i assms(3,6) unfolding queue_ok_def put_slot_slots(1,3)
    by (auto simp: put_slot_slots(2) split: if_splits)
qed

lemma put_slot_find:
  assumes "confirmed_nonce q \<le> ptx_nonce tx" and "i = unat (ptx_nonce tx) - unat (confirmed_nonce q)"
  shows "queue_find (put_slot i tx q) n = (if n = ptx_nonce tx then Some tx else queue_find q n)"
proof -
  have le: "unat (confirmed_nonce q) \<le> unat (ptx_nonce tx)" using assms(1) by (simp add: word_le_nat_alt)
  show ?thesis
  proof (cases "unat (confirmed_nonce q) \<le> unat n \<and> unat n - unat (confirmed_nonce q) < max (Suc i) (length (slots q))")
    case True
    then have "n = ptx_nonce tx \<longleftrightarrow> unat n - unat (confirmed_nonce q) = i"
      using le assms(2) by (auto simp: word_unat_eq_iff)
    then show ?thesis using True by (simp add: queue_find_nat put_slot_slots)
  next
    case False
    then show ?thesis using le assms(2) by (auto simp: queue_find_nat put_slot_slots(1,3) word_unat_eq_iff)
  qed
qed

subsection \<open>The pool as a partial map\<close>

lemma map_of_update [simp]: "map_of (AList.update k v al) k' = (if k' = k then Some v else map_of al k')"
  by (simp add: update_conv')

lemma find_update:
  assumes "account_queues m' = AList.update a q (account_queues m)"
  shows "find_tx_by_addr_and_nonce m' a' n = (if a' = a then queue_find q n else find_tx_by_addr_and_nonce m a' n)"
  using assms by (simp add: find_tx_by_addr_and_nonce_def)

lemma wf_queue: "wf_mempool m \<Longrightarrow> map_of (account_queues m) a = Some q \<Longrightarrow>
    queue_ok (unat (per_account_capacity (config m))) a q"
  by (simp add: wf_mempool_def)

lemma find_Some:
  assumes "wf_mempool m" and "find_tx_by_addr_and_nonce m a n = Some tx"
  shows "ptx_sender tx = a" and "ptx_nonce tx = n" and "(max_fee_per_gas tx, a, n) \<in> set (base_fee_eligibility m)"
  using assms queue_find_Some [OF wf_queue [OF assms(1)]]
  by (auto simp: find_tx_by_addr_and_nonce_def wf_mempool_def split: option.splits)

text \<open>Whether the sender's queue can take the transaction within the per-account capacity.\<close>

definition fits_account :: "pending_tx \<Rightarrow> mempool \<Rightarrow> bool" where
  "fits_account tx m =
     (let q = entry_queue tx m; cap = unat (per_account_capacity (config m)); n = unat (ptx_nonce tx);
          c = unat (confirmed_nonce q)
      in if n < c then c + length (slots q) \<le> n + cap else n < c + cap)"

text \<open>Sorted lists of keys.\<close>

lemma sorted_remove1 [simp]: "sorted xs \<Longrightarrow> sorted (remove1 x xs)"
  using sorted_map_remove1 [of "\<lambda>x. x" xs x] by simp

lemmas btree_simps = sorted_insort_insert distinct_insort_insert set_insort_insert
  set_remove1_eq distinct_remove1

lemma wf_mempool_replace:
  assumes "wf_mempool m" and "account_queues m' = AList.update a q (account_queues m)" and "config m' = config m"
    and "queue_ok (unat (per_account_capacity (config m))) a q"
    and "sorted (base_fee_eligibility m')" and "distinct (base_fee_eligibility m')"
    and "sorted (prio_index m')" and "distinct (prio_index m')"
    and "\<And>f a' n. (f, a', n) \<in> set (prio_index m') \<Longrightarrow> (f, a', n) \<in> set (prio_index m) \<or> (a' = a \<and> confirmed_nonce q \<le> n)"
    and "\<And>f n. (f, a, n) \<in> set (prio_index m) \<Longrightarrow> confirmed_nonce q \<le> n"
    and "\<And>a' n tx. find_tx_by_addr_and_nonce m' a' n = Some tx \<Longrightarrow> (max_fee_per_gas tx, a', n) \<in> set (base_fee_eligibility m')"
  shows "wf_mempool m'"
  unfolding wf_mempool_def
proof (intro conjI allI impI)
  show "distinct (map fst (account_queues m'))" using assms(1,2) by (simp add: wf_mempool_def distinct_update)
  show "queue_ok (unat (per_account_capacity (config m'))) b p" if "map_of (account_queues m') b = Some p" for b p
    using that assms(1-4) by (auto simp: wf_mempool_def split: if_splits)
  show "\<exists>p. map_of (account_queues m') b = Some p \<and> confirmed_nonce p \<le> n" if "(f, b, n) \<in> set (prio_index m')" for f b n
  proof (cases "b = a")
    case True
    then show ?thesis using assms(9) [OF that] assms(10) assms(2) by auto
  next
    case False
    then have "(f, b, n) \<in> set (prio_index m)" using assms(9) [OF that] by simp
    then show ?thesis using False assms(1,2) unfolding wf_mempool_def by auto
  qed
qed (use assms in auto)

lemma wf_prio_key:
  assumes "wf_mempool m" and "(f, a, n) \<in> set (prio_index m)"
  obtains q where "map_of (account_queues m) a = Some q" and "confirmed_nonce q \<le> n"
  using assms unfolding wf_mempool_def by blast

lemma entry_queue_ok:
  assumes "wf_mempool m" and "tx_ok tx"
  shows "queue_ok (unat (per_account_capacity (config m))) (ptx_sender tx) (entry_queue tx m)"
    and "queue_find (entry_queue tx m) n = find_tx_by_addr_and_nonce m (ptx_sender tx) n"
    and "(f, ptx_sender tx, n) \<in> set (prio_index m) \<Longrightarrow> confirmed_nonce (entry_queue tx m) \<le> n"
proof -
  show "queue_ok (unat (per_account_capacity (config m))) (ptx_sender tx) (entry_queue tx m)"
    "queue_find (entry_queue tx m) n = find_tx_by_addr_and_nonce m (ptx_sender tx) n"
    using wf_queue [OF assms(1), of "ptx_sender tx"] assms(2)
    by (auto simp: entry_queue_def queue_ok_def tx_ok_def find_tx_by_addr_and_nonce_def queue_find_nat
        split: option.splits)
  assume "(f, ptx_sender tx, n) \<in> set (prio_index m)"
  then obtain q where "map_of (account_queues m) (ptx_sender tx) = Some q" "confirmed_nonce q \<le> n"
    using wf_prio_key [OF assms(1)] by blast
  then show "confirmed_nonce (entry_queue tx m) \<le> n" by (simp add: entry_queue_def)
qed

text \<open>Changing only the accounts, at one account, without changing what is found.\<close>

lemma wf_same_find:
  assumes "wf_mempool m" and "queue_ok (unat (per_account_capacity (config m))) a q"
    and "\<And>n. queue_find q n = find_tx_by_addr_and_nonce m a n"
    and "\<And>f n. (f, a, n) \<in> set (prio_index m) \<Longrightarrow> confirmed_nonce q \<le> n"
  shows "wf_mempool (m\<lparr>account_queues := AList.update a q (account_queues m)\<rparr>)"
    and "find_tx_by_addr_and_nonce (m\<lparr>account_queues := AList.update a q (account_queues m)\<rparr>) = find_tx_by_addr_and_nonce m"
proof -
  let ?m = "m\<lparr>account_queues := AList.update a q (account_queues m)\<rparr>"
  show f: "find_tx_by_addr_and_nonce ?m = find_tx_by_addr_and_nonce m"
    using find_update [of ?m a q m] assms(3) by (intro ext) simp
  show "wf_mempool ?m"
    by (rule wf_mempool_replace [OF assms(1)]) (use assms f in \<open>auto simp: wf_mempool_def\<close>)
qed

lemma wf_put:
  assumes "wf_mempool m" and "queue_ok (unat (per_account_capacity (config m))) a q" and "a = ptx_sender tx"
    and "\<And>n. n \<noteq> ptx_nonce tx \<Longrightarrow> queue_find q n = find_tx_by_addr_and_nonce m a n" and "queue_find q (ptx_nonce tx) = Some tx"
    and "\<And>f n. (f, a, n) \<in> set (prio_index m) \<Longrightarrow> confirmed_nonce q \<le> n"
    and "confirmed_nonce q \<le> ptx_nonce tx"
  shows "wf_mempool (m\<lparr>account_queues := AList.update a q (account_queues m),
      base_fee_eligibility := insort_insert (max_fee_per_gas tx, a, ptx_nonce tx) (base_fee_eligibility m),
      prio_index := insort_insert (k, a, ptx_nonce tx) (prio_index m)\<rparr>)" (is "wf_mempool ?m")
proof (rule wf_mempool_replace [OF assms(1), where a = a and q = q])
  fix a' n tx' assume "find_tx_by_addr_and_nonce ?m a' n = Some tx'"
  then show "(max_fee_per_gas tx', a', n) \<in> set (base_fee_eligibility ?m)"
    using find_update [of ?m a q m a' n] assms(4) [of n] assms(5) find_Some(3) [OF assms(1)]
    by (cases "a' = a"; cases "n = ptx_nonce tx") (auto simp: btree_simps)
qed (use assms in \<open>auto simp: btree_simps wf_mempool_def\<close>)

lemma length_insort_insert: "length (insort_insert x xs) \<le> Suc (length xs)"
  by (simp add: insort_insert_key_def)

text \<open>The confirmed nonce of an account the pool has a queue for.\<close>

definition account_base :: "mempool \<Rightarrow> addr \<rightharpoonup> u64" where
  "account_base m a = map_option confirmed_nonce (map_of (account_queues m) a)"

text \<open>
  What an insertion without eviction does: both indexes get the transaction's key exactly if
  it fits its account, whose confirmed nonce stays unless an older nonce lowers it.
\<close>

definition insert_post :: "pending_tx \<Rightarrow> mempool \<Rightarrow> mempool \<Rightarrow> bool" where
  "insert_post tx m m' \<longleftrightarrow> wf_mempool m' \<and> config m' = config m \<and> current_base_fee m' = current_base_fee m \<and>
     private_flow_ratio m' = private_flow_ratio m \<and> last_block_gas_limit m' = last_block_gas_limit m \<and>
     length (base_fee_eligibility m') \<le> Suc (length (base_fee_eligibility m)) \<and>
     set (base_fee_eligibility m') =
       (if fits_account tx m then {(max_fee_per_gas tx, ptx_sender tx, ptx_nonce tx)} else {}) \<union> set (base_fee_eligibility m) \<and>
     set (prio_index m') =
       (if fits_account tx m then {(Reverse (effective_priority_fee m tx), ptx_sender tx, ptx_nonce tx)} else {}) \<union>
       set (prio_index m) \<and>
     (confirmed_nonce (entry_queue tx m) \<le> ptx_nonce tx \<longrightarrow>
        account_base m' (ptx_sender tx) = Some (confirmed_nonce (entry_queue tx m))) \<and>
     (\<forall>a n. find_tx_by_addr_and_nonce m' a n =
        (if a = ptx_sender tx \<and> n = ptx_nonce tx \<and> fits_account tx m then Some tx
         else find_tx_by_addr_and_nonce m a n))"

lemma place_spec:
  assumes "wf_mempool m" and "tx_ok tx"
  shows "\<exists>m'. place oc tx m = Some m' \<and> insert_post tx m m'"
proof -
  let ?a = "ptx_sender tx" and ?cap = "per_account_capacity (config m)" and ?q = "entry_queue tx m"
  let ?m1 = "m\<lparr>account_queues := AList.update ?a ?q (account_queues m)\<rparr>"
  note e = entry_queue_ok [OF assms]
  have m1: "wf_mempool ?m1" "find_tx_by_addr_and_nonce ?m1 = find_tx_by_addr_and_nonce m"
    using wf_same_find [OF assms(1) e(1)] e(2,3) by auto
  obtain go q' where p: "prepend_slots oc tx ?cap ?q = Some (go, q')" "queue_ok (unat ?cap) ?a q'"
    "\<And>n. queue_find q' n = queue_find ?q n" "go \<longrightarrow> confirmed_nonce q' = min (confirmed_nonce ?q) (ptx_nonce tx)"
    "\<not> go \<longrightarrow> q' = ?q"
    "go \<longleftrightarrow> unat (confirmed_nonce ?q) + length (slots ?q) \<le> unat (ptx_nonce tx) + unat ?cap \<or> confirmed_nonce ?q \<le> ptx_nonce tx"
    using prepend_slots_spec [OF e(1), of oc tx] by blast
  show ?thesis
  proof (cases go)
    case False
    then have "\<not> fits_account tx m"
      using p(6) by (auto simp: fits_account_def Let_def word_le_nat_alt)
    then show ?thesis using False p(1) m1 by (simp add: place_def Let_def insert_post_def account_base_def)
  next
    case True
    let ?m2 = "?m1\<lparr>account_queues := AList.update ?a q' (account_queues ?m1)\<rparr>"
    have c: "confirmed_nonce q' \<le> ptx_nonce tx" "confirmed_nonce q' \<le> confirmed_nonce ?q" using p(4) True by auto
    have low: "(f, ?a, n) \<in> set (prio_index m) \<Longrightarrow> confirmed_nonce q' \<le> n" for f n
      using e(3) c(2) by (meson order_trans)
    have m2: "wf_mempool ?m2" "find_tx_by_addr_and_nonce ?m2 = find_tx_by_addr_and_nonce m"
      using wf_same_find [OF m1(1), of ?a q'] p(2,3) e(2) low m1(2) by auto
    let ?i = "ptx_nonce tx - confirmed_nonce q'"
    have i: "rust_sub oc (ptx_nonce tx) (confirmed_nonce q') = Some ?i"
      "unat ?i = unat (ptx_nonce tx) - unat (confirmed_nonce q')" using c(1) by (simp_all add: rust_ok)
    have fit: "fits_account tx m \<longleftrightarrow> unat ?i < unat ?cap"
      using True p(4,6) i(2) by (auto simp: fits_account_def Let_def word_le_nat_alt word_less_nat_alt min_def split: if_splits)
    show ?thesis
    proof (cases "?cap \<le> ?i")
      case True
      then show ?thesis
        using \<open>go\<close> p(1,4) i(1) m2 fit by (auto simp: place_def Let_def insert_post_def word_le_nat_alt account_base_def min_def)
    next
      case False
      let ?q3 = "put_slot (unat ?i) tx q'"
      let ?m3 = "?m2\<lparr>account_queues := AList.update ?a ?q3 (account_queues ?m2),
        base_fee_eligibility := insort_insert (max_fee_per_gas tx, ?a, ptx_nonce tx) (base_fee_eligibility m),
        prio_index := insort_insert (Reverse (effective_priority_fee m tx), ?a, ptx_nonce tx) (prio_index m)\<rparr>"
      have lt: "unat ?i < unat ?cap" using False by (simp add: word_le_nat_alt)
      have q3: "queue_ok (unat ?cap) ?a ?q3" "\<And>n. queue_find ?q3 n = (if n = ptx_nonce tx then Some tx else queue_find q' n)"
        "confirmed_nonce ?q3 = confirmed_nonce q'"
        using put_slot_ok [OF p(2) c(1) refl assms(2) i(2) lt] put_slot_find [OF c(1) i(2)] put_slot_slots(3) by auto
      have "wf_mempool ?m3"
        using wf_put [OF m2(1), of ?a ?q3 tx "Reverse (effective_priority_fee m tx)"] q3 p(3) e(2) c(1) low m2(2) by simp
      moreover have "find_tx_by_addr_and_nonce ?m3 a n = (if a = ?a \<and> n = ptx_nonce tx then Some tx
          else find_tx_by_addr_and_nonce m a n)" for a n
        using find_update [of ?m3 ?a ?q3 ?m2 a n] m2(2) q3(2) p(3) e(2) by simp
      moreover have "place oc tx m = Some ?m3"
        using \<open>go\<close> p(1) i(1) False by (simp add: place_def Let_def effective_priority_fee_def)
      moreover have "confirmed_nonce ?q \<le> ptx_nonce tx \<Longrightarrow> account_base ?m3 ?a = Some (confirmed_nonce ?q)"
        using q3(3) p(4) \<open>go\<close> by (simp add: account_base_def min_absorb1)
      ultimately show ?thesis using fit lt length_insort_insert by (auto simp: insert_post_def set_insort_insert)
    qed
  qed
qed

subsection \<open>Taking a transaction out\<close>

lemma wf_take_out:
  assumes "wf_mempool m" and "map_of (account_queues m) a = Some q" and "confirmed_nonce q \<le> n"
    and "queue_find q n = Some tx" and "sorted P" and "distinct P" and "set P \<subseteq> set (prio_index m)"
    and "m' = m\<lparr>account_queues := AList.update a (q\<lparr>slots := (slots q)[unat (n - confirmed_nonce q) := None]\<rparr>) (account_queues m),
      base_fee_eligibility := remove1 (max_fee_per_gas tx, a, n) (base_fee_eligibility m), prio_index := P\<rparr>"
  shows "wf_mempool m'"
    and "find_tx_by_addr_and_nonce m' a' n' = (if a' = a \<and> n' = n then None else find_tx_by_addr_and_nonce m a' n')"
proof -
  let ?q = "q\<lparr>slots := (slots q)[unat (n - confirmed_nonce q) := None]\<rparr>"
  have f: "find_tx_by_addr_and_nonce m' a' n' = (if a' = a \<and> n' = n then None else find_tx_by_addr_and_nonce m a' n')" for a' n'
    using find_update [of m' a ?q m a' n'] queue_find_clear [OF assms(3), of n'] assms(2,8)
    by (auto simp: find_tx_by_addr_and_nonce_def)
  then show "find_tx_by_addr_and_nonce m' a' n' = (if a' = a \<and> n' = n then None else find_tx_by_addr_and_nonce m a' n')" .
  have low: "confirmed_nonce q \<le> n'" if "(k, a, n') \<in> set (prio_index m)" for k n'
    using wf_prio_key [OF assms(1) that] assms(2) by auto
  show "wf_mempool m'"
  proof (rule wf_mempool_replace [OF assms(1), where a = a and q = ?q])
    fix a' n' tx' assume "find_tx_by_addr_and_nonce m' a' n' = Some tx'"
    then have "\<not> (a' = a \<and> n' = n)" "find_tx_by_addr_and_nonce m a' n' = Some tx'" using f by (auto split: if_splits)
    then show "(max_fee_per_gas tx', a', n') \<in> set (base_fee_eligibility m')"
      using find_Some(3) [OF assms(1)] assms(1,8) by (auto simp: set_remove1_eq wf_mempool_def)
  qed (use assms low queue_ok_clear [OF wf_queue [OF assms(1,2)]] in \<open>auto simp: wf_mempool_def\<close>)
qed

lemma find_prio [simp]: "find_tx_by_addr_and_nonce (m\<lparr>prio_index := P\<rparr>) = find_tx_by_addr_and_nonce m"
  by (intro ext) (simp add: find_tx_by_addr_and_nonce_def)

lemma wf_prio_change:
  assumes "wf_mempool m" and "sorted P" and "distinct P"
    and "\<And>f a n. (f, a, n) \<in> set P \<Longrightarrow> \<exists>q. map_of (account_queues m) a = Some q \<and> confirmed_nonce q \<le> n"
  shows "wf_mempool (m\<lparr>prio_index := P\<rparr>)"
  using assms by (simp add: wf_mempool_def)

lemma wf_prio_subset:
  assumes "wf_mempool m" and "sorted P" and "distinct P" and "set P \<subseteq> set (prio_index m)"
  shows "wf_mempool (m\<lparr>prio_index := P\<rparr>)"
  using assms(4) wf_prio_key [OF assms(1)] by (intro wf_prio_change [OF assms(1-3)]) blast

text \<open>What the eviction does: nothing when there is room; otherwise the first key of the index goes.\<close>

definition evict_post :: "pending_tx \<Rightarrow> mempool \<Rightarrow> bool \<Rightarrow> mempool \<Rightarrow> bool" where
  "evict_post tx m go m' \<longleftrightarrow> wf_mempool m' \<and> config m' = config m \<and> current_base_fee m' = current_base_fee m \<and>
     private_flow_ratio m' = private_flow_ratio m \<and> last_block_gas_limit m' = last_block_gas_limit m \<and>
     length (base_fee_eligibility m') \<le> length (base_fee_eligibility m) \<and>
     (if length (base_fee_eligibility m) < unat (global_capacity (config m)) then go \<and> m' = m
      else if \<not> go then m' = m \<and> (\<forall>(f, a, n) \<in> set (take 1 (prio_index m)). effective_priority_fee m tx \<le> unreverse f)
      else \<exists>f a n rest. prio_index m = (f, a, n) # rest \<and> prio_index m' = rest \<and>
        unreverse f < effective_priority_fee m tx \<and>
        (\<forall>a' n'. find_tx_by_addr_and_nonce m' a' n' =
           (if a' = a \<and> n' = n then None else find_tx_by_addr_and_nonce m a' n')))"

lemma evict_spec:
  assumes "wf_mempool m"
  shows "\<exists>go m'. evict oc tx m = Some (go, m') \<and> evict_post tx m go m'"
proof (cases "length (base_fee_eligibility m) < unat (global_capacity (config m))")
  case True
  then show ?thesis using assms by (auto simp: evict_def evict_post_def)
next
  case full: False
  show ?thesis
  proof (cases "prio_index m")
    case Nil
    then show ?thesis using assms full by (auto simp: evict_def evict_post_def)
  next
    case (Cons k rest)
    obtain f a n where k: "k = (f, a, n)" by (cases k) auto
    show ?thesis
    proof (cases "effective_priority_fee m tx \<le> unreverse f")
      case True
      then show ?thesis using assms full Cons k by (auto simp: evict_def evict_post_def)
    next
      case False
      obtain q where q: "map_of (account_queues m) a = Some q" "confirmed_nonce q \<le> n"
        using wf_prio_key [OF assms, of f a n] Cons k by auto
      have rest: "sorted rest" "distinct rest" "set rest \<subseteq> set (prio_index m)"
        using assms Cons by (auto simp: wf_mempool_def)
      have slot: "slot_get q (n - confirmed_nonce q) = queue_find q n" using q(2) by (simp add: queue_find_def)
      show ?thesis
      proof (cases "queue_find q n")
        case None
        let ?m = "m\<lparr>prio_index := rest\<rparr>"
        have "evict oc tx m = Some (True, ?m)"
          using full Cons k False q slot None by (simp add: evict_def Let_def rust_ok)
        moreover have "find_tx_by_addr_and_nonce m a n = None" using q(1) None by (simp add: find_tx_by_addr_and_nonce_def)
        then have "find_tx_by_addr_and_nonce m a' n' =
            (if a' = a \<and> n' = n then None else find_tx_by_addr_and_nonce m a' n')" for a' n' by simp
        then have "evict_post tx m True ?m"
          using full Cons k False wf_prio_subset [OF assms rest] unfolding evict_post_def by (simp add: not_le)
        ultimately show ?thesis by blast
      next
        case (Some old)
        define m' where "m' = m\<lparr>account_queues := AList.update a (q\<lparr>slots := (slots q)[unat (n - confirmed_nonce q) := None]\<rparr>) (account_queues m),
          base_fee_eligibility := remove1 (max_fee_per_gas old, a, n) (base_fee_eligibility m), prio_index := rest\<rparr>"
        have "evict oc tx m = Some (True, m')"
          using full Cons k False q slot Some by (simp add: evict_def Let_def rust_ok m'_def)
        moreover have "length (base_fee_eligibility m') \<le> length (base_fee_eligibility m)"
          by (simp add: m'_def length_remove1)
        moreover have "config m' = config m" "current_base_fee m' = current_base_fee m" "prio_index m' = rest"
          "private_flow_ratio m' = private_flow_ratio m" "last_block_gas_limit m' = last_block_gas_limit m"
          by (simp_all add: m'_def)
        ultimately show ?thesis
          using full Cons k False wf_take_out [OF assms q Some rest m'_def] by (auto simp: evict_post_def)
      qed
    qed
  qed
qed

lemma insert_tx_total:
  assumes "wf_mempool m" and "tx_ok tx"
  shows "\<exists>m'. insert_tx oc tx m = Some m' \<and> wf_mempool m' \<and> config m' = config m \<and>
    current_base_fee m' = current_base_fee m \<and> private_flow_ratio m' = private_flow_ratio m \<and>
    last_block_gas_limit m' = last_block_gas_limit m"
proof -
  obtain go m1 where m1: "evict oc tx m = Some (go, m1)" "evict_post tx m go m1" using evict_spec [OF assms(1)] by blast
  have "wf_mempool m1" using m1(2) by (simp add: evict_post_def)
  from place_spec [OF this assms(2), of oc] obtain m2 where "place oc tx m1 = Some m2" "insert_post tx m1 m2" by blast
  then show ?thesis
    using m1 by (cases go) (auto simp: insert_tx_def evict_post_def insert_post_def)
qed

subsection \<open>The phases of a block\<close>

lemma remove_confirmed_spec:
  assumes "wf_mempool m"
  shows "wf_mempool (remove_confirmed tx m) \<and> config (remove_confirmed tx m) = config m \<and>
    current_base_fee (remove_confirmed tx m) = current_base_fee m \<and>
    private_flow_ratio (remove_confirmed tx m) = private_flow_ratio m \<and>
    last_block_gas_limit (remove_confirmed tx m) = last_block_gas_limit m \<and>
    (\<forall>a n. find_tx_by_addr_and_nonce (remove_confirmed tx m) a n =
       (if a = ptx_sender tx \<and> n = ptx_nonce tx then None else find_tx_by_addr_and_nonce m a n))"
proof (cases "find_tx_by_addr_and_nonce m (ptx_sender tx) (ptx_nonce tx)")
  case None
  then have "remove_confirmed tx m = m"
    by (auto simp: remove_confirmed_def find_tx_by_addr_and_nonce_def split: option.splits)
  then show ?thesis using assms None by auto
next
  case (Some mtx)
  then obtain q where q: "map_of (account_queues m) (ptx_sender tx) = Some q" "queue_find q (ptx_nonce tx) = Some mtx"
    by (auto simp: find_tx_by_addr_and_nonce_def split: option.splits)
  note k = queue_find_Some [OF wf_queue [OF assms q(1)] q(2)]
  let ?P = "remove1 (Reverse (effective_priority_fee m mtx), ptx_sender mtx, ptx_nonce mtx) (prio_index m)"
  define m' where "m' = m\<lparr>account_queues := AList.update (ptx_sender tx)
        (q\<lparr>slots := (slots q)[unat (ptx_nonce tx - confirmed_nonce q) := None]\<rparr>) (account_queues m),
      base_fee_eligibility := remove1 (max_fee_per_gas mtx, ptx_sender tx, ptx_nonce tx) (base_fee_eligibility m), prio_index := ?P\<rparr>"
  have "remove_confirmed tx m = m'" using q k by (simp add: remove_confirmed_def m'_def)
  moreover have "sorted ?P" "distinct ?P" "set ?P \<subseteq> set (prio_index m)"
    using assms set_remove1_subset by (auto simp: wf_mempool_def)
  note wf_take_out [OF assms q(1) k(3) q(2) this m'_def]
  ultimately show ?thesis by (simp add: m'_def)
qed

text \<open>Between the phases the index of priorities is stale; the rest is well-formed.\<close>

abbreviation wf_accounts :: "mempool \<Rightarrow> bool" where
  "wf_accounts m \<equiv> wf_mempool (m\<lparr>prio_index := []\<rparr>)"

lemma wf_accountsI: "wf_mempool m \<Longrightarrow> wf_accounts m"
  by (rule wf_prio_subset) simp_all

lemma queue_drain:
  assumes "queue_ok cap a q" and "unat n < 2 ^ 64 - 1"
    and "new = max (confirmed_nonce q) (n + 1)" and "d = unat new - unat (confirmed_nonce q)"
    and "q' = q\<lparr>confirmed_nonce := new, slots := drop d (slots q)\<rparr>"
  shows "queue_ok cap a q'" and "queue_find q' n' = (if n' \<le> n then None else queue_find q n')"
proof -
  have s: "unat (n + 1) = Suc (unat n)" using assms(2) by (simp add: rust_ok)
  have new: "unat new = max (unat (confirmed_nonce q)) (Suc (unat n))" by (simp add: assms(3) s)
  then have c: "unat new = unat (confirmed_nonce q) + d" using assms(4) by simp
  have q: "length (slots q) \<le> cap" "unat (confirmed_nonce q) + length (slots q) < 2 ^ 64"
    "\<And>i tx. i < length (slots q) \<Longrightarrow> slots q ! i = Some tx \<Longrightarrow>
      ptx_sender tx = a \<and> unat (ptx_nonce tx) = unat (confirmed_nonce q) + i"
    using assms(1) by (auto simp: queue_ok_def)
  have "unat new + (length (slots q) - d) < 2 ^ 64" using q(2) c unat_less_exp [of new] by (auto simp: max_def)
  moreover have "ptx_sender tx = a \<and> unat (ptx_nonce tx) = unat new + i"
    if "i < length (slots q) - d" "slots q ! (d + i) = Some tx" for i tx
    using q(3) [of "d + i" tx] that c by simp
  ultimately show "queue_ok cap a q'" using q(1) by (simp add: queue_ok_def assms(5))
  show "queue_find q' n' = (if n' \<le> n then None else queue_find q n')"
  proof (cases "unat n' \<le> unat n")
    case True
    then show ?thesis using new by (simp add: queue_find_nat assms(5) word_le_nat_alt)
  next
    case False
    then have le: "unat (confirmed_nonce q) + d \<le> unat n' \<longleftrightarrow> unat (confirmed_nonce q) \<le> unat n'" using new c by auto
    show ?thesis
    proof (cases "unat (confirmed_nonce q) + d \<le> unat n'")
      case True
      then obtain e where "unat n' = unat (confirmed_nonce q) + d + e" using le_Suc_ex by blast
      then show ?thesis using False by (auto simp: queue_find_nat assms(5) word_le_nat_alt c)
    next
      case no: False
      then show ?thesis using False le by (simp add: queue_find_nat assms(5) word_le_nat_alt c)
    qed
  qed
qed

lemma advance_account_spec:
  assumes "wf_accounts m" and "tx_ok tx"
  shows "\<exists>m'. advance_account oc tx m = Some m' \<and> wf_accounts m' \<and> config m' = config m \<and>
    current_base_fee m' = current_base_fee m \<and> private_flow_ratio m' = private_flow_ratio m \<and>
    last_block_gas_limit m' = last_block_gas_limit m \<and>
    (\<forall>a n. find_tx_by_addr_and_nonce m' a n =
       (if a = ptx_sender tx \<and> n \<le> ptx_nonce tx then None else find_tx_by_addr_and_nonce m a n))"
proof (cases "map_of (account_queues m) (ptx_sender tx)")
  case None
  then show ?thesis using assms(1) by (auto simp: advance_account_def find_tx_by_addr_and_nonce_def)
next
  case (Some q)
  define new where "new = max (confirmed_nonce q) (ptx_nonce tx + 1)"
  define d where "d = unat new - unat (confirmed_nonce q)"
  define q' where "q' = q\<lparr>confirmed_nonce := new, slots := drop d (slots q)\<rparr>"
  define m' where "m' = m\<lparr>account_queues := AList.update (ptx_sender tx) q' (account_queues m)\<rparr>"
  have le: "confirmed_nonce q \<le> new" by (simp add: new_def)
  have d: "unat (new - confirmed_nonce q) = d" unfolding d_def by (rule unat_sub_ok) (rule le)
  then have "0 < new - confirmed_nonce q \<longleftrightarrow> 0 < d" by (simp add: word_less_nat_alt)
  moreover have "rust_add oc (ptx_nonce tx) 1 = Some (ptx_nonce tx + 1)" using assms(2) by (simp add: tx_ok_def rust_ok)
  ultimately have "advance_account oc tx m = Some m'"
    using Some d rust_sub_ok [OF le, of oc]
    by (simp add: advance_account_def Let_def new_def [symmetric] m'_def q'_def not_less)
  moreover have qok: "queue_ok (unat (per_account_capacity (config m))) (ptx_sender tx) q"
    using wf_queue [OF assms(1), of "ptx_sender tx" q] Some by simp
  note q' = queue_drain [OF qok _ new_def d_def q'_def]
  have f: "find_tx_by_addr_and_nonce m' a n =
       (if a = ptx_sender tx \<and> n \<le> ptx_nonce tx then None else find_tx_by_addr_and_nonce m a n)" for a n
    using find_update [of m' "ptx_sender tx" q' m a n] q'(2) [of n] assms(2) Some
    by (auto simp: m'_def tx_ok_def find_tx_by_addr_and_nonce_def)
  moreover have "wf_accounts m'"
  proof (rule wf_mempool_replace [OF assms(1), where a = "ptx_sender tx" and q = q'])
    fix a n tx' assume "find_tx_by_addr_and_nonce (m'\<lparr>prio_index := []\<rparr>) a n = Some tx'"
    then show "(max_fee_per_gas tx', a, n) \<in> set (base_fee_eligibility (m'\<lparr>prio_index := []\<rparr>))"
      using f find_Some(3) [OF assms(1)] by (simp add: m'_def split: if_splits)
  qed (use assms q'(1) in \<open>auto simp: m'_def wf_mempool_def tx_ok_def\<close>)
  ultimately show ?thesis by (simp add: m'_def)
qed

end
