(* ===== verification/Mempool_Blocks.thy ===== *)
theory Mempool_Blocks
  imports Mempool_Pool
begin

text \<open>
  Blocks: the effect of \<open>apply_block\<close> on the pool, the equivalence of the rebuilt index with
  \<open>classify_transaction\<close>, the private-flow average, and the queries built on them.
\<close>

lemma wf_mempool_cong:
  "account_queues m' = account_queues m \<Longrightarrow> base_fee_eligibility m' = base_fee_eligibility m \<Longrightarrow>
   prio_index m' = prio_index m \<Longrightarrow> config m' = config m \<Longrightarrow> wf_mempool m' = wf_mempool m"
  unfolding wf_mempool_def find_tx_by_addr_and_nonce_def by (simp only:)

subsection \<open>Known gas\<close>

definition known_sum :: "mempool \<Rightarrow> pending_tx list \<Rightarrow> nat" where
  "known_sum m txs = sum_list (map (\<lambda>tx.
     if find_tx_by_addr_and_nonce m (ptx_sender tx) (ptx_nonce tx) \<noteq> None then unat (gas_limit tx) else 0) txs)"

lemma known_gas_value:
  assumes "sum_list (map (\<lambda>tx. unat (gas_limit tx)) txs) < 2 ^ 64"
  shows "\<exists>g. known_gas oc m txs = Some g \<and> unat g = known_sum m txs"
proof -
  have "\<exists>g'. fold_opt (\<lambda>tx g. if find_tx_by_addr_and_nonce m (ptx_sender tx) (ptx_nonce tx) \<noteq> None
      then rust_add oc g (gas_limit tx) else Some g) txs g = Some g' \<and> unat g' = unat g + known_sum m txs"
    if "unat g + sum_list (map (\<lambda>tx. unat (gas_limit tx)) txs) < 2 ^ 64" for g :: u64
    using that
  proof (induction txs arbitrary: g)
    case (Cons tx txs)
    then have "unat (g + gas_limit tx) = unat g + unat (gas_limit tx)"
      "rust_add oc g (gas_limit tx) = Some (g + gas_limit tx)" by (simp_all add: rust_ok)
    then show ?case using Cons.IH [of "g + gas_limit tx"] Cons.IH [of g] Cons.prems
      by (auto simp: known_sum_def)
  qed (simp add: known_sum_def)
  from this [of 0] show ?thesis using assms by (simp add: known_gas_def)
qed

subsection \<open>Confirmations\<close>

definition same_settings :: "mempool \<Rightarrow> mempool \<Rightarrow> bool" where
  "same_settings m m' \<longleftrightarrow> config m' = config m \<and> current_base_fee m' = current_base_fee m \<and>
     private_flow_ratio m' = private_flow_ratio m \<and> last_block_gas_limit m' = last_block_gas_limit m"

lemma fold_remove_confirmed:
  "wf_mempool m \<Longrightarrow> wf_mempool (fold remove_confirmed txs m) \<and> same_settings m (fold remove_confirmed txs m) \<and>
   (\<forall>a n. find_tx_by_addr_and_nonce (fold remove_confirmed txs m) a n =
      (if \<exists>tx \<in> set txs. ptx_sender tx = a \<and> ptx_nonce tx = n then None else find_tx_by_addr_and_nonce m a n))"
proof (induction txs arbitrary: m)
  case (Cons tx txs)
  have r: "wf_mempool (remove_confirmed tx m)" "same_settings m (remove_confirmed tx m)"
    "\<And>a n. find_tx_by_addr_and_nonce (remove_confirmed tx m) a n =
       (if a = ptx_sender tx \<and> n = ptx_nonce tx then None else find_tx_by_addr_and_nonce m a n)"
    using remove_confirmed_spec [OF Cons.prems] by (auto simp: same_settings_def)
  then show ?case using Cons.IH [OF r(1)] by (auto simp: same_settings_def)
qed (simp add: same_settings_def)

lemma fold_advance_account:
  "wf_accounts m \<Longrightarrow> \<forall>tx \<in> set txs. tx_ok tx \<Longrightarrow>
   \<exists>m'. fold_opt (advance_account oc) txs m = Some m' \<and> wf_accounts m' \<and> same_settings m m' \<and>
   (\<forall>a n. find_tx_by_addr_and_nonce m' a n =
      (if \<exists>tx \<in> set txs. ptx_sender tx = a \<and> n \<le> ptx_nonce tx then None else find_tx_by_addr_and_nonce m a n))"
proof (induction txs arbitrary: m)
  case (Cons tx txs)
  then obtain m1 where m1: "advance_account oc tx m = Some m1" "wf_accounts m1" "same_settings m m1"
    "\<And>a n. find_tx_by_addr_and_nonce m1 a n =
       (if a = ptx_sender tx \<and> n \<le> ptx_nonce tx then None else find_tx_by_addr_and_nonce m a n)"
    using advance_account_spec [of m tx oc] by (auto simp: same_settings_def)
  obtain m2 where "fold_opt (advance_account oc) txs m1 = Some m2" "wf_accounts m2" "same_settings m1 m2"
    "\<And>a n. find_tx_by_addr_and_nonce m2 a n =
      (if \<exists>tx \<in> set txs. ptx_sender tx = a \<and> n \<le> ptx_nonce tx then None else find_tx_by_addr_and_nonce m1 a n)"
    using Cons.IH [OF m1(2)] Cons.prems(2) by auto
  then show ?case using m1(1,3) by (auto simp: same_settings_def m1(4))
qed (simp add: same_settings_def)

subsection \<open>The rebuilt index\<close>

definition can_pay :: "mempool \<Rightarrow> pending_tx \<Rightarrow> bool" where
  "can_pay m tx \<longleftrightarrow> current_base_fee m \<le> max_fee_per_gas tx \<and> 0 < effective_priority_fee m tx"

definition prio_key_of :: "mempool \<Rightarrow> pending_tx \<Rightarrow> prio_key" where
  "prio_key_of m tx = (Reverse (effective_priority_fee m tx), ptx_sender tx, ptx_nonce tx)"

lemma account_keys_bound [simp]: "account_keys m True ss = []"
proof (induction ss)
  case (Cons s ss)
  then show ?case by (cases s) simp_all
qed simp

lemma blocked_below_Cons:
  "blocked_below m (s # ss) (Suc i) \<longleftrightarrow> (case s of None \<Rightarrow> True | Some tx \<Rightarrow> \<not> can_pay m tx \<or> blocked_below m ss i)"
  by (cases s) (auto simp: can_pay_def word_gt_0 not_less)

lemma set_account_keys:
  "k \<in> set (account_keys m False ss) \<longleftrightarrow>
   (\<exists>i tx. i < length ss \<and> ss ! i = Some tx \<and> \<not> blocked_below m ss i \<and> can_pay m tx \<and> k = prio_key_of m tx)"
proof (induction ss)
  case (Cons s ss)
  have split: "(\<exists>i tx. i < length (s # ss) \<and> (s # ss) ! i = Some tx \<and> \<not> blocked_below m (s # ss) i \<and> P tx) \<longleftrightarrow>
      (\<exists>tx. s = Some tx \<and> P tx) \<or>
      (\<exists>i tx. i < length ss \<and> ss ! i = Some tx \<and> \<not> blocked_below m (s # ss) (Suc i) \<and> P tx)" for P
    by (auto simp: less_Suc_eq_0_disj)
  show ?case
    unfolding split [of "\<lambda>tx. can_pay m tx \<and> k = prio_key_of m tx"] blocked_below_Cons
    by (cases s) (auto simp: Cons.IH can_pay_def prio_key_of_def not_less)
qed simp

lemma fold_insort_insert:
  "sorted acc \<Longrightarrow> distinct acc \<Longrightarrow> sorted (fold insort_insert ks acc) \<and> distinct (fold insort_insert ks acc) \<and>
   set (fold insort_insert ks acc) = set ks \<union> set acc"
  by (induction ks arbitrary: acc) (auto simp: btree_simps)

text \<open>What \<open>classify_transaction\<close> says of a transaction of the pool.\<close>

lemma classify_value:
  assumes "wf_mempool m" and "find_tx_by_addr_and_nonce m a n = Some tx" and "map_of (account_queues m) a = Some q"
  shows "classify_transaction oc m tx = Some
    (if blocked_below m (slots q) (unat n - unat (confirmed_nonce q)) then NonceBound
     else if max_fee_per_gas tx < current_base_fee m then BaseFeeInvalid
     else if effective_priority_fee m tx = 0 then Unmarketable else Marketable)"
proof -
  have "queue_find q n = Some tx" using assms(2,3) by (simp add: find_tx_by_addr_and_nonce_def)
  note k = queue_find_Some [OF wf_queue [OF assms(1,3)] this]
  then have "unat (n - confirmed_nonce q) = unat n - unat (confirmed_nonce q)" by (simp add: unat_sub_ok)
  then show ?thesis using k assms(3) by (simp add: classify_transaction_def rust_ok)
qed

lemma classify_total:
  assumes "wf_mempool m" and "find_tx_by_addr_and_nonce m a n = Some tx"
  shows "\<exists>c. classify_transaction oc m tx = Some c"
proof -
  obtain q where "map_of (account_queues m) a = Some q"
    using assms(2) by (auto simp: find_tx_by_addr_and_nonce_def split: option.splits)
  from classify_value [OF assms this] show ?thesis by blast
qed

lemma classify_marketable:
  assumes "wf_mempool m" and "find_tx_by_addr_and_nonce m a n = Some tx" and "map_of (account_queues m) a = Some q"
  shows "classify_transaction oc m tx = Some Marketable \<longleftrightarrow>
    \<not> blocked_below m (slots q) (unat n - unat (confirmed_nonce q)) \<and> can_pay m tx"
  using classify_value [OF assms, of oc] by (auto simp: can_pay_def word_gt_0 not_less)

text \<open>The index holds exactly the marketable transactions of the pool.\<close>

definition index_exact :: "bool \<Rightarrow> mempool \<Rightarrow> bool" where
  "index_exact oc m \<longleftrightarrow> (\<forall>f a n. (f, a, n) \<in> set (prio_index m) \<longleftrightarrow>
     (\<exists>tx. find_tx_by_addr_and_nonce m a n = Some tx \<and> classify_transaction oc m tx = Some Marketable \<and>
       f = Reverse (effective_priority_fee m tx)))"

lemma blocked_below_prio [simp]:
  "effective_priority_fee (m\<lparr>prio_index := P\<rparr>) tx = effective_priority_fee m tx"
  "can_pay (m\<lparr>prio_index := P\<rparr>) tx = can_pay m tx"
  "blocked_below (m\<lparr>prio_index := P\<rparr>) ss i = blocked_below m ss i"
  by (simp_all add: can_pay_def effective_priority_fee_def)
    (induction m ss i rule: blocked_below.induct; simp add: effective_priority_fee_def)

lemma rebuild_keys:
  assumes "wf_accounts m"
  shows "(f, a, n) \<in> set (prio_index (rebuild m)) \<longleftrightarrow>
    (\<exists>q tx. map_of (account_queues m) a = Some q \<and> queue_find q n = Some tx \<and> can_pay m tx \<and>
       \<not> blocked_below m (slots q) (unat n - unat (confirmed_nonce q)) \<and> f = Reverse (effective_priority_fee m tx))"
    (is "?lhs = ?rhs")
proof
  have d: "distinct (map fst (account_queues m))" using assms by (simp add: wf_mempool_def)
  have set: "?lhs \<longleftrightarrow> (\<exists>b q. (b, q) \<in> set (account_queues m) \<and> (f, a, n) \<in> set (account_keys m False (slots q)))"
    by (fastforce simp: rebuild_def fold_insort_insert)
  show ?rhs if l: ?lhs
  proof -
    obtain b q i tx where q: "map_of (account_queues m) b = Some q" and i: "i < length (slots q)" "slots q ! i = Some tx"
      "\<not> blocked_below m (slots q) i" "can_pay m tx" "(f, a, n) = prio_key_of m tx"
      using l set d by (auto simp: set_account_keys)
    have ok: "queue_ok (unat (per_account_capacity (config m))) b q" using wf_queue [OF assms, of b q] q by simp
    then have "ptx_sender tx = b" "unat (ptx_nonce tx) = unat (confirmed_nonce q) + i" using i by (auto simp: queue_ok_def)
    then show ?thesis using q i by (auto simp: prio_key_of_def queue_find_nat)
  qed
  show ?lhs if r: ?rhs
  proof -
    obtain q tx where q: "map_of (account_queues m) a = Some q" "queue_find q n = Some tx" "can_pay m tx"
      "\<not> blocked_below m (slots q) (unat n - unat (confirmed_nonce q))" "f = Reverse (effective_priority_fee m tx)"
      using r by blast
    have "queue_ok (unat (per_account_capacity (config m))) a q" using wf_queue [OF assms, of a q] q(1) by simp
    from queue_find_Some [OF this q(2)] have "(f, a, n) = prio_key_of m tx" using q(5) by (simp add: prio_key_of_def)
    then have "(f, a, n) \<in> set (account_keys m False (slots q))"
      using q(2-4) unfolding set_account_keys queue_find_nat by (auto split: if_splits)
    then show ?thesis using set map_of_SomeD [OF q(1)] by blast
  qed
qed

lemma rebuild_spec:
  assumes "wf_accounts m"
  shows "wf_mempool (rebuild m)" and "index_exact oc (rebuild m)"
    and "find_tx_by_addr_and_nonce (rebuild m) = find_tx_by_addr_and_nonce m"
proof -
  define P where "P = prio_index (rebuild m)"
  have r: "rebuild m = m\<lparr>prio_index := P\<rparr>" by (simp add: P_def rebuild_def)
  have P: "sorted P" "distinct P" by (simp_all add: P_def rebuild_def fold_insort_insert)
  have keys: "\<exists>q. map_of (account_queues m) a = Some q \<and> confirmed_nonce q \<le> n" if k: "(f, a, n) \<in> set P" for f a n
  proof -
    obtain q tx where q: "map_of (account_queues m) a = Some q" "queue_find q n = Some tx"
      using rebuild_keys [OF assms, of f a n] k by (auto simp: P_def)
    have "queue_ok (unat (per_account_capacity (config m))) a q" using wf_queue [OF assms, of a q] q(1) by simp
    from queue_find_Some(3) [OF this q(2)] show ?thesis using q(1) by blast
  qed
  show f: "find_tx_by_addr_and_nonce (rebuild m) = find_tx_by_addr_and_nonce m" by (simp add: r)
  have "wf_mempool ((m\<lparr>prio_index := []\<rparr>)\<lparr>prio_index := P\<rparr>)"
    by (rule wf_prio_change [OF assms P]) (use keys in simp)
  then show wf: "wf_mempool (rebuild m)" by (simp add: r)
  show "index_exact oc (rebuild m)"
    unfolding index_exact_def rebuild_keys [OF assms]
  proof (intro allI)
    fix f a n
    show "(\<exists>q tx. map_of (account_queues m) a = Some q \<and> queue_find q n = Some tx \<and> can_pay m tx \<and>
         \<not> blocked_below m (slots q) (unat n - unat (confirmed_nonce q)) \<and> f = Reverse (effective_priority_fee m tx)) \<longleftrightarrow>
      (\<exists>tx. find_tx_by_addr_and_nonce (rebuild m) a n = Some tx \<and> classify_transaction oc (rebuild m) tx = Some Marketable \<and>
         f = Reverse (effective_priority_fee (rebuild m) tx))"
    proof (cases "map_of (account_queues m) a")
      case None
      then show ?thesis by (simp add: f find_tx_by_addr_and_nonce_def)
    next
      case (Some q)
      then have "map_of (account_queues (rebuild m)) a = Some q" by (simp add: r)
      from classify_marketable [OF wf _ this, of n _ oc] show ?thesis
        using Some by (auto simp: f find_tx_by_addr_and_nonce_def r)
    qed
  qed
qed

lemma apply_block_spec:
  assumes "wf_mempool m" and "block_ok b"
  shows "\<exists>m' g. apply_block oc b m = Some m' \<and> wf_mempool m' \<and> index_exact oc m' \<and> config m' = config m \<and>
    current_base_fee m' = new_base_fee b \<and> last_block_gas_limit m' = block_gas_limit b \<and>
    unat g = known_sum m (included_txs b) \<and>
    private_flow_ratio m' = private_flow_ratio (observe_flow b g m) \<and>
    (\<forall>a n. find_tx_by_addr_and_nonce m' a n =
       (if \<exists>tx \<in> set (included_txs b). ptx_sender tx = a \<and> n \<le> ptx_nonce tx then None
        else find_tx_by_addr_and_nonce m a n))"
proof -
  let ?txs = "included_txs b"
  obtain g where g: "known_gas oc m ?txs = Some g" "unat g = known_sum m ?txs"
    using known_gas_value assms(2) unfolding block_ok_def by blast
  let ?m1 = "observe_flow b g m"
  have m1: "account_queues ?m1 = account_queues m" "base_fee_eligibility ?m1 = base_fee_eligibility m"
    "prio_index ?m1 = prio_index m" "config ?m1 = config m" "last_block_gas_limit ?m1 = block_gas_limit b"
    by (simp_all add: observe_flow_def)
  have f1: "find_tx_by_addr_and_nonce ?m1 = find_tx_by_addr_and_nonce m"
    by (intro ext) (simp add: find_tx_by_addr_and_nonce_def m1)
  have "wf_mempool ?m1" using assms(1) wf_mempool_cong [of ?m1 m] m1 by simp
  note r = fold_remove_confirmed [OF this, of ?txs]
  let ?m2 = "fold remove_confirmed ?txs ?m1"
  obtain m3 where m3: "fold_opt (advance_account oc) ?txs ?m2 = Some m3" "wf_accounts m3" "same_settings ?m2 m3"
    "\<And>a n. find_tx_by_addr_and_nonce m3 a n =
      (if \<exists>tx \<in> set ?txs. ptx_sender tx = a \<and> n \<le> ptx_nonce tx then None else find_tx_by_addr_and_nonce ?m2 a n)"
    using fold_advance_account [of ?m2 ?txs oc] r assms(2) wf_accountsI by (auto simp: block_ok_def)
  let ?m4 = "m3\<lparr>current_base_fee := new_base_fee b\<rparr>"
  have f4: "find_tx_by_addr_and_nonce ?m4 = find_tx_by_addr_and_nonce m3"
    by (intro ext) (simp add: find_tx_by_addr_and_nonce_def)
  have wf4: "wf_accounts ?m4"
    using m3(2) wf_mempool_cong [of "?m4\<lparr>prio_index := []\<rparr>" "m3\<lparr>prio_index := []\<rparr>"] by simp
  have find: "find_tx_by_addr_and_nonce (rebuild ?m4) a n =
      (if \<exists>tx \<in> set ?txs. ptx_sender tx = a \<and> n \<le> ptx_nonce tx then None else find_tx_by_addr_and_nonce m a n)" for a n
    unfolding rebuild_spec(3) [OF wf4] f4 m3(4) using r f1 by auto
  have "apply_block oc b m = Some (rebuild ?m4)"
    using g(1) m3(1) by (simp add: apply_block_def Let_def)
  then show ?thesis
    using rebuild_spec(1,2) [OF wf4] find g(2) r m3(3) m1
    by (auto simp: same_settings_def rebuild_def)
qed

subsection \<open>The private-flow average\<close>

text \<open>The constants 0.1 and 1.0 - 0.1 as floats, and their sum.\<close>

definition tenth :: rat where "tenth = of_int 7205759403792794 / of_int (2 ^ 56)"
definition nine_tenths :: rat where "nine_tenths = of_int 64851834634135144 / of_int (2 ^ 56)"

lemma rnd_tenth: "rnd (of_int 1 / of_int 10) = tenth"
  unfolding tenth_def by (rule rnd_eval [where k = 4]) code_simp+

lemma rnd_tenth_again: "rnd tenth = tenth"
  unfolding tenth_def by (rule rnd_eval [where k = 4]) code_simp+

lemma rnd_nine_tenths_again: "rnd nine_tenths = nine_tenths"
  unfolding nine_tenths_def by (rule rnd_eval [where k = 1]) code_simp+

lemma rnd_nine_tenths: "rnd (1 - tenth) = nine_tenths"
proof -
  have "(1 :: rat) - tenth = of_int (2 ^ 56 - 7205759403792794) / of_int (2 ^ 56)"
    unfolding tenth_def by (simp only: of_int_diff diff_divide_distrib) simp
  also have "rnd \<dots> = nine_tenths" unfolding nine_tenths_def by (rule rnd_eval [where k = 1]) code_simp+
  finally show ?thesis .
qed

lemma rnd_tenths_sum: "rnd (tenth + nine_tenths) = 1"
proof -
  have "tenth + nine_tenths = of_int (7205759403792794 + 64851834634135144) / of_int (2 ^ 56)"
    unfolding tenth_def nine_tenths_def by (simp only: of_int_add add_divide_distrib)
  also have "rnd \<dots> = of_int 1 / of_int 1" by (rule rnd_eval [where k = 0]) code_simp+
  finally show ?thesis by simp
qed


definition unit_f64 :: "f64 \<Rightarrow> bool" where
  "unit_f64 x \<longleftrightarrow> (\<exists>r. x = Finite r \<and> 0 \<le> r \<and> r \<le> 1)"

lemma to_f64_unit: "0 \<le> x \<Longrightarrow> x \<le> 1 \<Longrightarrow> to_f64 x = Finite (rnd x)"
  by (rule to_f64_le [of _ 0]) simp_all

lemma ema_unit:
  assumes "unit_f64 x" and "unit_f64 y"
  shows "unit_f64 (ema x y)"
proof -
  obtain r t where x: "x = Finite r" "0 \<le> r" "r \<le> 1" and y: "y = Finite t" "0 \<le> t" "t \<le> 1"
    using assms by (auto simp: unit_f64_def)
  have c: "0 \<le> tenth" "tenth \<le> 1" "0 \<le> nine_tenths" "nine_tenths \<le> 1" by (simp_all add: tenth_def nine_tenths_def)
  have a: "alpha = Finite tenth" using rnd_tenth by (simp add: alpha_def to_f64_unit)
  have b: "f64_sub (Finite 1) alpha = Finite nine_tenths"
    using c rnd_nine_tenths by (simp add: a f64_sub_def to_f64_unit)
  have u: "0 \<le> rnd (tenth * r)" "rnd (tenth * r) \<le> tenth"
    using rnd_mono [of "tenth * r" tenth] c x mult_left_le [of r tenth] by (simp_all add: rnd_tenth_again rnd_nonneg)
  have v: "0 \<le> rnd (nine_tenths * t)" "rnd (nine_tenths * t) \<le> nine_tenths"
    using rnd_mono [of "nine_tenths * t" nine_tenths] c y mult_left_le [of t nine_tenths]
    by (simp_all add: rnd_nine_tenths_again rnd_nonneg)
  have m: "f64_mul alpha x = Finite (rnd (tenth * r))" "f64_mul (Finite nine_tenths) y = Finite (rnd (nine_tenths * t))"
    using c x y mult_le_one [of tenth r] mult_le_one [of nine_tenths t] by (simp_all add: a to_f64_unit)
  let ?s = "rnd (tenth * r) + rnd (nine_tenths * t)"
  have "rnd ?s \<le> 1" using rnd_mono [of ?s "tenth + nine_tenths"] u v rnd_tenths_sum by simp
  moreover have "0 \<le> rnd ?s" using u v by (intro rnd_nonneg) simp
  moreover have "to_f64 ?s = Finite (rnd ?s)" using u v c by (intro to_f64_le [of _ 1]) simp_all
  ultimately show ?thesis by (simp add: ema_def b m unit_f64_def)
qed

lemma observed_unit:
  assumes "p \<le> (g :: u64)" and "0 < g"
  shows "unit_f64 (f64_div (f64_of_word p) (f64_of_word g))"
proof -
  let ?p = "rnd (of_nat (unat p))" and ?g = "rnd (of_nat (unat g))"
  have "1 \<le> unat g" using assms(2) by (simp add: word_less_nat_alt)
  then have "(1 :: rat) \<le> of_nat (unat g)" by (metis of_nat_1 of_nat_le_iff)
  then have g: "1 \<le> ?g" using rnd_mono [of 1 "of_nat (unat g)"] by simp
  have "(of_nat (unat p) :: rat) \<le> of_nat (unat g)" using assms(1) by (simp only: of_nat_le_iff word_le_nat_alt)
  then have p: "0 \<le> ?p" "?p \<le> ?g" by (simp_all only: rnd_mono rnd_nonneg of_nat_0_le_iff)
  have q: "0 \<le> ?p / ?g" "?p / ?g \<le> 1" using p g by simp_all
  then show ?thesis
    using g rnd_unit [OF q] by (simp only: f64_of_u64 f64_div.simps to_f64_unit) (auto simp: unit_f64_def)
qed

lemma observe_flow_unit:
  assumes "unit_f64 (private_flow_ratio m)" and "gas_used b \<le> block_gas_limit b"
  shows "unit_f64 (private_flow_ratio (observe_flow b g m))"
proof (cases "0 < block_gas_limit b")
  case True
  have "saturating_sub (gas_used b) g \<le> block_gas_limit b"
    using saturating_sub_le [of "gas_used b" g] assms(2) by simp
  from observed_unit [OF this True] show ?thesis
    using True assms(1) by (simp add: observe_flow_def ema_unit)
qed (use assms(1) in \<open>simp add: observe_flow_def\<close>)

subsection \<open>Queries\<close>

lemma in_map_filter_id: "x \<in> set (List.map_filter (\<lambda>x. x) xs) \<longleftrightarrow> Some x \<in> set xs"
  by (force simp: List.map_filter_def)

lemma in_all_txs: "tx \<in> set (all_txs m) \<longleftrightarrow> (\<exists>a q. (a, q) \<in> set (account_queues m) \<and> Some tx \<in> set (slots q))"
  by (force simp: all_txs_def in_map_filter_id id_def)

lemma all_txs_find:
  assumes "wf_mempool m"
  shows "tx \<in> set (all_txs m) \<longleftrightarrow> find_tx_by_addr_and_nonce m (ptx_sender tx) (ptx_nonce tx) = Some tx"
proof
  assume "tx \<in> set (all_txs m)"
  then obtain a q where q: "(a, q) \<in> set (account_queues m)" "Some tx \<in> set (slots q)" by (auto simp: in_all_txs)
  then obtain i where i: "i < length (slots q)" "slots q ! i = Some tx" by (auto simp: in_set_conv_nth)
  have a: "map_of (account_queues m) a = Some q" using q(1) assms by (simp add: wf_mempool_def)
  from wf_queue [OF assms a] have "ptx_sender tx = a" "unat (ptx_nonce tx) = unat (confirmed_nonce q) + i"
    using i by (auto simp: queue_ok_def)
  then show "find_tx_by_addr_and_nonce m (ptx_sender tx) (ptx_nonce tx) = Some tx"
    using a i by (simp add: find_tx_by_addr_and_nonce_def queue_find_nat)
next
  assume "find_tx_by_addr_and_nonce m (ptx_sender tx) (ptx_nonce tx) = Some tx"
  then obtain q where q: "map_of (account_queues m) (ptx_sender tx) = Some q" "queue_find q (ptx_nonce tx) = Some tx"
    by (auto simp: find_tx_by_addr_and_nonce_def split: option.splits)
  then have "Some tx \<in> set (slots q)" by (auto simp: queue_find_nat split: if_splits) (metis nth_mem)
  then show "tx \<in> set (all_txs m)"
    using map_of_SomeD [OF q(1)] by (auto simp: in_all_txs)
qed

lemma find_tx_by_id_Some:
  assumes "wf_mempool m" and "find_tx_by_id m i = Some tx"
  shows "ptx_id tx = i" and "find_tx_by_addr_and_nonce m (ptx_sender tx) (ptx_nonce tx) = Some tx"
  using assms all_txs_find [OF assms(1)] by (auto simp: find_tx_by_id_def find_Some_iff) (metis nth_mem)

lemma find_tx_by_id_None:
  assumes "wf_mempool m"
  shows "find_tx_by_id m i = None \<longleftrightarrow> (\<forall>a n tx. find_tx_by_addr_and_nonce m a n = Some tx \<longrightarrow> ptx_id tx \<noteq> i)"
proof -
  have "find_tx_by_id m i = None \<longleftrightarrow> (\<forall>tx \<in> set (all_txs m). ptx_id tx \<noteq> i)"
    by (auto simp: find_tx_by_id_def find_None_iff)
  then show ?thesis using all_txs_find [OF assms] find_Some(1,2) [OF assms] by blast
qed

end
