(* ===== verification/Mempool_Tracker.thy ===== *)
theory Mempool_Tracker
  imports Mempool_Blocks
begin

text \<open>
  The tracker's life: from the channel's construction through any sequence of events in
  range it neither panics nor loses its invariant. The properties of insertion, eviction,
  blocks and queries.
\<close>

definition empty_pool :: "tracker_config \<Rightarrow> mempool" where
  "empty_pool cfg = \<lparr>account_queues = [], base_fee_eligibility = [], prio_index = [], config = cfg,
     current_base_fee = initial_base_fee cfg, private_flow_ratio = private_flow_prior cfg,
     last_block_gas_limit = 30000000\<rparr>"

lemma wf_empty_pool: "wf_mempool (empty_pool cfg)"
  by (simp add: wf_mempool_def empty_pool_def find_tx_by_addr_and_nonce_def)

text \<open>A block whose gas used stays within its limit, as consensus demands.\<close>

fun flow_ok :: "mempool_event \<Rightarrow> bool" where
  "flow_ok (PendingTransaction tx) = True"
| "flow_ok (NewBlock b) = (gas_used b \<le> block_gas_limit b)"

lemma handle_event_ok:
  assumes "wf_mempool m" and "event_in_range ev"
  shows "\<exists>m'. handle_event oc ev m = Some m' \<and> wf_mempool m' \<and> config m' = config m \<and>
    (unit_f64 (private_flow_ratio m) \<and> flow_ok ev \<longrightarrow> unit_f64 (private_flow_ratio m'))"
proof (cases ev)
  case (PendingTransaction tx)
  then show ?thesis using insert_tx_total [OF assms(1), of tx oc] assms(2) by auto
next
  case (NewBlock b)
  then obtain m' g where "apply_block oc b m = Some m'" "wf_mempool m'" "config m' = config m"
    "private_flow_ratio m' = private_flow_ratio (observe_flow b g m)"
    using apply_block_spec [OF assms(1), of b oc] assms(2) by auto
  then show ?thesis using NewBlock observe_flow_unit [of m b g] by auto
qed

lemma tracker_run_ok:
  "wf_mempool m \<Longrightarrow> \<forall>ev \<in> set evs. event_in_range ev \<Longrightarrow>
   \<exists>m'. tracker_run oc evs m = Some m' \<and> wf_mempool m' \<and> config m' = config m \<and>
     (unit_f64 (private_flow_ratio m) \<and> (\<forall>ev \<in> set evs. flow_ok ev) \<longrightarrow> unit_f64 (private_flow_ratio m'))"
proof (induction evs arbitrary: m)
  case (Cons ev evs)
  then obtain m1 where m1: "handle_event oc ev m = Some m1" "wf_mempool m1" "config m1 = config m"
    "unit_f64 (private_flow_ratio m) \<and> flow_ok ev \<longrightarrow> unit_f64 (private_flow_ratio m1)"
    using handle_event_ok [of m ev oc] by auto
  from Cons.IH [OF m1(2)] Cons.prems(2) show ?case using m1 by (fastforce simp: tracker_run_def)
qed (simp add: tracker_run_def)

lemma from_channel_run: "from_channel oc txs cfg = tracker_run oc (map PendingTransaction txs) (empty_pool cfg)"
proof -
  have "fold_opt (insert_tx oc) txs m = tracker_run oc (map PendingTransaction txs) m" for m
    by (induction txs arbitrary: m) (auto simp: tracker_run_def split: bind_splits)
  then show ?thesis by (simp add: from_channel_def empty_pool_def)
qed

lemma insert_tx_effect:
  assumes "wf_mempool m" and "tx_ok tx" and "length (base_fee_eligibility m) < unat (global_capacity (config m))"
  shows "\<exists>m'. insert_tx oc tx m = Some m' \<and> insert_post tx m m'"
  using place_spec [OF assms(1,2), of oc] assms(3) by (simp add: insert_tx_def evict_def)

subsection \<open>Gas ahead\<close>

lemma takeWhile_sorted: "sorted xs \<Longrightarrow> takeWhile (\<lambda>x. x < k) xs = filter (\<lambda>x. x < k) xs"
proof (induction xs)
  case (Cons x xs)
  then show ?case by (auto simp: filter_empty_conv [symmetric] not_less) (metis filter_False leD order_trans)
qed simp

definition key_gas :: "mempool \<Rightarrow> prio_key \<Rightarrow> nat" where
  "key_gas m = (\<lambda>(f, a, n). case find_tx_by_addr_and_nonce m a n of None \<Rightarrow> 0 | Some tx \<Rightarrow> unat (gas_limit tx))"

lemma fold_gas:
  "unat g + sum_list (map (key_gas m) ks) < 2 ^ 64 \<Longrightarrow>
   \<exists>g'. fold_opt (\<lambda>(f, a, n) g. case find_tx_by_addr_and_nonce m a n of None \<Rightarrow> Some g
      | Some tx_ahead \<Rightarrow> rust_add oc g (gas_limit tx_ahead)) ks g = Some g' \<and> unat g' = unat g + sum_list (map (key_gas m) ks)"
proof (induction ks arbitrary: g)
  case (Cons k ks)
  obtain f a n where k: "k = (f, a, n)" by (cases k) auto
  show ?case
  proof (cases "find_tx_by_addr_and_nonce m a n")
    case None
    then show ?thesis using Cons k by (simp add: key_gas_def)
  next
    case (Some tx)
    then have "unat (g + gas_limit tx) = unat g + unat (gas_limit tx)" "rust_add oc g (gas_limit tx) = Some (g + gas_limit tx)"
      using Cons.prems k by (simp_all add: rust_ok key_gas_def)
    then show ?thesis using Cons.IH [of "g + gas_limit tx"] Cons.prems k Some by (simp add: key_gas_def add.assoc)
  qed
qed simp

lemma gas_ahead_fold:
  assumes "wf_mempool m" and "sum_list (map (key_gas m) (prio_index m)) < 2 ^ 64"
  shows "\<exists>g. fold_opt (\<lambda>(f, a, n) g. case find_tx_by_addr_and_nonce m a n of None \<Rightarrow> Some g
      | Some tx_ahead \<Rightarrow> rust_add oc g (gas_limit tx_ahead)) (takeWhile (\<lambda>k. k < key) (prio_index m)) 0 = Some g \<and>
    unat g = sum_list (map (key_gas m) (filter (\<lambda>k. k < key) (prio_index m)))"
proof -
  let ?ks = "filter (\<lambda>k. k < key) (prio_index m)"
  have t: "takeWhile (\<lambda>k. k < key) (prio_index m) = ?ks"
    using assms(1) takeWhile_sorted [of "prio_index m"] by (simp add: wf_mempool_def)
  have "sum_list (map (key_gas m) ?ks) \<le> sum_list (map (key_gas m) (prio_index m))"
    by (induction "prio_index m" rule: rev_induct) (auto intro: sum_list_filter_le_nat)
  then show ?thesis using fold_gas [of 0 m ?ks oc] assms(2) by (auto simp: t)
qed

lemma gas_ahead_total:
  assumes "wf_mempool m" and "sum_list (map (key_gas m) (prio_index m)) < 2 ^ 64"
  shows "\<exists>r. gas_ahead oc m i = Some r" and "\<exists>r. estimated_blocks_to_confirm oc m i = Some r"
proof -
  show "\<exists>r. gas_ahead oc m i = Some r"
  proof (cases "find_tx_by_id m i")
    case None
    then show ?thesis by (simp add: gas_ahead_def)
  next
    case (Some tx)
    then obtain c where "classify_transaction oc m tx = Some c"
      using classify_total [OF assms(1) find_tx_by_id_Some(2) [OF assms(1)]] by blast
    then show ?thesis
      using Some gas_ahead_fold [OF assms, where key = "(Reverse (effective_priority_fee m tx), ptx_sender tx, ptx_nonce tx)" and oc = oc]
      by (auto simp: gas_ahead_def)
  qed
  then show "\<exists>r. estimated_blocks_to_confirm oc m i = Some r"
    by (auto simp: estimated_blocks_to_confirm_def split: option.splits)
qed

subsection \<open>A pool for the examples\<close>

definition ex_tx :: "tx_id \<Rightarrow> addr \<Rightarrow> u64 \<Rightarrow> u128 \<Rightarrow> pending_tx" where
  "ex_tx i a n fee = \<lparr>ptx_id = i, ptx_sender = a, ptx_nonce = n, max_fee_per_gas = fee,
     max_priority_fee_per_gas = fee, gas_limit = 21000\<rparr>"

definition ex_config :: "u64 \<Rightarrow> tracker_config" where
  "ex_config cap = \<lparr>initial_base_fee = 0, global_capacity = cap, per_account_capacity = 4, private_flow_prior = Finite 0\<rparr>"

definition ex_pool :: mempool where
  "ex_pool = \<lparr>account_queues = [(7, \<lparr>confirmed_nonce = 5, slots = [Some (ex_tx 1 7 5 30), Some (ex_tx 2 7 6 20)]\<rparr>)],
     base_fee_eligibility = [(20, 7, 6), (30, 7, 5)], prio_index = [(Reverse 30, 7, 5), (Reverse 20, 7, 6)],
     config = ex_config 2, current_base_fee = 0, private_flow_ratio = Finite 0, last_block_gas_limit = 30000000\<rparr>"

lemma ex_pool_run: "from_channel oc [ex_tx 1 7 5 30, ex_tx 2 7 6 20] (ex_config 2) = Some ex_pool"
  by (simp add: from_channel_def insert_tx_def evict_def place_def entry_queue_def prepend_slots_def put_slot_def
      ex_tx_def ex_config_def ex_pool_def Let_def rust_ok insort_insert_key_def effective_priority_fee_def
      saturating_sub_def less_eq_reverse_def less_reverse_def)
    (simp add: word_le_nat_alt)

lemma ex_pool_wf: "wf_mempool ex_pool"
proof -
  have "\<forall>ev \<in> set (map PendingTransaction [ex_tx 1 7 5 30, ex_tx 2 7 6 20]). event_in_range ev"
    by (simp add: ex_tx_def tx_ok_def)
  from tracker_run_ok [OF wf_empty_pool [of "ex_config 2"] this, where oc = True] show ?thesis
    using ex_pool_run [of True] by (simp add: from_channel_run)
qed

lemma ex_pool_find: "find_tx_by_addr_and_nonce ex_pool 7 5 = Some (ex_tx 1 7 5 30)"
  by (simp add: ex_pool_def find_tx_by_addr_and_nonce_def queue_find_def slot_get_def)

subsection \<open>Properties\<close>

text \<open>
  C5: The tracker never panics and keeps its invariant: from any initial transactions and
  through any events in range, in every build, the state exists and is well-formed (every
  slot holds a transaction of its account with the slot's nonce, the per-account capacity
  holds, both indexes are ordered, every pending transaction is in the fee index), and the
  private-flow ratio stays between 0 and 1 when the prior and the blocks' gas allow it.
\<close>
theorem tracker_invariant:
  assumes "\<forall>tx \<in> set txs. tx_ok tx" and "\<forall>ev \<in> set evs. event_in_range ev"
  shows "\<exists>m0 m. from_channel oc txs cfg = Some m0 \<and> tracker_run oc evs m0 = Some m \<and> wf_mempool m \<and>
    (unit_f64 (private_flow_prior cfg) \<and> (\<forall>ev \<in> set evs. flow_ok ev) \<longrightarrow> unit_f64 (private_flow_ratio m))"
proof -
  have "\<forall>ev \<in> set (map PendingTransaction txs). event_in_range ev" "\<forall>ev \<in> set (map PendingTransaction txs). flow_ok ev"
    using assms(1) by auto
  then obtain m0 where m0: "from_channel oc txs cfg = Some m0" "wf_mempool m0"
    "unit_f64 (private_flow_prior cfg) \<longrightarrow> unit_f64 (private_flow_ratio m0)"
    using tracker_run_ok [OF wf_empty_pool, of "map PendingTransaction txs" oc cfg]
    by (auto simp: from_channel_run empty_pool_def)
  from tracker_run_ok [OF m0(2) assms(2), of oc] show ?thesis using m0 by auto
qed

theorem tracker_invariant_witness:
  "\<exists>m0 m. from_channel True [ex_tx 1 7 5 30] (ex_config 2) = Some m0 \<and>
    tracker_run True [NewBlock \<lparr>included_txs = [ex_tx 1 7 5 30], new_base_fee = 9, gas_used = 50000, block_gas_limit = 60000\<rparr>] m0 = Some m \<and>
    wf_mempool m \<and> unit_f64 (private_flow_ratio m)"
  using tracker_invariant [of "[ex_tx 1 7 5 30]"
      "[NewBlock \<lparr>included_txs = [ex_tx 1 7 5 30], new_base_fee = 9, gas_used = 50000, block_gas_limit = 60000\<rparr>]"
      True "ex_config 2"]
  by (simp add: ex_tx_def tx_ok_def block_ok_def ex_config_def unit_f64_def)

text \<open>
  C11: A block removes exactly the confirmed past: afterwards a lookup of an account and
  nonce fails if the block included a transaction of that account with this or a later
  nonce, and otherwise answers as before. The base fee and gas limit are the block's.
\<close>
theorem apply_block_effect:
  assumes "wf_mempool m" and "block_ok b"
  shows "\<exists>m'. apply_block oc b m = Some m' \<and> wf_mempool m' \<and>
    current_base_fee m' = new_base_fee b \<and> last_block_gas_limit m' = block_gas_limit b \<and>
    (\<forall>a n. find_tx_by_addr_and_nonce m' a n =
       (if \<exists>tx \<in> set (included_txs b). ptx_sender tx = a \<and> n \<le> ptx_nonce tx then None
        else find_tx_by_addr_and_nonce m a n))"
  using apply_block_spec [OF assms, of oc] by blast

theorem apply_block_effect_witness:
  "\<exists>m'. apply_block True \<lparr>included_txs = [ex_tx 9 7 5 1], new_base_fee = 3, gas_used = 5, block_gas_limit = 6\<rparr> ex_pool = Some m' \<and>
    find_tx_by_addr_and_nonce m' 7 5 = None \<and> find_tx_by_addr_and_nonce m' 7 6 = Some (ex_tx 2 7 6 20)"
proof -
  let ?b = "\<lparr>included_txs = [ex_tx 9 7 5 1], new_base_fee = 3, gas_used = 5, block_gas_limit = 6\<rparr>"
  have "block_ok ?b" by (simp add: block_ok_def ex_tx_def tx_ok_def)
  from apply_block_effect [OF ex_pool_wf this, of True] obtain m' where "apply_block True ?b ex_pool = Some m'"
    and f: "\<forall>a n. find_tx_by_addr_and_nonce m' a n =
       (if \<exists>tx \<in> set (included_txs ?b). ptx_sender tx = a \<and> n \<le> ptx_nonce tx then None
        else find_tx_by_addr_and_nonce ex_pool a n)" by blast
  moreover have "find_tx_by_addr_and_nonce ex_pool 7 6 = Some (ex_tx 2 7 6 20)"
    by (simp add: ex_pool_def find_tx_by_addr_and_nonce_def queue_find_def slot_get_def)
  ultimately show ?thesis by (simp add: f ex_tx_def)
qed

text \<open>
  C6: After a block the priority index and \<open>classify_transaction\<close> agree: the index holds the
  key of a transaction exactly if the pool has the transaction and it is classified as
  marketable, under its effective priority fee at the new base fee.
\<close>
theorem block_index_is_marketable_set:
  assumes "wf_mempool m" and "block_ok b" and "apply_block oc b m = Some m'"
  shows "(f, a, n) \<in> set (priority_queue_view m') \<longleftrightarrow>
    (\<exists>tx. find_tx_by_addr_and_nonce m' a n = Some tx \<and> classify_transaction oc m' tx = Some Marketable \<and>
      f = effective_priority_fee m' tx)"
proof -
  have "index_exact oc m'" using apply_block_spec [OF assms(1,2), of oc] assms(3) by auto
  moreover have "(f, a, n) \<in> set (priority_queue_view m') \<longleftrightarrow> (Reverse f, a, n) \<in> set (prio_index m')"
    by (force simp: priority_queue_view_def)
  ultimately show ?thesis by (simp add: index_exact_def)
qed

theorem block_index_is_marketable_set_witness:
  "\<exists>m'. apply_block True \<lparr>included_txs = [], new_base_fee = 25, gas_used = 5, block_gas_limit = 6\<rparr> ex_pool = Some m' \<and>
    ((5, 7, 5) \<in> set (priority_queue_view m') \<longleftrightarrow> (\<exists>tx. find_tx_by_addr_and_nonce m' 7 5 = Some tx \<and>
       classify_transaction True m' tx = Some Marketable \<and> 5 = effective_priority_fee m' tx))"
proof -
  let ?b = "\<lparr>included_txs = [], new_base_fee = 25, gas_used = 5, block_gas_limit = 6\<rparr>"
  have b: "block_ok ?b" by (simp add: block_ok_def)
  then obtain m' where m': "apply_block True ?b ex_pool = Some m'" using apply_block_spec [OF ex_pool_wf, of ?b True] by blast
  from block_index_is_marketable_set [OF ex_pool_wf b m', of 5 7 5] show ?thesis using m' by blast
qed



text \<open>
  C34: Eviction at capacity removes the best transaction, not the worst: the index is ordered
  by descending fee and its first key is dropped. A new transaction is admitted only if its
  effective priority fee exceeds every fee of the index, and the one with the highest fee
  makes room for it.
\<close>
theorem eviction_removes_the_best:
  assumes "wf_mempool m" and "unat (global_capacity (config m)) \<le> length (base_fee_eligibility m)"
    and "evict oc tx m = Some (True, m')"
  shows "\<exists>f a n. (Reverse f, a, n) \<in> set (prio_index m) \<and> prio_index m' = tl (prio_index m) \<and>
    find_tx_by_addr_and_nonce m' a n = None \<and>
    (\<forall>(f', a', n') \<in> set (prio_index m). unreverse f' \<le> f \<and> unreverse f' < effective_priority_fee m tx)"
proof -
  have "evict_post tx m True m'" using evict_spec [OF assms(1), of oc tx] assms(3) by auto
  then obtain f a n rest where p: "prio_index m = (f, a, n) # rest" "prio_index m' = rest"
    "unreverse f < effective_priority_fee m tx" "find_tx_by_addr_and_nonce m' a n = None"
    using assms(2) by (auto simp: evict_post_def)
  have "unreverse f' \<le> unreverse f" if "(f', a', n') \<in> set rest" for f' a' n'
  proof -
    have "(f, a, n) \<le> (f', a', n')" using assms(1) that p(1) by (auto simp: wf_mempool_def)
    then show ?thesis by (auto simp: less_eq_prod_def less_reverse_def less_eq_reverse_def)
  qed
  then have "\<forall>(f', a', n') \<in> set (prio_index m). unreverse f' \<le> unreverse f \<and> unreverse f' < effective_priority_fee m tx"
    using p(1,3) by fastforce
  then show ?thesis using p by (intro exI [of _ "unreverse f"] exI [of _ a] exI [of _ n]) simp
qed

theorem eviction_removes_the_best_witness:
  "\<exists>m'. evict True (ex_tx 3 8 0 40) ex_pool = Some (True, m') \<and> find_tx_by_addr_and_nonce m' 7 5 = None"
proof -
  have full: "unat (global_capacity (config ex_pool)) \<le> length (base_fee_eligibility ex_pool)"
    by (simp add: ex_pool_def ex_config_def)
  obtain m' where m': "evict True (ex_tx 3 8 0 40) ex_pool = Some (True, m')"
    by (simp add: evict_def ex_pool_def ex_config_def ex_tx_def effective_priority_fee_def saturating_sub_def
        rust_ok slot_get_def Let_def)
  from eviction_removes_the_best [OF ex_pool_wf full m'] obtain f a n where
    "(Reverse f, a, n) \<in> set (prio_index ex_pool)" "find_tx_by_addr_and_nonce m' a n = None"
    "\<forall>(f', a', n') \<in> set (prio_index ex_pool). unreverse f' \<le> f" by fastforce
  then show ?thesis using m' by (auto simp: ex_pool_def)
qed



text \<open>
  The queries of the handle never panic on a state in range, and their answers are those
  of the pool: a transaction is found by its id exactly if some account and nonce holds it,
  and then it is classified.
\<close>
lemma queries_never_panic:
  assumes "wf_mempool m"
  shows "(classification oc m i = Some None \<longleftrightarrow> (\<forall>a n tx. find_tx_by_addr_and_nonce m a n = Some tx \<longrightarrow> ptx_id tx \<noteq> i)) \<and>
    (\<forall>a n tx. find_tx_by_addr_and_nonce m a n = Some tx \<and> ptx_id tx = i \<longrightarrow>
       (\<exists>c. classification oc m i = Some (Some c) \<and> is_marketable oc m i = Some (Some (c = Marketable))))"
proof (cases "find_tx_by_id m i")
  case None
  then show ?thesis using find_tx_by_id_None [OF assms, of i] by (auto simp: classification_def)
next
  case (Some tx)
  note t = find_tx_by_id_Some [OF assms Some]
  obtain c where "classify_transaction oc m tx = Some c" using classify_total [OF assms t(2)] by blast
  then have "classification oc m i = Some (Some c)" using Some by (simp add: classification_def)
  then show ?thesis using t by (auto simp: is_marketable_def)
qed

text \<open>
  A replacement leaves the old fee key behind: when a transaction with another maximum
  fee takes the place of a pending one, the fee index keeps the key of the replaced
  transaction, which no pending transaction has, and it counts against the capacity.
\<close>
lemma replacement_leaves_stale_key:
  assumes "wf_mempool m" and "tx_ok tx" and "length (base_fee_eligibility m) < unat (global_capacity (config m))"
    and "find_tx_by_addr_and_nonce m (ptx_sender tx) (ptx_nonce tx) = Some old" and "fits_account tx m"
    and "max_fee_per_gas old \<noteq> max_fee_per_gas tx" and "insert_tx oc tx m = Some m'"
  shows "find_tx_by_addr_and_nonce m' (ptx_sender tx) (ptx_nonce tx) = Some tx \<and>
    (max_fee_per_gas old, ptx_sender tx, ptx_nonce tx) \<in> set (base_fee_eligibility m') \<and>
    (\<forall>tx'. find_tx_by_addr_and_nonce m' (ptx_sender tx) (ptx_nonce tx) = Some tx' \<longrightarrow> max_fee_per_gas tx' \<noteq> max_fee_per_gas old)"
proof -
  have "insert_post tx m m'" using insert_tx_effect [OF assms(1-3), of oc] assms(7) by auto
  then show ?thesis using find_Some(3) [OF assms(1,4)] assms(5,6) by (auto simp: insert_post_def)
qed

text \<open>
  The global capacity is not a bound: with a capacity of two, six insertions leave three
  keys in the fee index. A replaced transaction leaves stale keys, one is evicted twice, and
  an eviction whose key is stale frees nothing.
\<close>
lemma capacity_can_be_exceeded:
  "\<exists>m. tracker_run True (map PendingTransaction [ex_tx 1 1 0 50, ex_tx 2 1 0 20, ex_tx 3 3 0 55,
      ex_tx 4 3 9 70, ex_tx 5 5 0 5, ex_tx 6 6 0 30]) (empty_pool (ex_config 2)) = Some m \<and>
    length (base_fee_eligibility m) = 3 \<and> unat (global_capacity (config m)) = 2"
  by (simp add: tracker_run_def insert_tx_def evict_def place_def entry_queue_def prepend_slots_def put_slot_def
      empty_pool_def ex_tx_def ex_config_def Let_def rust_ok insort_insert_key_def effective_priority_fee_def
      saturating_sub_def slot_get_def less_eq_reverse_def less_reverse_def word_le_nat_alt)

text \<open>
  A transaction announced after the block that included it comes back: the block removes it,
  and inserting it again, with room in the pool and in its account's window, stores it as
  pending, below the confirmed nonce the block had established.
\<close>
lemma late_pending_reopens:
  assumes "wf_mempool m" and "block_ok b" and "apply_block oc b m = Some m'" and "tx \<in> set (included_txs b)"
    and "length (base_fee_eligibility m') < unat (global_capacity (config m'))" and "fits_account tx m'"
  shows "find_tx_by_addr_and_nonce m' (ptx_sender tx) (ptx_nonce tx) = None \<and>
    (\<exists>m''. insert_tx oc tx m' = Some m'' \<and> find_tx_by_addr_and_nonce m'' (ptx_sender tx) (ptx_nonce tx) = Some tx)"
proof -
  have wf: "wf_mempool m'" and gone: "find_tx_by_addr_and_nonce m' (ptx_sender tx) (ptx_nonce tx) = None"
    using apply_block_spec [OF assms(1,2), of oc] assms(3,4) by auto
  have "tx_ok tx" using assms(2,4) by (simp add: block_ok_def)
  from insert_tx_effect [OF wf this assms(5), of oc] gone show ?thesis
    using assms(6) unfolding insert_post_def by auto
qed

end
