(* ===== verification/Transport.thy ===== *)
theory Transport
  imports Mempool_Tracker
begin

text \<open>
  The runtime of crates/mempooloracle/src/runtime.rs and the RPC transport of transport/rpc.rs
  that feeds the tracker. What alloy answers is input: a transaction or header is the record
  of the accessor results the code reads, a stream is the list of what it yields, with the
  outcome of sending to the tracker's channel. A stream loop returns the events it sent, in
  order, and the telemetry. The locale \<open>stream_loop\<close> states what the subscription loops of
  both transports share.
\<close>

subsection \<open>Telemetry\<close>

datatype transport_kind = RpcKind | P2pKind

record telemetry =
  tele_kind :: transport_kind
  pending_seen :: u64
  block_count :: u64
  last_block_txs :: u64
  last_block_gas_used :: u64
  initial_backfill_txs :: u64
  p2p_peer_count :: u64
  p2p_announced_txs :: u64
  p2p_imported_txs :: u64

definition telemetry_new :: "transport_kind \<Rightarrow> telemetry" where
  "telemetry_new k = \<lparr>tele_kind = k, pending_seen = 0, block_count = 0, last_block_txs = 0, last_block_gas_used = 0,
     initial_backfill_txs = 0, p2p_peer_count = 0, p2p_announced_txs = 0, p2p_imported_txs = 0\<rparr>"

text \<open>\<open>fetch_add\<close> on an atomic wraps around in every build.\<close>

definition record_backfill_size :: "nat \<Rightarrow> telemetry \<Rightarrow> telemetry" where
  "record_backfill_size txs t = t\<lparr>initial_backfill_txs := of_nat txs\<rparr>"

definition record_pending_seen :: "telemetry \<Rightarrow> telemetry" where
  "record_pending_seen t = t\<lparr>pending_seen := pending_seen t + 1\<rparr>"

definition record_block :: "nat \<Rightarrow> u64 \<Rightarrow> telemetry \<Rightarrow> telemetry" where
  "record_block txs gas t =
     t\<lparr>block_count := block_count t + 1, last_block_txs := of_nat txs, last_block_gas_used := gas\<rparr>"

definition record_p2p_peer_count :: "nat \<Rightarrow> telemetry \<Rightarrow> telemetry" where
  "record_p2p_peer_count peers t = t\<lparr>p2p_peer_count := of_nat peers\<rparr>"

definition record_p2p_announcement :: "telemetry \<Rightarrow> telemetry" where
  "record_p2p_announcement t = t\<lparr>p2p_announced_txs := p2p_announced_txs t + 1\<rparr>"

definition record_p2p_import :: "telemetry \<Rightarrow> telemetry" where
  "record_p2p_import t = t\<lparr>p2p_imported_txs := p2p_imported_txs t + 1\<rparr>"

text \<open>
  A snapshot loads one counter after the other; \<open>t i\<close> is the telemetry at the \<open>i\<close>-th load, which other
  tasks may have changed since the load before.
\<close>

definition snapshot_loads :: "(nat \<Rightarrow> telemetry) \<Rightarrow> telemetry" where
  "snapshot_loads t = \<lparr>tele_kind = tele_kind (t 0), pending_seen = pending_seen (t 0), block_count = block_count (t 1),
     last_block_txs = last_block_txs (t 2), last_block_gas_used = last_block_gas_used (t 3),
     initial_backfill_txs = initial_backfill_txs (t 4), p2p_peer_count = p2p_peer_count (t 5),
     p2p_announced_txs = p2p_announced_txs (t 6), p2p_imported_txs = p2p_imported_txs (t 7)\<rparr>"

text \<open>The counters that only grow, until they wrap.\<close>

definition counters_le :: "telemetry \<Rightarrow> telemetry \<Rightarrow> bool" where
  "counters_le t t' \<longleftrightarrow> pending_seen t \<le> pending_seen t' \<and> block_count t \<le> block_count t' \<and>
     p2p_announced_txs t \<le> p2p_announced_txs t' \<and> p2p_imported_txs t \<le> p2p_imported_txs t'"

lemma counters_le_trans: "counters_le t t' \<Longrightarrow> counters_le t' t'' \<Longrightarrow> counters_le t t''"
  by (auto simp: counters_le_def)

lemma snapshot_between:
  assumes "\<And>i. counters_le (t i) (t (Suc i))"
  shows "counters_le (t 0) (snapshot_loads t) \<and> counters_le (snapshot_loads t) (t 7)"
proof -
  have "counters_le (t i) (t j)" if "i \<le> j" for i j
    using that assms by (induction rule: dec_induct) (auto simp: counters_le_def intro: order.trans)
  from this [of 0 1] this [of 0 6] this [of 0 7] this [of 1 7] this [of 6 7]
  show ?thesis by (simp add: counters_le_def snapshot_loads_def)
qed

lemma le_Suc_word: "w \<noteq> - 1 \<Longrightarrow> w \<le> w + (1 :: 'a::len word)"
  by (meson linorder_le_cases inc_less_eq_triv_imp)

lemma record_counters_le:
  "counters_le t (record_backfill_size n t)" "counters_le t (record_p2p_peer_count n t)"
  "pending_seen t \<noteq> - 1 \<Longrightarrow> counters_le t (record_pending_seen t)"
  "block_count t \<noteq> - 1 \<Longrightarrow> counters_le t (record_block n g t)"
  "p2p_announced_txs t \<noteq> - 1 \<Longrightarrow> counters_le t (record_p2p_announcement t)"
  "p2p_imported_txs t \<noteq> - 1 \<Longrightarrow> counters_le t (record_p2p_import t)"
  by (simp_all add: counters_le_def le_Suc_word record_backfill_size_def record_p2p_peer_count_def record_pending_seen_def
      record_block_def record_p2p_announcement_def record_p2p_import_def)

text \<open>The runtime: dropping it raises the shutdown flag and aborts every task.\<close>

record tracker_runtime =
  shutdown_flag :: bool
  aborted :: "bool list"

definition runtime_new :: "nat \<Rightarrow> tracker_runtime" where
  "runtime_new n = \<lparr>shutdown_flag = False, aborted = replicate n False\<rparr>"

definition runtime_drop :: "tracker_runtime \<Rightarrow> tracker_runtime" where
  "runtime_drop r = r\<lparr>shutdown_flag := True, aborted := map (\<lambda>_. True) (aborted r)\<rparr>"

subsection \<open>Errors\<close>

datatype tracker_error =
    TransportError rpc_text
  | Timeout string
  | Setup string
  | FeatureDisabled string
  | UnsupportedTransport string
and rpc_text = RpcText string

subsection \<open>The RPC transport\<close>

record rpc_tx =
  rtx_hash :: tx_id
  rtx_from :: addr
  rtx_nonce :: u64
  rtx_max_fee :: u128
  rtx_max_priority_fee :: "u128 option"
  rtx_priority_fee_or_price :: u128
  rtx_gas_limit :: u64

definition alloy_tx_to_pending_tx :: "rpc_tx \<Rightarrow> pending_tx" where
  "alloy_tx_to_pending_tx tx =
     \<lparr>ptx_id = rtx_hash tx, ptx_sender = rtx_from tx, ptx_nonce = rtx_nonce tx, max_fee_per_gas = rtx_max_fee tx,
      max_priority_fee_per_gas =
        (case rtx_max_priority_fee tx of Some p \<Rightarrow> p | None \<Rightarrow> rtx_priority_fee_or_price tx),
      gas_limit = rtx_gas_limit tx\<rparr>"

record header =
  next_block_base_fee :: "u64 option"
  base_fee_per_gas :: "u64 option"
  header_gas_used :: u64
  header_gas_limit :: u64

definition header_base_fee :: "header \<Rightarrow> u128" where
  "header_base_fee h =
     ucast (case next_block_base_fee h of Some f \<Rightarrow> f
            | None \<Rightarrow> (case base_fee_per_gas h of Some f \<Rightarrow> f | None \<Rightarrow> 0))"

definition rpc_block_update :: "header \<Rightarrow> rpc_tx list \<Rightarrow> block_update" where
  "rpc_block_update h txs =
     \<lparr>included_txs = map alloy_tx_to_pending_tx txs, new_base_fee = header_base_fee h,
      gas_used = header_gas_used h, block_gas_limit = header_gas_limit h\<rparr>"

text \<open>
  What a subscription loop meets, in the order of \<open>select!\<close>: the shutdown signal, or the
  next item of the stream; the end of the list is the end of the stream. For a block the
  item is the reply to fetching it. The flag says whether the channel accepted the event.
\<close>

datatype 'a stream_input = ShutdownSignal | Item 'a bool

fun run_block_subscription ::
  "(rpc_text + (header \<times> rpc_tx list) option) stream_input list \<Rightarrow> telemetry \<Rightarrow> mempool_event list \<times> telemetry" where
  "run_block_subscription [] t = ([], t)"
| "run_block_subscription (ShutdownSignal # rest) t = ([], t)"
| "run_block_subscription (Item reply sent # rest) t =
     (case reply of
        Inr (Some (h, txs)) \<Rightarrow>
          (let b = rpc_block_update h txs;
               t' = record_block (length (included_txs b)) (gas_used b) t
           in if sent then (let (evs, t'') = run_block_subscription rest t' in (NewBlock b # evs, t''))
              else ([], t'))
      | _ \<Rightarrow> run_block_subscription rest t)"

fun run_pending_subscription ::
  "rpc_tx stream_input list \<Rightarrow> telemetry \<Rightarrow> mempool_event list \<times> telemetry" where
  "run_pending_subscription [] t = ([], t)"
| "run_pending_subscription (ShutdownSignal # rest) t = ([], t)"
| "run_pending_subscription (Item tx sent # rest) t =
     (if sent
      then (let (evs, t') = run_pending_subscription rest (record_pending_seen t)
            in (PendingTransaction (alloy_tx_to_pending_tx tx) # evs, t'))
      else ([], record_pending_seen t))"

text \<open>
  The backfill asks for \<open>txpool_contents\<close> and, if that fails or times out, for
  \<open>txpool_content\<close>. A reply is \<open>None\<close> on a timeout. The pool is the pending and the queued
  maps, each account with its transactions by nonce, in iteration order.
\<close>

record txpool_contents =
  pool_pending :: "(string \<times> (string \<times> rpc_tx) list) list"
  pool_queued :: "(string \<times> (string \<times> rpc_tx) list) list"

definition txpool_txs :: "txpool_contents \<Rightarrow> pending_tx list" where
  "txpool_txs p = map (alloy_tx_to_pending_tx \<circ> snd) (concat (map snd (pool_pending p) @ map snd (pool_queued p)))"

definition backfill_mempool ::
  "(rpc_text + txpool_contents) option \<Rightarrow> (rpc_text + txpool_contents) option \<Rightarrow> tracker_error + pending_tx list" where
  "backfill_mempool first second =
     (case first of
        Some (Inr p) \<Rightarrow> Inr (txpool_txs p)
      | _ \<Rightarrow>
          (case second of
             None \<Rightarrow> Inl (Timeout ''txpool_content backfill'')
           | Some (Inl e) \<Rightarrow> Inl (TransportError e)
           | Some (Inr p) \<Rightarrow> Inr (txpool_txs p)))"

text \<open>
  For the \<open>i\<close>-th transaction, \<open>shutdown i\<close> says whether shutdown was signalled by then and
  \<open>accepts i\<close> whether the channel still has its receiver.
\<close>

fun send_backfill :: "(nat \<Rightarrow> bool) \<Rightarrow> (nat \<Rightarrow> bool) \<Rightarrow> nat \<Rightarrow> pending_tx list \<Rightarrow> mempool_event list" where
  "send_backfill shutdown accepts i [] = []"
| "send_backfill shutdown accepts i (tx # txs) =
     (if shutdown i then []
      else if \<not> accepts i then []
      else PendingTransaction tx # send_backfill shutdown accepts (Suc i) txs)"

text \<open>\<open>shutdown_first\<close>: the shutdown signal wins the \<open>select!\<close> against the backfill request.\<close>

definition run_backfill ::
  "bool \<Rightarrow> (tracker_error + pending_tx list) \<Rightarrow> (nat \<Rightarrow> bool) \<Rightarrow> (nat \<Rightarrow> bool) \<Rightarrow> telemetry \<Rightarrow>
   mempool_event list \<times> telemetry" where
  "run_backfill shutdown_first result shutdown accepts t =
     (if shutdown_first then ([], t)
      else case result of
        Inl e \<Rightarrow> ([], t)
      | Inr txs \<Rightarrow> (send_backfill shutdown accepts 0 txs, record_backfill_size (length txs) t))"

text \<open>The checks before the connection: the replies to the two subscription requests.\<close>

definition subscription_reply :: "string \<Rightarrow> (rpc_text + 'a) option \<Rightarrow> tracker_error + 'a" where
  "subscription_reply stage reply =
     (case reply of
        None \<Rightarrow> Inl (Timeout stage)
      | Some (Inl e) \<Rightarrow> Inl (TransportError e)
      | Some (Inr x) \<Rightarrow> Inr x)"

definition connect_erased_provider ::
  "bool \<Rightarrow> (rpc_text + 'b) option \<Rightarrow> (rpc_text + 'p) option \<Rightarrow> tracker_config \<Rightarrow> tracker_error + (mempool option \<times> telemetry \<times> tracker_runtime)" where
  "connect_erased_provider oc blocks pending cfg =
     (case subscription_reply ''block subscription setup'' blocks of
        Inl e \<Rightarrow> Inl e
      | Inr _ \<Rightarrow>
          (case subscription_reply ''pending transaction subscription setup'' pending of
             Inl e \<Rightarrow> Inl e
           | Inr _ \<Rightarrow> Inr (from_channel oc [] cfg, telemetry_new RpcKind, runtime_new 3)))"

definition connect_with_builder ::
  "bool \<Rightarrow> (rpc_text + unit) option \<Rightarrow> (rpc_text + 'b) option \<Rightarrow> (rpc_text + 'p) option \<Rightarrow> tracker_config \<Rightarrow>
   tracker_error + (mempool option \<times> telemetry \<times> tracker_runtime)" where
  "connect_with_builder oc ws blocks pending cfg =
     (case subscription_reply ''websocket connect'' ws of
        Inl e \<Rightarrow> Inl e
      | Inr _ \<Rightarrow> connect_erased_provider oc blocks pending cfg)"

subsection \<open>What a subscription loop delivers\<close>

text \<open>
  A loop stops at the shutdown signal and at the first event the channel refuses. It
  delivers the events of the inputs before that point, and the refused event, if any, is
  the last it attempted.
\<close>

fun stops :: "('a \<Rightarrow> mempool_event option) \<Rightarrow> 'a stream_input \<Rightarrow> bool" where
  "stops event ShutdownSignal = True"
| "stops event (Item x sent) = (event x \<noteq> None \<and> \<not> sent)"

fun input_event :: "('a \<Rightarrow> mempool_event option) \<Rightarrow> 'a stream_input \<Rightarrow> mempool_event option" where
  "input_event event ShutdownSignal = None"
| "input_event event (Item x sent) = event x"

definition delivered :: "('a \<Rightarrow> mempool_event option) \<Rightarrow> 'a stream_input list \<Rightarrow> mempool_event list" where
  "delivered event ins = List.map_filter (input_event event) (takeWhile (\<lambda>x. \<not> stops event x) ins)"

definition refused :: "('a \<Rightarrow> mempool_event option) \<Rightarrow> 'a stream_input list \<Rightarrow> mempool_event list" where
  "refused event ins = List.map_filter (input_event event) (take 1 (dropWhile (\<lambda>x. \<not> stops event x) ins))"

definition attempted :: "('a \<Rightarrow> mempool_event option) \<Rightarrow> 'a stream_input list \<Rightarrow> mempool_event list" where
  "attempted event ins = delivered event ins @ refused event ins"

locale stream_loop =
  fixes run :: "'a stream_input list \<Rightarrow> telemetry \<Rightarrow> mempool_event list \<times> telemetry"
    and event :: "'a \<Rightarrow> mempool_event option"
    and note_event :: "mempool_event \<Rightarrow> telemetry \<Rightarrow> telemetry"
  assumes run_end: "run [] t = ([], t)"
    and run_shutdown: "run (ShutdownSignal # ins) t = ([], t)"
    and run_skip: "event x = None \<Longrightarrow> run (Item x sent # ins) t = run ins t"
    and run_refused: "event x = Some ev \<Longrightarrow> run (Item x False # ins) t = ([], note_event ev t)"
    and run_sent: "event x = Some ev \<Longrightarrow>
      run (Item x True # ins) t = (ev # fst (run ins (note_event ev t)), snd (run ins (note_event ev t)))"
begin

lemma run_delivers: "run ins t = (delivered event ins, fold note_event (attempted event ins) t)"
proof (induction ins arbitrary: t)
  case Nil
  then show ?case by (simp add: run_end attempted_def delivered_def refused_def List.map_filter_def)
next
  case (Cons i ins)
  note defs = attempted_def delivered_def refused_def List.map_filter_def
  show ?case
  proof (cases i)
    case ShutdownSignal
    then show ?thesis by (simp add: run_shutdown defs)
  next
    case (Item x sent)
    then show ?thesis
      by (cases "event x"; cases sent) (simp_all add: run_skip run_refused run_sent Cons.IH defs)
  qed
qed

lemma delivered_events: "ev \<in> set (fst (run ins t)) \<Longrightarrow> \<exists>x. Item x True \<in> set ins \<and> event x = Some ev"
proof (induction ins arbitrary: t)
  case (Cons i ins)
  show ?case
  proof (cases i)
    case ShutdownSignal
    then show ?thesis using Cons.prems by (simp add: run_shutdown)
  next
    case (Item x sent)
    then show ?thesis using Cons by (cases "event x"; cases sent) (auto simp: run_skip run_refused run_sent)
  qed
qed (simp add: run_end)

end

definition block_event :: "rpc_text + (header \<times> rpc_tx list) option \<Rightarrow> mempool_event option" where
  "block_event reply = (case reply of Inr (Some (h, txs)) \<Rightarrow> Some (NewBlock (rpc_block_update h txs)) | _ \<Rightarrow> None)"

definition pending_event :: "rpc_tx \<Rightarrow> mempool_event option" where
  "pending_event tx = Some (PendingTransaction (alloy_tx_to_pending_tx tx))"

fun note_block :: "mempool_event \<Rightarrow> telemetry \<Rightarrow> telemetry" where
  "note_block (NewBlock b) t = record_block (length (included_txs b)) (gas_used b) t"
| "note_block (PendingTransaction tx) t = t"

definition note_pending :: "mempool_event \<Rightarrow> telemetry \<Rightarrow> telemetry" where
  "note_pending ev t = record_pending_seen t"

interpretation blocks_loop: stream_loop run_block_subscription block_event note_block
  by unfold_locales (auto simp: block_event_def Let_def case_prod_beta split: sum.splits option.splits prod.splits)

interpretation pending_loop: stream_loop run_pending_subscription pending_event note_pending
  by unfold_locales (auto simp: pending_event_def note_pending_def case_prod_beta)

lemma fold_note_block:
  assumes "\<forall>ev \<in> set evs. \<exists>b. ev = NewBlock b"
  shows "block_count (fold note_block evs t) = block_count t + of_nat (length evs)"
    and "evs \<noteq> [] \<Longrightarrow> last evs = NewBlock b \<Longrightarrow> last_block_gas_used (fold note_block evs t) = gas_used b \<and>
      last_block_txs (fold note_block evs t) = of_nat (length (included_txs b))"
    and "pending_seen (fold note_block evs t) = pending_seen t"
  using assms
proof (induction evs arbitrary: t)
  case (Cons ev evs)
  { case 1 then show ?case using Cons.IH(1) by (auto simp: record_block_def algebra_simps) }
  { case 2 then show ?case using Cons.IH(2) by (cases "evs = []") (auto simp: record_block_def) }
  { case 3 then show ?case using Cons.IH(3) by (auto simp: record_block_def) }
qed simp_all

lemma fold_note_pending:
  "pending_seen (fold note_pending evs t) = pending_seen t + of_nat (length evs)"
  by (induction evs arbitrary: t) (simp_all add: note_pending_def record_pending_seen_def algebra_simps)

lemma map_filter_in: "y \<in> set (List.map_filter f xs) \<longleftrightarrow> (\<exists>x \<in> set xs. f x = Some y)"
  by (induction xs) (auto simp: List.map_filter_def)

lemma block_event_Some:
  "block_event reply = Some ev \<longleftrightarrow> (\<exists>h txs. reply = Inr (Some (h, txs)) \<and> ev = NewBlock (rpc_block_update h txs))"
proof (cases reply)
  case (Inr b)
  then show ?thesis by (cases b) (auto simp: block_event_def)
qed (simp add: block_event_def)

lemma attempted_blocks: "ev \<in> set (attempted block_event ins) \<Longrightarrow> \<exists>b. ev = NewBlock b"
proof -
  have "\<exists>b. ev = NewBlock b" if "input_event block_event i = Some ev" for i
    using that by (cases i) (auto simp: block_event_Some)
  then show "ev \<in> set (attempted block_event ins) \<Longrightarrow> \<exists>b. ev = NewBlock b"
    by (auto simp: attempted_def delivered_def refused_def map_filter_in)
qed

lemma send_backfill_prefix:
  "\<exists>k. send_backfill shutdown accepts i txs = map PendingTransaction (take k txs) \<and>
     (k < length txs \<longrightarrow> shutdown (i + k) \<or> \<not> accepts (i + k))"
proof (induction txs arbitrary: i)
  case (Cons tx txs)
  obtain k where k: "send_backfill shutdown accepts (Suc i) txs = map PendingTransaction (take k txs)"
    "k < length txs \<longrightarrow> shutdown (Suc i + k) \<or> \<not> accepts (Suc i + k)"
    using Cons.IH by blast
  show ?case
  proof (cases "shutdown i \<or> \<not> accepts i")
    case True
    then show ?thesis by (intro exI [of _ 0]) auto
  next
    case False
    then show ?thesis using k by (intro exI [of _ "Suc k"]) simp
  qed
qed simp

text \<open>Every transaction of a txpool reply comes from one of its two maps.\<close>

definition txpool_members :: "txpool_contents \<Rightarrow> rpc_tx set" where
  "txpool_members p = {tx. \<exists>account txs nonce. (account, txs) \<in> set (pool_pending p) \<union> set (pool_queued p) \<and> (nonce, tx) \<in> set txs}"

lemma txpool_txs_members: "set (txpool_txs p) = alloy_tx_to_pending_tx ` txpool_members p"
  by (force simp: txpool_txs_def txpool_members_def)

lemma backfill_mempool_source:
  "backfill_mempool first second = Inr txs \<Longrightarrow> \<exists>p. (first = Some (Inr p) \<or> second = Some (Inr p)) \<and> txs = txpool_txs p"
  by (auto simp: backfill_mempool_def split: option.splits sum.splits)

lemma connect_empty_pool:
  "connect_with_builder oc ws blocks pending cfg = Inr (mo, t, rt) \<Longrightarrow>
   mo = Some (empty_pool cfg) \<and> t = telemetry_new RpcKind \<and> rt = runtime_new 3"
  by (auto simp: connect_with_builder_def connect_erased_provider_def from_channel_def empty_pool_def split: sum.splits)

lemma rpc_tx_ok: "tx_ok (alloy_tx_to_pending_tx tx) \<longleftrightarrow> unat (rtx_nonce tx) < 2 ^ 64 - 1"
  by (simp add: tx_ok_def alloy_tx_to_pending_tx_def)

lemma rpc_block_ok: "block_ok (rpc_block_update h txs) \<longleftrightarrow>
    (\<forall>tx \<in> set txs. unat (rtx_nonce tx) < 2 ^ 64 - 1) \<and> sum_list (map (\<lambda>tx. unat (rtx_gas_limit tx)) txs) < 2 ^ 64"
  by (simp add: block_ok_def rpc_block_update_def alloy_tx_to_pending_tx_def tx_ok_def comp_def)

text \<open>A transaction and a header for the examples.\<close>

definition ex_rpc_tx :: "u64 \<Rightarrow> rpc_tx" where
  "ex_rpc_tx n = \<lparr>rtx_hash = 1, rtx_from = 7, rtx_nonce = n, rtx_max_fee = 30, rtx_max_priority_fee = None,
     rtx_priority_fee_or_price = 2, rtx_gas_limit = 21000\<rparr>"

definition ex_header :: header where
  "ex_header = \<lparr>next_block_base_fee = None, base_fee_per_gas = Some 9, header_gas_used = 21000, header_gas_limit = 30000000\<rparr>"

subsection \<open>Properties\<close>

text \<open>
  The block subscription sends the tracker, in order, exactly one event per header whose
  block could be fetched, up to the shutdown signal or the first event the channel refuses;
  headers whose block is missing or whose request failed are skipped. The block counter
  advances by the number of attempted events, and the last-block figures are those of the
  last attempted block.
\<close>
lemma block_subscription_delivers:
  "fst (run_block_subscription ins t) = delivered block_event ins \<and>
   block_count (snd (run_block_subscription ins t)) = block_count t + of_nat (length (attempted block_event ins)) \<and>
   (attempted block_event ins \<noteq> [] \<longrightarrow> (\<exists>b. last (attempted block_event ins) = NewBlock b \<and>
      last_block_gas_used (snd (run_block_subscription ins t)) = gas_used b \<and>
      last_block_txs (snd (run_block_subscription ins t)) = of_nat (length (included_txs b))))"
proof -
  have all: "\<forall>ev \<in> set (attempted block_event ins). \<exists>b. ev = NewBlock b" using attempted_blocks by blast
  note counts = fold_note_block [OF this, where t = t]
  have "\<exists>b. last (attempted block_event ins) = NewBlock b" if "attempted block_event ins \<noteq> []"
    using all last_in_set [OF that] by blast
  then show ?thesis using counts by (auto simp: blocks_loop.run_delivers)
qed



text \<open>
  The backfill sends a prefix of the transactions of the node's pool, pending before
  queued, in order, and it stops early only at a shutdown signal or a closed channel; the
  recorded size is that of the whole pool. The second request is made only when the first
  failed or timed out, and when both fail nothing is sent or recorded.
\<close>
lemma backfill_spec:
  "\<exists>k. run_backfill False (backfill_mempool first second) shutdown accepts t =
     (case (first, second) of
        (Some (Inr p), _) \<Rightarrow>
          (map PendingTransaction (take k (txpool_txs p)), t\<lparr>initial_backfill_txs := of_nat (length (txpool_txs p))\<rparr>)
      | (_, Some (Inr p)) \<Rightarrow>
          (map PendingTransaction (take k (txpool_txs p)), t\<lparr>initial_backfill_txs := of_nat (length (txpool_txs p))\<rparr>)
      | _ \<Rightarrow> ([], t)) \<and>
     (\<forall>txs. backfill_mempool first second = Inr txs \<and> k < length txs \<longrightarrow> shutdown k \<or> \<not> accepts k)"
proof (cases "backfill_mempool first second")
  case (Inl e)
  then show ?thesis
    by (auto simp: run_backfill_def backfill_mempool_def split: option.splits sum.splits)
next
  case (Inr txs)
  obtain k where k: "send_backfill shutdown accepts 0 txs = map PendingTransaction (take k txs)"
    "k < length txs \<longrightarrow> shutdown k \<or> \<not> accepts k"
    using send_backfill_prefix [of shutdown accepts 0 txs] by auto
  show ?thesis
    using Inr k by (intro exI [of _ k])
      (auto simp: run_backfill_def backfill_mempool_def record_backfill_size_def split: option.splits sum.splits)
qed

end
