(* ===== verification/P2P.thy ===== *)
theory P2P
  imports Transport
begin

text \<open>
  The peer-to-peer transport of crates/mempooloracle/src/transport/p2p.rs and
  \<open>MempoolTracker::connect\<close>. What reth and the peers answer is input, as for the RPC
  transport. The body of \<open>connect_with_config\<close> after its \<open>match\<close> cannot be reached; the
  tasks it would start are modelled one by one: the backfill, the pending listener, the peer
  event listener and the block poller.
\<close>

subsection \<open>The peer-to-peer transport\<close>

datatype consensus_implementation = Eth2Libp2p

datatype p2p_block_transport = ExecutionPolling | Consensus consensus_implementation

record p2p_config =
  p2p_chain :: string
  bootnodes :: "string list"
  discovery_v4 :: bool
  listen_addr :: "string option"
  block_transport :: p2p_block_transport

text \<open>
  The crate's feature flags; \<open>connect_with_config\<close> ends in one of the early returns, and
  the code after the \<open>match\<close> is not reached.
\<close>

record features =
  reth_p2p :: bool
  consensus_p2p :: bool

definition p2p_connect :: "features \<Rightarrow> p2p_config \<Rightarrow> tracker_error + (mempool option \<times> telemetry \<times> tracker_runtime)" where
  "p2p_connect ft cfg =
     (if \<not> reth_p2p ft then Inl (FeatureDisabled ''reth-p2p'')
      else if p2p_chain cfg \<noteq> ''mainnet''
      then Inl (UnsupportedTransport ''embedded reth p2p currently supports mainnet only'')
      else case block_transport cfg of
        ExecutionPolling \<Rightarrow> Inl (UnsupportedTransport
          ''execution p2p block polling does not cover mainnet PoS head blocks; use a consensus block transport instead'')
      | Consensus _ \<Rightarrow>
          if \<not> consensus_p2p ft then Inl (FeatureDisabled ''consensus-p2p'')
          else Inl (UnsupportedTransport ''consensus p2p block transport is not implemented yet''))"

text \<open>\<open>parse_bootnodes\<close> with the parser of the peers crate as a parameter: the first error ends it.\<close>

fun parse_bootnodes :: "(string \<Rightarrow> string + 'p) \<Rightarrow> string list \<Rightarrow> tracker_error + 'p list" where
  "parse_bootnodes parse [] = Inr []"
| "parse_bootnodes parse (node # rest) =
     (case parse node of
        Inl err \<Rightarrow> Inl (Setup (''failed to parse bootnode `'' @ node @ ''`: '' @ err))
      | Inr peer \<Rightarrow> map_sum id ((#) peer) (parse_bootnodes parse rest))"

datatype tracker_transport = RpcTransport | P2pTransport p2p_config

text \<open>\<open>MempoolTracker::connect\<close>.\<close>

definition tracker_connect ::
  "bool \<Rightarrow> features \<Rightarrow> tracker_transport \<Rightarrow> (rpc_text + unit) option \<Rightarrow> (rpc_text + 'b) option \<Rightarrow> (rpc_text + 'p) option \<Rightarrow>
   tracker_config \<Rightarrow> tracker_error + (mempool option \<times> telemetry \<times> tracker_runtime)" where
  "tracker_connect oc ft transport ws blocks pending cfg =
     (case transport of
        RpcTransport \<Rightarrow> connect_with_builder oc ws blocks pending cfg
      | P2pTransport p2p \<Rightarrow> p2p_connect ft p2p)"

record reth_tx =
  ptx_hash :: tx_id
  ptx_from :: addr
  ptx_tx_nonce :: u64
  ptx_max_fee :: u128
  ptx_max_priority_fee :: "u128 option"
  ptx_priority_fee_or_price :: u128
  ptx_gas :: u64

definition pending_tx_from_reth :: "reth_tx \<Rightarrow> pending_tx" where
  "pending_tx_from_reth tx =
     \<lparr>ptx_id = ptx_hash tx, ptx_sender = ptx_from tx, ptx_nonce = ptx_tx_nonce tx, max_fee_per_gas = ptx_max_fee tx,
      max_priority_fee_per_gas =
        (case ptx_max_priority_fee tx of Some p \<Rightarrow> p | None \<Rightarrow> ptx_priority_fee_or_price tx),
      gas_limit = ptx_gas tx\<rparr>"

text \<open>
  A \<open>select!\<close> with one branch waits for the branch's future. Its handler runs if the value
  matches the branch's pattern; \<open>else\<close> runs only if it does not.
\<close>

definition select_one :: "('v \<Rightarrow> bool) \<Rightarrow> 'v \<Rightarrow> 'r \<Rightarrow> 'r \<Rightarrow> 'r" where
  "select_one matches v handler otherwise = (if matches v then handler else otherwise)"

text \<open>
  The backfill loop: \<open>changed i\<close> is the value with which \<open>shutdown.changed()\<close> completes in
  the \<open>i\<close>-th round, \<open>Inr\<close> for \<open>Ok\<close>; the pattern of the branch is the wildcard.
\<close>

fun p2p_send_backfill :: "(nat \<Rightarrow> unit + unit) \<Rightarrow> (nat \<Rightarrow> bool) \<Rightarrow> nat \<Rightarrow> pending_tx list \<Rightarrow> mempool_event list" where
  "p2p_send_backfill changed accepts i [] = []"
| "p2p_send_backfill changed accepts i (tx # txs) =
     select_one (\<lambda>_. True) (changed i)
       []
       (if \<not> accepts i then [] else PendingTransaction tx # p2p_send_backfill changed accepts (Suc i) txs)"

definition p2p_run_backfill ::
  "reth_tx list \<Rightarrow> (nat \<Rightarrow> unit + unit) \<Rightarrow> (nat \<Rightarrow> bool) \<Rightarrow> telemetry \<Rightarrow> mempool_event list \<times> telemetry" where
  "p2p_run_backfill pooled changed accepts t =
     (let existing = map pending_tx_from_reth pooled
      in (p2p_send_backfill changed accepts 0 existing, record_backfill_size (length existing) t))"

text \<open>The pending listener: an item is what the pool has for the announced hash.\<close>

fun run_pending_listener ::
  "reth_tx option stream_input list \<Rightarrow> telemetry \<Rightarrow> mempool_event list \<times> telemetry" where
  "run_pending_listener [] t = ([], t)"
| "run_pending_listener (ShutdownSignal # rest) t = ([], t)"
| "run_pending_listener (Item None sent # rest) t = run_pending_listener rest t"
| "run_pending_listener (Item (Some tx) sent # rest) t =
     (let t' = record_p2p_import (record_pending_seen t)
      in if sent
         then (let (evs, t'') = run_pending_listener rest t'
               in (PendingTransaction (pending_tx_from_reth tx) # evs, t''))
         else ([], t'))"

type_synonym peer_id = "512 word"

record peer_session =
  latest_block :: "u64 option"
  head_hash :: "256 word"

datatype peer_event = ActivePeerSession peer_id peer_session | SessionClosed peer_id | PeerRemoved peer_id | OtherEvent

text \<open>An input of the listener is an event, or \<open>None\<close> for the shutdown signal.\<close>

definition handle_peer_event ::
  "peer_event \<Rightarrow> (peer_id \<times> peer_session) list \<times> telemetry \<Rightarrow> (peer_id \<times> peer_session) list \<times> telemetry" where
  "handle_peer_event ev = (\<lambda>(sessions, t).
     (case ev of
        ActivePeerSession p s \<Rightarrow>
          (let ss = AList.update p s sessions in (ss, record_p2p_peer_count (length ss) t))
      | SessionClosed p \<Rightarrow>
          (let ss = AList.delete p sessions in (ss, record_p2p_peer_count (length ss) t))
      | PeerRemoved p \<Rightarrow>
          (let ss = AList.delete p sessions in (ss, record_p2p_peer_count (length ss) t))
      | OtherEvent \<Rightarrow> (sessions, t)))"

fun run_peer_event_listener ::
  "peer_event option list \<Rightarrow> (peer_id \<times> peer_session) list \<times> telemetry \<Rightarrow> (peer_id \<times> peer_session) list \<times> telemetry" where
  "run_peer_event_listener [] st = st"
| "run_peer_event_listener (None # rest) st = st"
| "run_peer_event_listener (Some ev # rest) st = run_peer_event_listener rest (handle_peer_event ev st)"

text \<open>\<open>Iterator::max_by_key\<close>: the last of the elements with the largest key.\<close>

fun max_by_key :: "('a \<Rightarrow> 'k::linorder) \<Rightarrow> 'a list \<Rightarrow> 'a option" where
  "max_by_key k [] = None"
| "max_by_key k (x # xs) =
     (case max_by_key k xs of None \<Rightarrow> Some x | Some y \<Rightarrow> if k y < k x then Some x else Some y)"

definition latest_or_default :: "peer_session \<Rightarrow> u64" where
  "latest_or_default s = (case latest_block s of Some n \<Rightarrow> n | None \<Rightarrow> 0)"

fun filter_opt :: "('a \<Rightarrow> bool option) \<Rightarrow> 'a list \<Rightarrow> 'a list option" where
  "filter_opt p [] = Some []"
| "filter_opt p (x # xs) = do { b \<leftarrow> p x; ys \<leftarrow> filter_opt p xs; Some (if b then x # ys else ys) }"

definition select_peer :: "bool \<Rightarrow> (peer_id \<times> peer_session) list \<Rightarrow> u64 option \<Rightarrow> peer_session option option" where
  "select_peer oc sessions next_block_number =
     (let values = map snd sessions in
      case next_block_number of
        Some target \<Rightarrow> do {
          eligible \<leftarrow> filter_opt (\<lambda>s. case latest_block s of None \<Rightarrow> Some True
              | Some latest \<Rightarrow> map_option (\<lambda>n. target \<le> n) (rust_add oc latest 1)) values;
          Some (case max_by_key latest_or_default eligible of
                  Some s \<Rightarrow> Some s
                | None \<Rightarrow> (case values of [] \<Rightarrow> None | s # _ \<Rightarrow> Some s))
        }
      | None \<Rightarrow> Some (max_by_key latest_or_default values))"

definition MAX_HEADERS_PER_POLL :: u64 where "MAX_HEADERS_PER_POLL = 8"

datatype block_start = StartNumber u64 | StartHash "256 word"

definition headers_request :: "peer_session \<Rightarrow> u64 option \<Rightarrow> block_start \<times> u64" where
  "headers_request peer next_block_number =
     (case next_block_number of
        Some number \<Rightarrow> (StartNumber number, MAX_HEADERS_PER_POLL)
      | None \<Rightarrow>
          (case latest_block peer of
             Some number \<Rightarrow> (StartNumber number, 1)
           | None \<Rightarrow> (StartHash (head_hash peer), 1)))"

record signed_tx =
  stx_hash :: tx_id
  stx_signer :: "addr option"
  stx_nonce :: u64
  stx_max_fee :: u128
  stx_max_priority_fee :: "u128 option"
  stx_gas_limit :: u64

definition pending_tx_from_signed :: "signed_tx \<Rightarrow> pending_tx option" where
  "pending_tx_from_signed tx =
     (case stx_signer tx of
        None \<Rightarrow> None
      | Some sender \<Rightarrow> Some
          \<lparr>ptx_id = stx_hash tx, ptx_sender = sender, ptx_nonce = stx_nonce tx, max_fee_per_gas = stx_max_fee tx,
           max_priority_fee_per_gas = (case stx_max_priority_fee tx of Some p \<Rightarrow> p | None \<Rightarrow> 0),
           gas_limit = stx_gas_limit tx\<rparr>)"

definition block_update_from_header_body :: "header \<Rightarrow> signed_tx list \<Rightarrow> block_update" where
  "block_update_from_header_body h body =
     \<lparr>included_txs = List.map_filter pending_tx_from_signed body, new_base_fee = header_base_fee h,
      gas_used = header_gas_used h, block_gas_limit = header_gas_limit h\<rparr>"

text \<open>
  The replies to the two requests of the poller. A header comes with its hash, its number,
  the reply to the request for its body and whether the channel accepts the block.
\<close>

datatype body_reply =
    BodySendFailed
  | BodyTimeout
  | BodyChannelDropped
  | BodyRequestFailed
  | Bodies "signed_tx list list"

definition request_block_body :: "body_reply \<Rightarrow> signed_tx list option" where
  "request_block_body reply = (case reply of Bodies (b # _) \<Rightarrow> Some b | _ \<Rightarrow> None)"

record polled_header =
  ph_header :: header
  ph_hash :: "256 word"
  ph_number :: u64
  ph_body :: body_reply
  ph_sent :: bool

datatype headers_reply =
    HeadersSendFailed string
  | HeadersTimeout
  | HeadersChannelDropped string
  | HeadersRequestFailed string
  | Headers "polled_header list"

fun request_next_headers ::
  "peer_session \<Rightarrow> u64 option \<Rightarrow> (block_start \<times> u64 \<Rightarrow> headers_reply) \<Rightarrow> tracker_error + polled_header list" where
  "request_next_headers peer next_block_number answer =
     (case answer (headers_request peer next_block_number) of
        HeadersSendFailed err \<Rightarrow> Inl (Setup (''failed to request block headers: '' @ err))
      | HeadersTimeout \<Rightarrow> Inl (Timeout ''p2p getBlockHeaders'')
      | HeadersChannelDropped err \<Rightarrow> Inl (Setup (''header response channel dropped: '' @ err))
      | HeadersRequestFailed err \<Rightarrow> Inl (Setup (''block header request failed: '' @ err))
      | Headers hs \<Rightarrow> Inr hs)"

text \<open>
  The poller: its cursor is the next block number and the hash of the last block sent; the
  flag says whether it goes on.
\<close>

record poller =
  next_number :: "u64 option"
  last_hash :: "256 word option"
  poller_telemetry :: telemetry
  poller_sent :: "mempool_event list"
  poller_on :: bool

definition poller_new :: "telemetry \<Rightarrow> poller" where
  "poller_new t = \<lparr>next_number = None, last_hash = None, poller_telemetry = t, poller_sent = [], poller_on = True\<rparr>"

fun poll_headers :: "bool \<Rightarrow> polled_header list \<Rightarrow> poller \<Rightarrow> poller option" where
  "poll_headers oc [] p = Some p"
| "poll_headers oc (h # rest) p =
     (if last_hash p = Some (ph_hash h)
      then do { n \<leftarrow> rust_add oc (ph_number h) 1; poll_headers oc rest (p\<lparr>next_number := Some n\<rparr>) }
      else case request_block_body (ph_body h) of
        None \<Rightarrow> Some p
      | Some body \<Rightarrow>
          (let b = block_update_from_header_body (ph_header h) body;
               p = p\<lparr>poller_telemetry := record_block (length (included_txs b)) (gas_used b) (poller_telemetry p)\<rparr>
           in if \<not> ph_sent h then Some (p\<lparr>poller_on := False\<rparr>)
              else do {
                n \<leftarrow> rust_add oc (ph_number h) 1;
                poll_headers oc rest (p\<lparr>poller_sent := poller_sent p @ [NewBlock b], last_hash := Some (ph_hash h),
                  next_number := Some n\<rparr>)
              }))"

text \<open>
  A round of the outer loop: the shutdown signal, or a tick with the sessions at that moment
  and how the selected peer answers a request.
\<close>

datatype poll_round = PollShutdown | PollTick "(peer_id \<times> peer_session) list" "block_start \<times> u64 \<Rightarrow> headers_reply"

fun run_block_poller :: "bool \<Rightarrow> poll_round list \<Rightarrow> poller \<Rightarrow> poller option" where
  "run_block_poller oc [] p = Some p"
| "run_block_poller oc (PollShutdown # rest) p = Some (p\<lparr>poller_on := False\<rparr>)"
| "run_block_poller oc (PollTick sessions answer # rest) p = do {
     selected \<leftarrow> select_peer oc sessions (next_number p);
     case selected of
       None \<Rightarrow> run_block_poller oc rest p
     | Some peer \<Rightarrow>
         (case request_next_headers peer (next_number p) answer of
            Inr (h # hs) \<Rightarrow> do {
              p' \<leftarrow> poll_headers oc (h # hs) p;
              if poller_on p' then run_block_poller oc rest p' else Some p'
            }
          | _ \<Rightarrow> run_block_poller oc rest p)
   }"

subsection \<open>The pending listener and the sessions\<close>

definition listener_event :: "reth_tx option \<Rightarrow> mempool_event option" where
  "listener_event = map_option (\<lambda>tx. PendingTransaction (pending_tx_from_reth tx))"

definition note_import :: "mempool_event \<Rightarrow> telemetry \<Rightarrow> telemetry" where
  "note_import ev t = record_p2p_import (record_pending_seen t)"

interpretation listener_loop: stream_loop run_pending_listener listener_event note_import
  by unfold_locales (auto simp: listener_event_def note_import_def Let_def case_prod_beta)

lemma fold_note_import:
  "pending_seen (fold note_import evs t) = pending_seen t + of_nat (length evs)"
  "p2p_imported_txs (fold note_import evs t) = p2p_imported_txs t + of_nat (length evs)"
  by (induction evs arbitrary: t)
    (simp_all add: note_import_def record_p2p_import_def record_pending_seen_def algebra_simps)

lemma p2p_send_backfill_nothing: "p2p_send_backfill changed accepts i txs = []"
  by (cases txs) (simp_all add: select_one_def)

text \<open>The sessions as a map: a peer is there if its last event opened a session.\<close>

fun session_map :: "peer_event \<Rightarrow> (peer_id \<rightharpoonup> peer_session) \<Rightarrow> (peer_id \<rightharpoonup> peer_session)" where
  "session_map (ActivePeerSession p s) m = m(p \<mapsto> s)"
| "session_map (SessionClosed p) m = m(p := None)"
| "session_map (PeerRemoved p) m = m(p := None)"
| "session_map OtherEvent m = m"

definition sessions_ok :: "(peer_id \<times> peer_session) list \<times> telemetry \<Rightarrow> bool" where
  "sessions_ok st \<longleftrightarrow> distinct (map fst (fst st)) \<and> p2p_peer_count (snd st) = of_nat (length (fst st))"

lemma handle_peer_event_ok:
  assumes "sessions_ok st"
  shows "sessions_ok (handle_peer_event ev st)"
    and "map_of (fst (handle_peer_event ev st)) = session_map ev (map_of (fst st))"
  using assms
  by (cases st; cases ev;
      auto simp: handle_peer_event_def sessions_ok_def Let_def record_p2p_peer_count_def update_conv' delete_conv'
        distinct_update distinct_delete)+

definition events_before_shutdown :: "peer_event option list \<Rightarrow> peer_event list" where
  "events_before_shutdown ins = List.map_filter id (takeWhile (\<lambda>i. i \<noteq> None) ins)"

lemma run_peer_event_listener_ok:
  "sessions_ok st \<Longrightarrow> sessions_ok (run_peer_event_listener ins st) \<and>
   map_of (fst (run_peer_event_listener ins st)) = fold session_map (events_before_shutdown ins) (map_of (fst st))"
proof (induction ins arbitrary: st)
  case (Cons i ins)
  then show ?case
    by (cases i) (auto simp: handle_peer_event_ok events_before_shutdown_def List.map_filter_def)
qed (simp add: events_before_shutdown_def List.map_filter_def)

subsection \<open>Choosing a peer\<close>

lemma max_by_key_None [simp]: "max_by_key k xs = None \<longleftrightarrow> xs = []"
  by (cases xs) (auto split: option.splits if_splits)

lemma max_by_key_Some:
  "max_by_key k xs = Some y \<Longrightarrow> y \<in> set xs \<and> (\<forall>x \<in> set xs. k x \<le> k y)"
proof (induction xs arbitrary: y)
  case (Cons x xs)
  show ?case
  proof (cases "max_by_key k xs")
    case None
    then show ?thesis using Cons.prems by simp
  next
    case (Some z)
    then show ?thesis using Cons.IH [OF Some] Cons.prems by (fastforce split: if_splits)
  qed
qed simp

lemma filter_opt_total: "(\<And>x. x \<in> set xs \<Longrightarrow> p x = Some (q x)) \<Longrightarrow> filter_opt p xs = Some (filter q xs)"
  by (induction xs) auto

text \<open>A peer may serve a target block if it does not say where it is or is at most one behind.\<close>

definition eligible :: "u64 \<Rightarrow> peer_session \<Rightarrow> bool" where
  "eligible target s = (case latest_block s of None \<Rightarrow> True | Some latest \<Rightarrow> unat target \<le> Suc (unat latest))"

definition latest_in_range :: "(peer_id \<times> peer_session) list \<Rightarrow> bool" where
  "latest_in_range sessions = list_all (\<lambda>(p, s). latest_block s \<noteq> Some (- 1)) sessions"

lemma unat_neq_max: "(w :: u64) \<noteq> - 1 \<Longrightarrow> unat w + 1 < 2 ^ 64"
proof -
  assume "w \<noteq> - 1"
  then have "unat w \<noteq> unat (- 1 :: u64)" by (simp only: word_unat_eq_iff [symmetric] not_False_eq_True)
  moreover have "unat (- 1 :: u64) = 2 ^ 64 - 1" by (simp add: unsigned_minus_1_eq_mask mask_eq_exp_minus_1)
  moreover have "unat w < 2 ^ 64" using unat_less_exp [of w] by simp
  ultimately show ?thesis by simp
qed

lemma select_peer_target:
  assumes "latest_in_range sessions"
  shows "select_peer oc sessions (Some target) =
    Some (case max_by_key latest_or_default (filter (eligible target) (map snd sessions)) of
            Some s \<Rightarrow> Some s
          | None \<Rightarrow> (case map snd sessions of [] \<Rightarrow> None | s # _ \<Rightarrow> Some s))"
proof -
  have "(case latest_block s of None \<Rightarrow> Some True | Some latest \<Rightarrow> map_option (\<lambda>n. target \<le> n) (rust_add oc latest 1)) =
      Some (eligible target s)" if "s \<in> set (map snd sessions)" for s
  proof (cases "latest_block s")
    case (Some latest)
    then have "unat latest + 1 < 2 ^ 64"
      using that assms unat_neq_max [of latest] by (auto simp: latest_in_range_def list_all_iff)
    then show ?thesis
      using Some by (simp add: eligible_def rust_add_ok unat_add_ok word_le_nat_alt)
  qed (simp add: eligible_def)
  then show ?thesis
    by (simp only: select_peer_def Let_def option.case filter_opt_total Option.bind.simps)
qed

subsection \<open>The block poller\<close>

definition block_of :: "polled_header \<Rightarrow> mempool_event" where
  "block_of h = NewBlock (block_update_from_header_body (ph_header h) (the (request_block_body (ph_body h))))"

definition next_block :: "u64 \<Rightarrow> u64 \<Rightarrow> bool" where
  "next_block m n \<longleftrightarrow> unat n = Suc (unat m)"

text \<open>
  An honest peer returns at most as many headers as asked for, numbered from the requested
  number on, below the last block number; a hash identifies its header's number.
\<close>

definition numbered :: "(256 word \<Rightarrow> u64) \<Rightarrow> polled_header \<Rightarrow> bool" where
  "numbered number_of h \<longleftrightarrow> number_of (ph_hash h) = ph_number h \<and> ph_number h \<noteq> - 1"

definition headers_from :: "u64 \<Rightarrow> polled_header list \<Rightarrow> bool" where
  "headers_from n hs \<longleftrightarrow> (\<forall>i < length hs. unat (ph_number (hs ! i)) = unat n + i)"

definition honest :: "(256 word \<Rightarrow> u64) \<Rightarrow> (block_start \<times> u64 \<Rightarrow> headers_reply) \<Rightarrow> bool" where
  "honest number_of answer \<longleftrightarrow> (\<forall>start limit hs. answer (start, limit) = Headers hs \<longrightarrow>
     length hs \<le> unat limit \<and> (\<forall>h \<in> set hs. numbered number_of h) \<and>
     (\<forall>n. start = StartNumber n \<longrightarrow> headers_from n hs))"

lemma headers_from_Cons:
  "headers_from n (h # hs) \<longleftrightarrow> ph_number h = n \<and> (\<forall>i < length hs. unat (ph_number (hs ! i)) = unat n + Suc i)"
  by (auto simp: headers_from_def less_Suc_eq_0_disj nth_Cons' word_unat_eq_iff)

definition chain_inv :: "(256 word \<Rightarrow> u64) \<Rightarrow> poller \<Rightarrow> polled_header list \<Rightarrow> bool" where
  "chain_inv number_of p hs \<longleftrightarrow>
     poller_sent p = map block_of hs \<and> successively next_block (map ph_number hs) \<and> (\<forall>h \<in> set hs. numbered number_of h) \<and>
     (if hs = [] then next_number p = None \<and> last_hash p = None
      else next_number p = Some (ph_number (last hs) + 1) \<and> last_hash p = Some (ph_hash (last hs)))"

lemma chain_fresh:
  assumes "chain_inv number_of p sent" and "numbered number_of h"
    and "\<And>n. next_number p = Some n \<Longrightarrow> ph_number h = n"
  shows "last_hash p \<noteq> Some (ph_hash h)" and "sent \<noteq> [] \<Longrightarrow> next_block (ph_number (last sent)) (ph_number h)"
proof -
  have new: "unat (ph_number h) = Suc (unat (ph_number (last sent)))" if "sent \<noteq> []"
  proof -
    have "numbered number_of (last sent)" using assms(1) that by (simp add: chain_inv_def)
    then have "unat (ph_number (last sent)) + 1 < 2 ^ 64" unfolding numbered_def using unat_neq_max by blast
    moreover have "ph_number h = ph_number (last sent) + 1" using assms(1,3) that by (simp add: chain_inv_def)
    ultimately show ?thesis by (simp add: unat_add_ok)
  qed
  then show "sent \<noteq> [] \<Longrightarrow> next_block (ph_number (last sent)) (ph_number h)" by (simp add: next_block_def)
  show "last_hash p \<noteq> Some (ph_hash h)"
  proof (cases "sent = []")
    case False
    then have "number_of (ph_hash (last sent)) = ph_number (last sent)" "last_hash p = Some (ph_hash (last sent))"
      using assms(1) by (simp_all add: chain_inv_def numbered_def)
    then show ?thesis using new [OF False] assms(2) by (auto simp: numbered_def)
  qed (use assms(1) in \<open>simp add: chain_inv_def\<close>)
qed

lemma chain_extend:
  assumes "chain_inv number_of p sent" and "numbered number_of h"
    and "\<And>n. next_number p = Some n \<Longrightarrow> ph_number h = n" and "request_block_body (ph_body h) = Some body"
  shows "chain_inv number_of (p\<lparr>poller_telemetry := t, poller_sent := poller_sent p @
      [NewBlock (block_update_from_header_body (ph_header h) body)], last_hash := Some (ph_hash h),
      next_number := Some (ph_number h + 1)\<rparr>) (sent @ [h])"
proof (cases "sent = []")
  case True
  then show ?thesis using assms by (simp add: chain_inv_def block_of_def)
next
  case False
  then have "next_block (last (map ph_number sent)) (ph_number h)"
    using chain_fresh(2) [OF assms(1-3)] by (simp add: last_map)
  then show ?thesis using assms by (auto simp: chain_inv_def block_of_def successively_append_iff)
qed

lemma poll_headers_chain:
  assumes "chain_inv number_of p sent" and "\<forall>h \<in> set hs. numbered number_of h"
    and "case next_number p of None \<Rightarrow> length hs \<le> 1 | Some n \<Rightarrow> headers_from n hs"
  shows "\<exists>p' sent'. poll_headers oc hs p = Some p' \<and> chain_inv number_of p' (sent @ sent') \<and> set sent' \<subseteq> set hs"
  using assms
proof (induction hs arbitrary: p sent)
  case Nil
  then show ?case by (intro exI [of _ p] exI [of _ "[]"]) simp
next
  case (Cons h hs)
  have h: "numbered number_of h" "\<And>n. next_number p = Some n \<Longrightarrow> ph_number h = n"
    using Cons.prems(2,3) by (auto simp: headers_from_Cons)
  note fresh = chain_fresh(1) [OF Cons.prems(1) h]
  show ?case
  proof (cases "request_block_body (ph_body h)")
    case None
    then show ?thesis using fresh Cons.prems(1) by (intro exI [of _ p] exI [of _ "[]"]) simp
  next
    case (Some body)
    let ?b = "block_update_from_header_body (ph_header h) body"
    let ?t = "record_block (length (included_txs ?b)) (gas_used ?b) (poller_telemetry p)"
    show ?thesis
    proof (cases "ph_sent h")
      case False
      then show ?thesis using fresh Some Cons.prems(1)
        by (intro exI [of _ "p\<lparr>poller_telemetry := ?t, poller_on := False\<rparr>"] exI [of _ "[]"])
          (simp add: Let_def chain_inv_def)
    next
      case True
      let ?p = "p\<lparr>poller_telemetry := ?t, poller_sent := poller_sent p @ [NewBlock ?b], last_hash := Some (ph_hash h),
          next_number := Some (ph_number h + 1)\<rparr>"
      have max: "unat (ph_number h) + 1 < 2 ^ 64" using h(1) unat_neq_max unfolding numbered_def by blast
      have "headers_from (ph_number h + 1) hs"
        using Cons.prems(3) max headers_from_Cons [of _ h hs]
        by (auto simp: headers_from_def [of _ hs] unat_add_ok split: option.splits)
      then have "\<exists>p' sent'. poll_headers oc hs ?p = Some p' \<and> chain_inv number_of p' ((sent @ [h]) @ sent') \<and> set sent' \<subseteq> set hs"
        using Cons.IH [OF chain_extend [OF Cons.prems(1) h Some]] Cons.prems(2) by simp
      then obtain p' sent' where "poll_headers oc hs ?p = Some p'" "chain_inv number_of p' (sent @ h # sent')" "set sent' \<subseteq> set hs"
        by auto
      then show ?thesis
        using fresh Some True max by (intro exI [of _ p'] exI [of _ "h # sent'"]) (auto simp: Let_def rust_add_ok)
    qed
  qed
qed

definition honest_round :: "(256 word \<Rightarrow> u64) \<Rightarrow> poll_round \<Rightarrow> bool" where
  "honest_round number_of r =
     (case r of PollShutdown \<Rightarrow> True | PollTick sessions answer \<Rightarrow> latest_in_range sessions \<and> honest number_of answer)"

lemma select_peer_total:
  assumes "latest_in_range sessions"
  shows "\<exists>r. select_peer oc sessions target = Some r"
proof (cases target)
  case None
  then show ?thesis by (simp add: select_peer_def)
next
  case (Some n)
  then show ?thesis using select_peer_target [OF assms] by blast
qed

lemma honest_request:
  assumes "honest number_of answer" and "request_next_headers peer nxt answer = Inr hs"
  shows "\<forall>h \<in> set hs. numbered number_of h" and "case nxt of None \<Rightarrow> length hs \<le> 1 | Some n \<Rightarrow> headers_from n hs"
proof -
  obtain start limit where req: "headers_request peer nxt = (start, limit)" by (cases "headers_request peer nxt")
  then have "answer (start, limit) = Headers hs" using assms(2) by (auto split: headers_reply.splits)
  then have hs: "length hs \<le> unat limit" "\<forall>h \<in> set hs. numbered number_of h" "\<forall>n. start = StartNumber n \<longrightarrow> headers_from n hs"
    using assms(1) unfolding honest_def by blast+
  then show "\<forall>h \<in> set hs. numbered number_of h" by simp
  show "case nxt of None \<Rightarrow> length hs \<le> 1 | Some n \<Rightarrow> headers_from n hs"
    using hs req by (auto simp: headers_request_def split: option.splits)
qed

lemma run_block_poller_chain:
  "chain_inv number_of p sent \<Longrightarrow> \<forall>r \<in> set rounds. honest_round number_of r \<Longrightarrow>
   \<exists>p' sent'. run_block_poller oc rounds p = Some p' \<and> chain_inv number_of p' (sent @ sent')"
proof (induction rounds arbitrary: p sent)
  case Nil
  then show ?case by (intro exI [of _ p] exI [of _ "[]"]) simp
next
  case (Cons r rounds)
  show ?case
  proof (cases r)
    case PollShutdown
    then show ?thesis using Cons.prems(1)
      by (intro exI [of _ "p\<lparr>poller_on := False\<rparr>"] exI [of _ "[]"]) (simp add: chain_inv_def)
  next
    case (PollTick sessions answer)
    have hon: "latest_in_range sessions" "honest number_of answer"
      using Cons.prems(2) PollTick by (simp_all add: honest_round_def)
    obtain selected where sel: "select_peer oc sessions (next_number p) = Some selected"
      using select_peer_total [OF hon(1)] by blast
    have skip: ?thesis if "run_block_poller oc (r # rounds) p = run_block_poller oc rounds p"
      using Cons.IH [OF Cons.prems(1)] Cons.prems(2) that by simp
    show ?thesis
    proof (cases "\<exists>peer h hs. selected = Some peer \<and> request_next_headers peer (next_number p) answer = Inr (h # hs)")
      case False
      then have "run_block_poller oc (r # rounds) p = run_block_poller oc rounds p"
        using sel PollTick by (auto simp del: request_next_headers.simps split: option.splits sum.splits list.splits)
      then show ?thesis by (rule skip)
    next
      case True
      then obtain peer h hs where req: "selected = Some peer" "request_next_headers peer (next_number p) answer = Inr (h # hs)"
        by blast
      obtain p1 s1 where p1: "poll_headers oc (h # hs) p = Some p1" "chain_inv number_of p1 (sent @ s1)"
        using poll_headers_chain [OF Cons.prems(1) honest_request [OF hon(2) req(2)]] by blast
      have run: "run_block_poller oc (r # rounds) p = (if poller_on p1 then run_block_poller oc rounds p1 else Some p1)"
        using sel req p1(1) PollTick by (simp del: request_next_headers.simps poll_headers.simps)
      show ?thesis
      proof (cases "poller_on p1")
        case True
        then obtain p' s' where "run_block_poller oc rounds p1 = Some p'" "chain_inv number_of p' ((sent @ s1) @ s')"
          using Cons.IH [OF p1(2)] Cons.prems(2) by (metis list.set_intros(2))
        then show ?thesis using run True by (intro exI [of _ p'] exI [of _ "s1 @ s'"]) simp
      qed (use run p1(2) in auto)
    qed
  qed
qed

subsection \<open>Properties\<close>


definition ex_polled :: "256 word \<Rightarrow> u64 \<Rightarrow> polled_header" where
  "ex_polled hash n = \<lparr>ph_header = ex_header, ph_hash = hash, ph_number = n, ph_body = Bodies [[]], ph_sent = True\<rparr>"

definition ex_answer :: "block_start \<times> u64 \<Rightarrow> headers_reply" where
  "ex_answer req = (if req = (StartNumber 5, 1) then Headers [ex_polled 5 5]
     else if req = (StartNumber 6, 8) then Headers [ex_polled 6 6, ex_polled 7 7] else HeadersTimeout)"

lemma ex_answer_honest: "honest ucast ex_answer"
proof -
  have ans: "ex_answer (start, limit) = Headers hs \<Longrightarrow>
      start = StartNumber 5 \<and> limit = 1 \<and> hs = [ex_polled 5 5] \<or>
      start = StartNumber 6 \<and> limit = 8 \<and> hs = [ex_polled 6 6, ex_polled 7 7]" for start limit hs
    by (auto simp: ex_answer_def split: if_splits)
  show ?thesis
    unfolding honest_def by (auto simp: numbered_def ex_polled_def headers_from_def less_Suc_eq_0_disj dest!: ans)
qed

definition ex_rounds :: "poll_round list" where
  "ex_rounds = [PollTick [(1, \<lparr>latest_block = Some 5, head_hash = 5\<rparr>)] ex_answer,
     PollTick [] ex_answer, PollTick [(1, \<lparr>latest_block = Some 5, head_hash = 5\<rparr>)] ex_answer]"


text \<open>
  \<open>select_peer\<close>: with sessions in range it returns a session whenever there is one. Without a
  target it has the highest latest block. With a target it is, if any session is eligible
  (unknown head, or head at least the target's parent), an eligible one with the highest
  latest block among these.
\<close>
lemma select_peer_spec:
  assumes "latest_in_range sessions" and "sessions \<noteq> []"
  shows "\<exists>s \<in> snd ` set sessions. select_peer oc sessions target = Some (Some s) \<and>
    (case target of
       None \<Rightarrow> (\<forall>s' \<in> snd ` set sessions. latest_or_default s' \<le> latest_or_default s)
     | Some n \<Rightarrow> (\<exists>s' \<in> snd ` set sessions. eligible n s') \<longrightarrow> eligible n s \<and>
         (\<forall>s' \<in> snd ` set sessions. eligible n s' \<longrightarrow> latest_or_default s' \<le> latest_or_default s))"
proof (cases target)
  case None
  obtain s where "max_by_key latest_or_default (map snd sessions) = Some s"
    using assms(2) by (cases "max_by_key latest_or_default (map snd sessions)") auto
  then show ?thesis using None max_by_key_Some [of latest_or_default "map snd sessions" s]
    by (auto simp: select_peer_def)
next
  case (Some n)
  show ?thesis
  proof (cases "max_by_key latest_or_default (filter (eligible n) (map snd sessions))")
    case None
    then have "\<forall>s' \<in> snd ` set sessions. \<not> eligible n s'" by (simp add: filter_empty_conv)
    then show ?thesis using Some None select_peer_target [OF assms(1), of oc n] assms(2) by (cases sessions) auto
  next
    case (Some s)
    then show ?thesis
      using \<open>target = Some n\<close> select_peer_target [OF assms(1), of oc n] max_by_key_Some [OF Some] by auto
  qed
qed

text \<open>
  The listener's session table follows the network's events up to shutdown: a peer is in it
  exactly if its last event opened a session, with that session's head; the table has one
  entry per peer, and the recorded peer count is its size.
\<close>
lemma peer_sessions_tracked:
  "map_of (fst (run_peer_event_listener ins ([], telemetry_new P2pKind))) =
     fold session_map (events_before_shutdown ins) Map.empty \<and>
   distinct (map fst (fst (run_peer_event_listener ins ([], telemetry_new P2pKind)))) \<and>
   p2p_peer_count (snd (run_peer_event_listener ins ([], telemetry_new P2pKind))) =
     of_nat (card (dom (fold session_map (events_before_shutdown ins) Map.empty)))"
proof -
  let ?st = "run_peer_event_listener ins ([], telemetry_new P2pKind)"
  have ok: "sessions_ok ?st" "map_of (fst ?st) = fold session_map (events_before_shutdown ins) Map.empty"
    using run_peer_event_listener_ok [of "([], telemetry_new P2pKind)" ins] by (simp_all add: sessions_ok_def telemetry_new_def)
  have "card (dom (map_of (fst ?st))) = length (fst ?st)"
    using ok(1) by (simp add: sessions_ok_def dom_map_of_conv_image_fst distinct_card [of "map fst (fst ?st)", simplified])
  then show ?thesis using ok by (simp add: sessions_ok_def)
qed

text \<open>
  The transport cannot be started: every configuration, under every feature set, is answered
  with an error, so its tasks run only if the early returns are removed.
\<close>
lemma p2p_connect_fails: "\<exists>e. p2p_connect ft cfg = Inl e"
  by (cases "block_transport cfg") (auto simp: p2p_connect_def)

text \<open>The backfill of the embedded pool sends nothing, whatever the pool holds.\<close>
lemma p2p_backfill_sends_nothing:
  "p2p_run_backfill pooled changed accepts t = ([], t\<lparr>initial_backfill_txs := of_nat (length pooled)\<rparr>)"
  by (simp add: p2p_run_backfill_def p2p_send_backfill_nothing record_backfill_size_def)

lemma parse_bootnodes_spec:
  "parse_bootnodes parse nodes = (case find (\<lambda>n. isl (parse n)) nodes of
     None \<Rightarrow> Inr (map (projr \<circ> parse) nodes)
   | Some n \<Rightarrow> Inl (Setup (''failed to parse bootnode `'' @ n @ ''`: '' @ projl (parse n))))"
  by (induction nodes) (auto split: sum.splits option.splits)

end
