(* ===== verification/P2P_Start.thy ===== *)
theory P2P_Start
  imports P2P
begin

text \<open>
  The part of \<open>connect_with_config\<close> in transport/p2p.rs that follows the \<open>match\<close>, which the
  early returns make unreachable: the options of the network, the tracker and the tasks it
  would start; and what these tasks together would feed the tracker. How a bootnode is
  parsed and how the network starts are reth's and parameters here.
\<close>

subsection \<open>Starting the network\<close>

text \<open>The calls on reth's configuration builder, in order.\<close>

datatype 'peer builder_call = SetAddrs string | MainnetBootNodes | BootNodes "'peer list" | DisableDiscv4Discovery

definition network_builder :: "(string \<Rightarrow> string + 'peer) \<Rightarrow> p2p_config \<Rightarrow> tracker_error + 'peer builder_call list" where
  "network_builder parse cfg =
     (let addrs = (case listen_addr cfg of Some addr \<Rightarrow> [SetAddrs addr] | None \<Rightarrow> []);
          discovery = (if discovery_v4 cfg then [] else [DisableDiscv4Discovery])
      in if bootnodes cfg = [] then Inr (addrs @ [MainnetBootNodes] @ discovery)
         else case parse_bootnodes parse (bootnodes cfg) of
           Inl e \<Rightarrow> Inl e
         | Inr boot_nodes \<Rightarrow> Inr (addrs @ [BootNodes boot_nodes] @ discovery))"

datatype p2p_task = NetworkTask | TxpoolTask | PendingTask | BackfillTask | PeerEventsTask | BlockPollerTask

definition p2p_tasks :: "p2p_config \<Rightarrow> p2p_task list" where
  "p2p_tasks cfg = [NetworkTask, TxpoolTask, PendingTask, BackfillTask, PeerEventsTask] @
     (if block_transport cfg = ExecutionPolling then [BlockPollerTask] else [])"

text \<open>\<open>start\<close> is the outcome of building the network manager with these options.\<close>

definition p2p_start ::
  "bool \<Rightarrow> (string \<Rightarrow> string + 'peer) \<Rightarrow> ('peer builder_call list \<Rightarrow> string + unit) \<Rightarrow> p2p_config \<Rightarrow> tracker_config \<Rightarrow>
   tracker_error + (mempool option \<times> telemetry \<times> tracker_runtime \<times> p2p_task list)" where
  "p2p_start oc parse start cfg tracker_cfg =
     (case network_builder parse cfg of
        Inl e \<Rightarrow> Inl e
      | Inr calls \<Rightarrow>
          (case start calls of
             Inl err \<Rightarrow> Inl (Setup err)
           | Inr _ \<Rightarrow>
               (let tasks = p2p_tasks cfg
                in Inr (from_channel oc [] tracker_cfg, telemetry_new P2pKind, runtime_new (length tasks), tasks))))"

text \<open>
  Starting fails only with a setup error, of the first bootnode that does not parse or of the
  network; otherwise the tracker starts empty, no task is aborted, and the block poller is
  among the tasks exactly for the transport that the \<open>match\<close> refuses first.
\<close>
lemma p2p_start_spec:
  "case p2p_start oc parse start cfg tracker_cfg of
     Inl e \<Rightarrow> (\<exists>err. e = Setup err) \<and>
       ((\<exists>node \<in> set (bootnodes cfg). isl (parse node)) \<or> (\<exists>calls. network_builder parse cfg = Inr calls \<and> isl (start calls)))
   | Inr (mo, t, rt, tasks) \<Rightarrow> mo = Some (empty_pool tracker_cfg) \<and> t = telemetry_new P2pKind \<and>
       rt = runtime_new (length tasks) \<and> distinct tasks \<and> (BlockPollerTask \<in> set tasks \<longleftrightarrow> block_transport cfg = ExecutionPolling) \<and>
       (\<forall>node \<in> set (bootnodes cfg). \<not> isl (parse node))"
proof -
  have b: "network_builder parse cfg = Inl e \<Longrightarrow> (\<exists>err. e = Setup err) \<and> (\<exists>node \<in> set (bootnodes cfg). isl (parse node))"
    "network_builder parse cfg = Inr calls \<Longrightarrow> \<forall>node \<in> set (bootnodes cfg). \<not> isl (parse node)" for e calls
    by (auto simp: network_builder_def parse_bootnodes_spec Let_def find_None_iff find_Some_iff
        split: if_splits sum.splits option.splits)
  show ?thesis
  proof (cases "network_builder parse cfg")
    case (Inl e)
    then show ?thesis using b(1) [OF Inl] by (simp add: p2p_start_def)
  next
    case (Inr calls)
    then show ?thesis using b(2) [OF Inr]
      by (cases "start calls") (auto simp: p2p_start_def p2p_tasks_def Let_def from_channel_def empty_pool_def)
  qed
qed

subsection \<open>What the tasks feed the tracker\<close>

definition polled_block :: "polled_header \<Rightarrow> mempool_event option" where
  "polled_block h = map_option (\<lambda>body. NewBlock (block_update_from_header_body (ph_header h) body)) (request_block_body (ph_body h))"

lemma poll_headers_sent:
  "poll_headers oc hs p = Some p' \<Longrightarrow> set (poller_sent p') \<subseteq> set (poller_sent p) \<union> {ev. \<exists>h \<in> set hs. polled_block h = Some ev}"
proof (induction hs arbitrary: p)
  case (Cons h hs)
  from Cons.prems Cons.IH show ?case
    by (fastforce simp: polled_block_def Let_def bind_eq_Some_conv split: if_splits option.splits)
qed simp

lemma run_block_poller_sent:
  "run_block_poller oc rounds p = Some p' \<Longrightarrow> ev \<in> set (poller_sent p') \<Longrightarrow> ev \<notin> set (poller_sent p) \<Longrightarrow>
   \<exists>sessions answer req hs h. PollTick sessions answer \<in> set rounds \<and> answer req = Headers hs \<and> h \<in> set hs \<and> polled_block h = Some ev"
proof (induction rounds arbitrary: p)
  case (Cons r rounds)
  show ?case
  proof (cases r)
    case PollShutdown
    then show ?thesis using Cons.prems by auto
  next
    case (PollTick sessions answer)
    have more: ?thesis if "run_block_poller oc rounds q = Some p'" "ev \<notin> set (poller_sent q)" for q
      using Cons.IH [OF that(1) Cons.prems(2) that(2)] by (meson list.set_intros(2))
    obtain selected where sel: "select_peer oc sessions (next_number p) = Some selected"
      using Cons.prems(1) PollTick by (auto simp: bind_eq_Some_conv)
    show ?thesis
    proof (cases "\<exists>peer h hs. selected = Some peer \<and> request_next_headers peer (next_number p) answer = Inr (h # hs)")
      case False
      then have "run_block_poller oc (r # rounds) p = run_block_poller oc rounds p"
        using sel PollTick by (auto simp del: request_next_headers.simps split: option.splits sum.splits list.splits)
      then show ?thesis using more Cons.prems by simp
    next
      case True
      then obtain peer h hs where req: "selected = Some peer" "request_next_headers peer (next_number p) answer = Inr (h # hs)"
        by blast
      then have ans: "answer (headers_request peer (next_number p)) = Headers (h # hs)" by (auto split: headers_reply.splits)
      obtain p1 where p1: "poll_headers oc (h # hs) p = Some p1" "poller_on p1 \<longrightarrow> run_block_poller oc rounds p1 = Some p'"
        "\<not> poller_on p1 \<longrightarrow> p1 = p'"
        using Cons.prems(1) sel req PollTick
        by (auto simp: bind_eq_Some_conv simp del: request_next_headers.simps poll_headers.simps split: if_splits)
      show ?thesis
      proof (cases "ev \<in> set (poller_sent p1)")
        case True
        then obtain h' where "h' \<in> set (h # hs)" "polled_block h' = Some ev"
          using poll_headers_sent [OF p1(1)] Cons.prems(3) by blast
        then show ?thesis using ans PollTick by (metis list.set_intros(1))
      next
        case False
        then show ?thesis using p1 more Cons.prems(2) by auto
      qed
    qed
  qed
qed simp

text \<open>
  The tracker behind the peer-to-peer transport is safe: it starts from the empty pool, and
  any interleaving of what the pending listener and the block poller send is handled without
  a panic and keeps the state well-formed, if the pool's transactions and the peers' bodies
  are in range. The backfill adds nothing.
\<close>
lemma p2p_feeds_tracker_safely:
  assumes "p2p_start oc parse start cfg tracker_cfg = Inr (mo, tel, rt, tasks)"
    and "run_block_poller oc rounds (poller_new t2) = Some p"
    and "evs \<in> shuffles (fst (run_pending_listener pend t1) @ fst (p2p_run_backfill pooled changed accepts t3)) (poller_sent p)"
    and "\<forall>tx sent. Item (Some tx) sent \<in> set pend \<longrightarrow> unat (ptx_tx_nonce tx) < 2 ^ 64 - 1"
    and "\<forall>sessions answer req hs. PollTick sessions answer \<in> set rounds \<and> answer req = Headers hs \<longrightarrow>
      (\<forall>h \<in> set hs. \<forall>ev. polled_block h = Some ev \<longrightarrow> event_in_range ev)"
  shows "\<exists>m0 m. mo = Some m0 \<and> tracker_run oc evs m0 = Some m \<and> wf_mempool m"
proof -
  have pend: "event_in_range ev" if l: "ev \<in> set (fst (run_pending_listener pend t1))" for ev
  proof -
    obtain tx where "Item (Some tx) True \<in> set pend" "ev = PendingTransaction (pending_tx_from_reth tx)"
      using listener_loop.delivered_events [OF l] by (auto simp: listener_event_def)
    then show ?thesis using assms(4) by (auto simp: tx_ok_def pending_tx_from_reth_def)
  qed
  have poll: "event_in_range ev" if "ev \<in> set (poller_sent p)" for ev
    using run_block_poller_sent [OF assms(2) that] assms(5) by (auto simp: poller_new_def)
  have "set evs = set (fst (run_pending_listener pend t1)) \<union> set (poller_sent p)"
    using set_shuffles [OF assms(3)] by (simp add: p2p_backfill_sends_nothing)
  then have "\<forall>ev \<in> set evs. event_in_range ev" using pend poll by auto
  moreover have "mo = Some (empty_pool tracker_cfg)" using p2p_start_spec [where oc = oc and parse = parse and start = start and cfg = cfg and tracker_cfg = tracker_cfg] assms(1) by simp
  ultimately show ?thesis using tracker_run_ok [OF wf_empty_pool, of evs oc tracker_cfg] by blast
qed

end
