(* ===== verification/Cli_Args.thy ===== *)
theory Cli_Args
  imports P2P Decimal
begin

text \<open>
  The command line of crates/mempooloracle/examples/cli_tool.rs: reading numbers, the
  argument loop, the choice of the data source and the transport it leads to. A call of
  \<open>print_usage_and_exit\<close> is a value of \<open>usage_error\<close>, one for each message. Round trip of
  printed arguments through the parser.
\<close>

subsection \<open>Arguments\<close>

datatype data_source =
    LiveSource string
  | P2pSource string "string list" bool
  | SimulatedSource

record cli_args =
  duration_secs :: u64
  source :: data_source

datatype usage_error =
    MissingValue string
  | InvalidDuration string
  | Unrecognized string
  | SimulateAndWsUrl
  | SeveralSources
  | NoSource

record arg_state =
  arg_duration :: u64
  ws_url :: "string option"
  simulate :: bool
  p2p :: bool
  chain :: string
  boots :: "string list"
  discovery :: bool

fun strip_prefix :: "string \<Rightarrow> string \<Rightarrow> string option" where
  "strip_prefix [] s = Some s"
| "strip_prefix (p # ps) [] = None"
| "strip_prefix (p # ps) (c # cs) = (if p = c then strip_prefix ps cs else None)"

definition parse_duration_value :: "string \<Rightarrow> usage_error + u64" where
  "parse_duration_value v = (case parse_u64 v of Some d \<Rightarrow> Inr d | None \<Rightarrow> Inl (InvalidDuration v))"

text \<open>The options that take a value, in either spelling.\<close>

datatype value_option = DurationOpt | WsUrlOpt | ChainOpt | BootnodeOpt

fun option_name :: "value_option \<Rightarrow> string" where
  "option_name DurationOpt = ''--duration''"
| "option_name WsUrlOpt = ''--ws-url''"
| "option_name ChainOpt = ''--chain''"
| "option_name BootnodeOpt = ''--bootnode''"

fun set_value :: "value_option \<Rightarrow> string \<Rightarrow> arg_state \<Rightarrow> usage_error + arg_state" where
  "set_value DurationOpt v st =
     (case parse_duration_value v of Inl e \<Rightarrow> Inl e | Inr d \<Rightarrow> Inr (st\<lparr>arg_duration := d\<rparr>))"
| "set_value WsUrlOpt v st = Inr (st\<lparr>ws_url := Some v\<rparr>)"
| "set_value ChainOpt v st = Inr (st\<lparr>chain := v\<rparr>)"
| "set_value BootnodeOpt v st = Inr (st\<lparr>boots := boots st @ [v]\<rparr>)"

text \<open>
  One pass of the loop: an argument is an option with its value, an option whose value is the
  next argument, a flag, or unknown; the tests come in the order of the source.
\<close>

datatype arg_class = WithValue value_option string | NeedsValue value_option | SimulateFlag | P2pFlag | NoDiscoveryFlag | UnknownArg

definition option_kind :: "value_option \<Rightarrow> string \<Rightarrow> arg_class option" where
  "option_kind opt arg =
     (case strip_prefix (option_name opt @ ''='') arg of
        Some v \<Rightarrow> Some (WithValue opt v)
      | None \<Rightarrow> if arg = option_name opt then Some (NeedsValue opt) else None)"

definition arg_kind :: "string \<Rightarrow> arg_class" where
  "arg_kind arg =
     (case option_kind DurationOpt arg of Some k \<Rightarrow> k | None \<Rightarrow>
      case option_kind WsUrlOpt arg of Some k \<Rightarrow> k | None \<Rightarrow>
      if arg = ''--simulate'' then SimulateFlag
      else if arg = ''--p2p'' then P2pFlag
      else case option_kind ChainOpt arg of Some k \<Rightarrow> k | None \<Rightarrow>
      case option_kind BootnodeOpt arg of Some k \<Rightarrow> k | None \<Rightarrow>
      if arg = ''--disable-discovery-v4'' then NoDiscoveryFlag else UnknownArg)"

fun parse_loop :: "string list \<Rightarrow> arg_state \<Rightarrow> usage_error + arg_state" where
  "parse_loop [] st = Inr st"
| "parse_loop (arg # rest) st =
     (case arg_kind arg of
        WithValue opt v \<Rightarrow> (case set_value opt v st of Inl e \<Rightarrow> Inl e | Inr st' \<Rightarrow> parse_loop rest st')
      | NeedsValue opt \<Rightarrow>
          (case rest of
             [] \<Rightarrow> Inl (MissingValue (option_name opt))
           | v # rest' \<Rightarrow> (case set_value opt v st of Inl e \<Rightarrow> Inl e | Inr st' \<Rightarrow> parse_loop rest' st'))
      | SimulateFlag \<Rightarrow> parse_loop rest (st\<lparr>simulate := True\<rparr>)
      | P2pFlag \<Rightarrow> parse_loop rest (st\<lparr>p2p := True\<rparr>)
      | NoDiscoveryFlag \<Rightarrow> parse_loop rest (st\<lparr>discovery := False\<rparr>)
      | UnknownArg \<Rightarrow> Inl (Unrecognized arg))"

definition choose_source :: "arg_state \<Rightarrow> usage_error + data_source" where
  "choose_source st =
     (case (simulate st, p2p st, ws_url st) of
        (True, False, Some _) \<Rightarrow> Inl SimulateAndWsUrl
      | (True, True, _) \<Rightarrow> Inl SeveralSources
      | (False, True, Some _) \<Rightarrow> Inl SeveralSources
      | (True, False, None) \<Rightarrow> Inr SimulatedSource
      | (False, True, None) \<Rightarrow> Inr (P2pSource (chain st) (boots st) (discovery st))
      | (False, False, Some url) \<Rightarrow> Inr (LiveSource url)
      | (False, False, None) \<Rightarrow> Inl NoSource)"

text \<open>The two environment variables, MEMPOOLORACLE_WS_URL before ETH_WS_URL, and the arguments.\<close>

definition initial_args :: "string option \<Rightarrow> string option \<Rightarrow> arg_state" where
  "initial_args env1 env2 =
     \<lparr>arg_duration = 30, ws_url = (case env1 of Some u \<Rightarrow> Some u | None \<Rightarrow> env2), simulate = False, p2p = False,
      chain = ''mainnet'', boots = [], discovery = True\<rparr>"

definition parse_args :: "string option \<Rightarrow> string option \<Rightarrow> string list \<Rightarrow> usage_error + cli_args" where
  "parse_args env1 env2 args =
     (case parse_loop args (initial_args env1 env2) of
        Inl e \<Rightarrow> Inl e
      | Inr st \<Rightarrow> (case choose_source st of Inl e \<Rightarrow> Inl e | Inr s \<Rightarrow> Inr \<lparr>duration_secs = arg_duration st, source = s\<rparr>))"

text \<open>The transport \<open>main\<close> connects to; the simulation has none.\<close>

fun source_transport :: "data_source \<Rightarrow> tracker_transport option" where
  "source_transport (LiveSource url) = Some RpcTransport"
| "source_transport (P2pSource ch bs disc) =
     Some (P2pTransport \<lparr>p2p_chain = ch, bootnodes = bs, discovery_v4 = disc, listen_addr = None,
       block_transport = Consensus Eth2Libp2p\<rparr>)"
| "source_transport SimulatedSource = None"

subsection \<open>Reading what was printed\<close>

lemma strip_prefix_append [simp]: "strip_prefix p (p @ s) = Some s"
  by (induction p) auto

lemma arg_kind_equals [simp]: "arg_kind (option_name opt @ CHR ''='' # v) = WithValue opt v"
  by (cases opt) (simp_all add: arg_kind_def option_kind_def)

lemma arg_kind_name [simp]: "arg_kind (option_name opt) = NeedsValue opt"
  by (cases opt) (simp_all add: arg_kind_def option_kind_def)

lemma arg_kind_flags [simp]:
  "arg_kind ''--simulate'' = SimulateFlag" "arg_kind ''--p2p'' = P2pFlag"
  "arg_kind ''--disable-discovery-v4'' = NoDiscoveryFlag"
  by (simp_all add: arg_kind_def option_kind_def)

lemma both_spellings:
  "parse_loop ((option_name opt @ CHR ''='' # v) # rest) st = parse_loop (option_name opt # v # rest) st"
  by simp

text \<open>The command line that asks for given arguments.\<close>

definition with_value :: "value_option \<Rightarrow> string \<Rightarrow> string" where
  "with_value opt v = option_name opt @ CHR ''='' # v"

fun print_source :: "data_source \<Rightarrow> string list" where
  "print_source (LiveSource url) = [''--ws-url'', url]"
| "print_source (P2pSource ch bs disc) =
     ''--p2p'' # with_value ChainOpt ch # map (with_value BootnodeOpt) bs @ (if disc then [] else [''--disable-discovery-v4''])"
| "print_source SimulatedSource = [''--simulate'']"

definition print_args :: "cli_args \<Rightarrow> string list" where
  "print_args a = with_value DurationOpt (show_nat (unat (duration_secs a))) # print_source (source a)"

lemma parse_loop_with_value:
  "parse_loop (with_value opt v # rest) st = (case set_value opt v st of Inl e \<Rightarrow> Inl e | Inr st' \<Rightarrow> parse_loop rest st')"
  by (simp add: with_value_def)

lemma parse_loop_bootnodes:
  "parse_loop (map (with_value BootnodeOpt) bs @ rest) st = parse_loop rest (st\<lparr>boots := boots st @ bs\<rparr>)"
  by (induction bs arbitrary: st) (simp_all add: parse_loop_with_value del: parse_loop.simps(2))

lemma parse_loop_flags:
  "parse_loop (''--simulate'' # rest) st = parse_loop rest (st\<lparr>simulate := True\<rparr>)"
  "parse_loop (''--p2p'' # rest) st = parse_loop rest (st\<lparr>p2p := True\<rparr>)"
  "parse_loop (''--disable-discovery-v4'' # rest) st = parse_loop rest (st\<lparr>discovery := False\<rparr>)"
  by simp_all

lemma parse_loop_ws_url: "parse_loop (''--ws-url'' # url # rest) st = parse_loop rest (st\<lparr>ws_url := Some url\<rparr>)"
  using arg_kind_name [of WsUrlOpt] by simp

subsection \<open>Properties\<close>

text \<open>
  C28: The command line round trip: the arguments printed for a duration and a data source are
  parsed back to exactly these, for every 64-bit duration, URL, chain name, list of
  bootnodes and discovery setting. A URL given as an argument also overrides the environment.
\<close>
theorem parse_print_args:
  "parse_args None None (print_args a) = Inr a \<and>
   (case source a of LiveSource url \<Rightarrow> parse_args env1 env2 (print_args a) = Inr a | _ \<Rightarrow> True)"
proof -
  obtain d s where a: "a = \<lparr>duration_secs = d, source = s\<rparr>" by (cases a)
  show ?thesis
    by (cases s) (auto simp: a print_args_def parse_args_def parse_loop_with_value parse_loop_bootnodes parse_loop_ws_url
        parse_loop_flags parse_duration_value_def initial_args_def choose_source_def simp del: parse_loop.simps(2))
qed

end
