(* ===== verification/Cli_App.thy ===== *)
theory Cli_App
  imports Cli_Args
begin

text \<open>
  The terminal program of crates/mempooloracle/examples/cli_tool.rs: the snapshot it takes of
  the tracker, the state of its view, what the view shows, its key bindings and its loop.
  Rendering is modelled up to the widgets: the text of titles and rows, the bars of the
  chart and the scroll position; colours and the layout of ratatui are not. A panic is
  \<open>None\<close>.
\<close>

subsection \<open>Snapshots\<close>

record tx_row =
  row_nonce :: u64
  row_effective :: u128
  row_priority :: u128
  row_max_fee :: u128
  row_gas :: u64
  row_eta :: u64
  row_sender :: "u8 \<times> u8"

record telemetry_view =
  view_pending :: u64
  view_blocks :: u64
  view_block_txs :: u64
  view_block_gas :: u64

definition view_of_telemetry :: "telemetry \<Rightarrow> telemetry_view" where
  "view_of_telemetry t = \<lparr>view_pending = pending_seen t, view_blocks = block_count t,
     view_block_txs = last_block_txs t, view_block_gas = last_block_gas_used t\<rparr>"

record snapshot =
  elapsed_secs :: u64
  snap_base_fee :: u128
  private_flow :: f64
  private_flow_percent :: u64
  min_tip :: u128
  expected_txs :: u64
  gas_used_for_next_block :: u64
  snap_capacity :: u64
  next_block_fill_percent :: u64
  marketable_count :: u64
  marketable_utilization :: u64
  snap_telemetry :: telemetry_view
  ranked_rows :: "tx_row list"

text \<open>\<open>f64::round\<close>: to the nearest integer, ties away from zero.\<close>

fun f64_round :: "f64 \<Rightarrow> f64" where
  "f64_round (Finite a) = Finite (if a < 0 then - of_int \<lfloor>1 / 2 - a\<rfloor> else of_int \<lfloor>a + 1 / 2\<rfloor>)"
| "f64_round x = x"

definition saturating_mul :: "'a::len word \<Rightarrow> 'a word \<Rightarrow> 'a word" where
  "saturating_mul a b = (if 2 ^ LENGTH('a) \<le> unat a * unat b then - 1 else a * b)"

text \<open>
  The loop over the ranked keys. Each call of the handle takes the lock anew, so the tracker
  may have moved on between two calls: \<open>pool i\<close> is the state the \<open>i\<close>-th call reads.
\<close>

record next_block_set =
  set_txs :: u64
  set_tip :: u128
  set_gas :: u64
  set_rows :: "tx_row list"

definition make_row :: "u128 \<Rightarrow> pending_tx \<Rightarrow> u64 option \<Rightarrow> tx_row" where
  "make_row fee tx eta =
     \<lparr>row_nonce = ptx_nonce tx, row_effective = fee, row_priority = max_priority_fee_per_gas tx,
      row_max_fee = max_fee_per_gas tx, row_gas = gas_limit tx, row_eta = (case eta of Some e \<Rightarrow> e | None \<Rightarrow> 0),
      row_sender = (ucast (drop_bit 152 (ptx_sender tx)), ucast (drop_bit 144 (ptx_sender tx)))\<rparr>"

definition add_row :: "bool \<Rightarrow> (nat \<Rightarrow> mempool) \<Rightarrow> nat \<Rightarrow> u128 \<Rightarrow> pending_tx \<Rightarrow> next_block_set \<Rightarrow> (nat \<times> next_block_set) option" where
  "add_row oc pool i fee tx acc =
     (if length (set_rows acc) < 256
      then do {
        eta \<leftarrow> estimated_blocks_to_confirm oc (pool i) (ptx_id tx);
        Some (Suc i, acc\<lparr>set_rows := set_rows acc @ [make_row fee tx eta]\<rparr>)
      }
      else Some (i, acc))"

definition pack_tx :: "bool \<Rightarrow> u64 \<Rightarrow> u128 \<Rightarrow> pending_tx \<Rightarrow> next_block_set \<Rightarrow> next_block_set option" where
  "pack_tx oc capacity fee tx acc = do {
     total \<leftarrow> rust_add oc (set_gas acc) (gas_limit tx);
     if capacity < total then Some acc
     else do {
       gas \<leftarrow> rust_add oc (set_gas acc) (gas_limit tx);
       txs \<leftarrow> rust_add oc (set_txs acc) 1;
       Some (acc\<lparr>set_gas := gas, set_tip := fee, set_txs := txs\<rparr>)
     }
   }"

fun capture_loop ::
  "bool \<Rightarrow> (nat \<Rightarrow> mempool) \<Rightarrow> u64 \<Rightarrow> nat \<Rightarrow> fee_key list \<Rightarrow> next_block_set \<Rightarrow> next_block_set option" where
  "capture_loop oc pool capacity i [] acc = Some acc"
| "capture_loop oc pool capacity i ((fee, a, n) # keys) acc =
     (case find_tx_by_addr_and_nonce (pool i) a n of
        None \<Rightarrow> capture_loop oc pool capacity (Suc i) keys acc
      | Some tx \<Rightarrow> do {
          (j, acc) \<leftarrow> add_row oc pool (Suc i) fee tx acc;
          acc \<leftarrow> pack_tx oc capacity fee tx acc;
          capture_loop oc pool capacity j keys acc
        })"

definition capture :: "bool \<Rightarrow> (nat \<Rightarrow> mempool) \<Rightarrow> telemetry_view \<Rightarrow> u64 \<Rightarrow> snapshot option" where
  "capture oc pool tel elapsed =
     (let flow = f64_mul (private_flow_ratio (pool 1)) (Finite 100);
          capacity = f64_to_word (f64_mul (f64_of_word (last_block_gas_limit (pool 2)))
            (f64_sub (Finite 1) (private_flow_ratio (pool 3))));
          pq = priority_queue_view (pool 4)
      in do {
        acc \<leftarrow> capture_loop oc pool capacity 5 pq \<lparr>set_txs = 0, set_tip = 0, set_gas = 0, set_rows = []\<rparr>;
        Some \<lparr>elapsed_secs = elapsed, snap_base_fee = current_base_fee (pool 0), private_flow = flow,
          private_flow_percent = f64_to_word (f64_round flow), min_tip = set_tip acc, expected_txs = set_txs acc,
          gas_used_for_next_block = set_gas acc, snap_capacity = capacity,
          next_block_fill_percent =
            (if capacity = 0 then 0 else saturating_mul (set_gas acc) 100 div capacity),
          marketable_count = of_nat (length pq),
          marketable_utilization = min (of_nat (length pq)) 1000 * 100 div 1000,
          snap_telemetry = tel, ranked_rows = set_rows acc\<rparr>
      })"

subsection \<open>The view\<close>

record app =
  app_duration :: u64
  snapshots :: "snapshot list"
  tx_scroll :: u64

definition app_new :: "u64 \<Rightarrow> app" where
  "app_new d = \<lparr>app_duration = d, snapshots = [], tx_scroll = 0\<rparr>"

definition latest :: "app \<Rightarrow> snapshot option" where
  "latest a = (if snapshots a = [] then None else Some (last (snapshots a)))"

definition max_scroll :: "app \<Rightarrow> u64 \<Rightarrow> u64 option" where
  "max_scroll a visible_rows = do {
     s \<leftarrow> latest a;
     Some (saturating_sub (of_nat (length (ranked_rows s))) (max visible_rows 1))
   }"

definition clamp_scroll :: "u64 \<Rightarrow> app \<Rightarrow> app option" where
  "clamp_scroll visible_rows a = do { m \<leftarrow> max_scroll a visible_rows; Some (a\<lparr>tx_scroll := min (tx_scroll a) m\<rparr>) }"

definition push_snapshot :: "snapshot \<Rightarrow> app \<Rightarrow> app option" where
  "push_snapshot s a =
     (let ss = snapshots a @ [s];
          ss = (if 60 < length ss then drop (length ss - 60) ss else ss)
      in clamp_scroll 0 (a\<lparr>snapshots := ss\<rparr>))"

definition scroll_up :: "u64 \<Rightarrow> app \<Rightarrow> app" where
  "scroll_up amount a = a\<lparr>tx_scroll := saturating_sub (tx_scroll a) amount\<rparr>"

definition scroll_down :: "bool \<Rightarrow> u64 \<Rightarrow> u64 \<Rightarrow> app \<Rightarrow> app option" where
  "scroll_down oc amount visible_rows a = do {
     m \<leftarrow> max_scroll a visible_rows;
     t \<leftarrow> rust_add oc (tx_scroll a) amount;
     Some (a\<lparr>tx_scroll := min t m\<rparr>)
   }"

text \<open>
  \<open>transaction_rows\<close> and the last line of \<open>transaction_pane_rows\<close>; the height of the pane is
  what the layout of ratatui gives it.
\<close>

definition pane_rows :: "16 word \<Rightarrow> u64" where
  "pane_rows height = ucast (max (saturating_sub height 2) 1)"

definition transaction_rows :: "snapshot \<Rightarrow> 16 word \<Rightarrow> u64" where
  "transaction_rows s height = (if ranked_rows s = [] then 1 else pane_rows height)"

text \<open>Formatting: \<open>{:>w}\<close> pads on the left, \<open>{:02x}\<close> prints two hexadecimal digits.\<close>

definition pad :: "nat \<Rightarrow> string \<Rightarrow> string" where
  "pad w s = replicate (w - length s) CHR '' '' @ s"

definition hex_digit :: "nat \<Rightarrow> char" where
  "hex_digit d = (if d < 10 then char_of (48 + d) else char_of (87 + d))"

definition hex2 :: "u8 \<Rightarrow> string" where
  "hex2 b = [hex_digit (unat b div 16), hex_digit (unat b mod 16)]"

definition row_text :: "tx_row \<Rightarrow> string" where
  "row_text r =
     pad 4 (show_word (row_nonce r)) @ '' eff '' @ pad 3 (show_word (row_effective r)) @
     '' tip '' @ pad 3 (show_word (row_priority r)) @ '' max '' @ pad 3 (show_word (row_max_fee r)) @
     '' gas '' @ pad 6 (show_word (row_gas r)) @ '' eta '' @ pad 2 (show_word (row_eta r)) @ '' '' @
     hex2 (fst (row_sender r)) @ hex2 (snd (row_sender r)) @ ''..''"

definition list_title :: "bool \<Rightarrow> snapshot \<Rightarrow> u64 \<Rightarrow> u64 \<Rightarrow> string option" where
  "list_title oc s scroll visible_rows =
     (let n = of_nat (length (ranked_rows s)) :: u64 in
      if ranked_rows s = []
      then Some (''Ranked Pending Transactions [0 of '' @ show_word (marketable_count s) @ '']'')
      else do {
        first \<leftarrow> rust_add oc scroll 1;
        upto \<leftarrow> rust_add oc scroll visible_rows;
        Some (''Ranked Pending Transactions ['' @ show_word first @ ''-'' @ show_word (min upto n) @
          '' of '' @ show_word (marketable_count s) @
          (if n < marketable_count s then '' | sampled top '' @ show_word n else []) @ '']'')
      })"

definition list_items :: "snapshot \<Rightarrow> u64 \<Rightarrow> u64 \<Rightarrow> string list" where
  "list_items s scroll visible_rows =
     (if ranked_rows s = [] then [''No marketable transactions yet.'']
      else map row_text (take (unat visible_rows) (drop (unat scroll) (ranked_rows s))))"

definition render_top_transactions :: "bool \<Rightarrow> 16 word \<Rightarrow> app \<Rightarrow> (string \<times> string list \<times> app) option" where
  "render_top_transactions oc height a = do {
     s \<leftarrow> latest a;
     let visible_rows = transaction_rows s height;
     a \<leftarrow> clamp_scroll visible_rows a;
     title \<leftarrow> list_title oc s (tx_scroll a) visible_rows;
     Some (title, list_items s (tx_scroll a) visible_rows, a)
   }"

text \<open>The bars of \<open>render_base_fee_chart\<close>, and the texts of the header, metrics and footer.\<close>

definition base_fee_bars :: "app \<Rightarrow> (string \<times> u64) list" where
  "base_fee_bars a =
     (let recent = rev (take 10 (rev (snapshots a)))
      in map (\<lambda>(i, s). (show_nat (i + 1), ucast (min (snap_base_fee s) (ucast (- 1 :: u64))))) (enumerate 0 recent))"

definition header_texts :: "app \<Rightarrow> string list option" where
  "header_texts a = do {
     s \<leftarrow> latest a;
     Some [''Mempool Oracle'', ''  '', if app_duration a = 0 then ''live until Ctrl-C'' else ''timed capture'', ''  '',
       ''uptime '' @ show_word (elapsed_secs s) @ ''s'', ''  '', ''blocks '' @ show_word (view_blocks (snap_telemetry s)), ''  '',
       ''pending seen '' @ show_word (view_pending (snap_telemetry s))]
   }"

definition metric_lines :: "app \<Rightarrow> (string \<times> string) list option" where
  "metric_lines a = do {
     s \<leftarrow> latest a;
     Some [(''Base fee: '', show_word (snap_base_fee s)), (''Min tip next block: '', show_word (min_tip s)),
       (''Expected txs next block: '', show_word (expected_txs s)),
       (''Gas in next block set: '', show_word (gas_used_for_next_block s)),
       (''Usable capacity: '', show_word (snap_capacity s)),
       (''Last block gas used: '', show_word (view_block_gas (snap_telemetry s))),
       (''Last block txs: '', show_word (view_block_txs (snap_telemetry s))),
       (''Tracker queue depth: '', show_word (marketable_count s))]
   }"

definition gauge_percents :: "app \<Rightarrow> (16 word \<times> 16 word \<times> 16 word) option" where
  "gauge_percents a = do {
     s \<leftarrow> latest a;
     Some (ucast (min (private_flow_percent s) 100), ucast (min (next_block_fill_percent s) 100),
       ucast (min (marketable_utilization s) 100))
   }"

definition footer_text :: "app \<Rightarrow> string" where
  "footer_text a =
     (if app_duration a = 0 then ''Up/Down or j/k scroll txs. PgUp/PgDn jump. Ctrl-C, q, or Esc quits.''
      else ''Timed run active. Up/Down or j/k scroll txs. Ctrl-C, q, or Esc exits early.'')"

text \<open>\<open>render\<close>: every part that reads the latest snapshot, then the scrolled list.\<close>

definition render :: "bool \<Rightarrow> 16 word \<Rightarrow> app \<Rightarrow> app option" where
  "render oc height a = do {
     header \<leftarrow> header_texts a;
     gauges \<leftarrow> gauge_percents a;
     metrics \<leftarrow> metric_lines a;
     (title, items, a') \<leftarrow> render_top_transactions oc height a;
     Some a'
   }"

subsection \<open>Keys and the loop\<close>

datatype key_code = KeyChar char | KeyUp | KeyDown | KeyPageUp | KeyPageDown | KeyEsc | KeyOther

record key_event =
  key_code :: key_code
  key_control :: bool
  key_press :: bool

definition quits :: "key_event \<Rightarrow> bool" where
  "quits k \<longleftrightarrow> key_code k \<in> {KeyChar CHR ''q'', KeyEsc} \<or> (key_code k = KeyChar CHR ''c'' \<and> key_control k)"

definition handle_key :: "bool \<Rightarrow> u64 \<Rightarrow> key_code \<Rightarrow> app \<Rightarrow> app option" where
  "handle_key oc list_rows code a =
     (if code \<in> {KeyUp, KeyChar CHR ''k''} then Some (scroll_up 1 a)
      else if code \<in> {KeyDown, KeyChar CHR ''j''} then scroll_down oc 1 list_rows a
      else if code = KeyPageUp then Some (scroll_up (max list_rows 1) a)
      else if code = KeyPageDown then scroll_down oc (max list_rows 1) list_rows a
      else Some a)"

text \<open>
  A round of \<open>run_app\<close> meets the stop flag, the clock in milliseconds since the start, the
  snapshot it captures, the height of the pane when drawing and when handling a key, whether
  drawing succeeds, and the terminal's input.
\<close>

datatype ui_input = NoInput | KeyInput key_event | OtherInput | InputFailed

record ui_round =
  ui_stop :: bool
  ui_now :: nat
  ui_snapshot :: snapshot
  ui_height :: "16 word"
  ui_draws :: bool
  ui_input :: ui_input
  ui_key_height :: "16 word option"

text \<open>How the loop ended: still running at the end of the rounds, left, or failed on I/O.\<close>

datatype run_result = Running | Left | IoError

text \<open>
  An \<open>Instant\<close> has a signed 64-bit number of seconds on Unix, and adding a duration that does
  not fit panics, in every build. Zero means no deadline.
\<close>

definition deadline_of :: "nat \<Rightarrow> u64 \<Rightarrow> nat option option" where
  "deadline_of started_ms secs =
     (if secs = 0 then Some None
      else if 2 ^ 63 \<le> started_ms div 1000 + unat secs then None
      else Some (Some (started_ms + unat secs * 1000)))"

definition past_deadline :: "nat option \<Rightarrow> nat \<Rightarrow> bool" where
  "past_deadline deadline now = (case deadline of None \<Rightarrow> False | Some d \<Rightarrow> d \<le> now)"

fun app_loop :: "bool \<Rightarrow> nat option \<Rightarrow> ui_round list \<Rightarrow> app \<Rightarrow> (run_result \<times> app) option" where
  "app_loop oc deadline [] a = Some (Running, a)"
| "app_loop oc deadline (r # rs) a =
     (if ui_stop r \<or> past_deadline deadline (ui_now r) then Some (Left, a)
      else do {
        a \<leftarrow> push_snapshot (ui_snapshot r) a;
        a \<leftarrow> render oc (ui_height r) a;
        if \<not> ui_draws r then Some (IoError, a)
        else case ui_input r of
          InputFailed \<Rightarrow> Some (IoError, a)
        | NoInput \<Rightarrow> app_loop oc deadline rs a
        | OtherInput \<Rightarrow> app_loop oc deadline rs a
        | KeyInput k \<Rightarrow>
            if \<not> key_press k then app_loop oc deadline rs a
            else case ui_key_height r of
              None \<Rightarrow> Some (IoError, a)
            | Some height \<Rightarrow>
                if quits k then Some (Left, a)
                else do {
                  a \<leftarrow> handle_key oc (pane_rows height) (key_code k) a;
                  app_loop oc deadline rs a
                }
      })"

definition run_app :: "bool \<Rightarrow> nat \<Rightarrow> u64 \<Rightarrow> ui_round list \<Rightarrow> (run_result \<times> app) option" where
  "run_app oc started_ms secs rs = do {
     deadline \<leftarrow> deadline_of started_ms secs;
     app_loop oc deadline rs (app_new secs)
   }"

subsection \<open>The next block set\<close>

lemma unat_rust_add:
  "unat (a :: u64) + unat b < 2 ^ 64 \<Longrightarrow> rust_add oc a b = Some (a + b) \<and> unat (a + b) = unat a + unat b"
  by (simp add: rust_add_ok unat_add_ok)

lemma f64_to_word_le:
  assumes "a \<le> of_nat (unat (w :: u64))"
  shows "(f64_to_word (Finite a) :: u64) \<le> w"
proof (cases "0 < a")
  case True
  define n where "n = unat w"
  have a: "a \<le> of_nat n" "n < 2 ^ 64" using assms unat_less_exp [of w] by (simp_all only: n_def) simp
  have "(of_nat n :: rat) < of_nat (2 ^ 64)" using a(2) by (simp only: of_nat_less_iff)
  then have "\<not> 2 ^ 64 \<le> a" using a(1) by simp
  then have v: "f64_to_word (Finite a) = (word_of_int \<lfloor>a\<rfloor> :: u64)" using True by simp
  have "\<lfloor>a\<rfloor> \<le> int n" using a(1) by (simp add: floor_le_iff)
  moreover have "0 \<le> \<lfloor>a\<rfloor>" using True by simp
  ultimately have "uint (word_of_int \<lfloor>a\<rfloor> :: u64) \<le> int n"
    using take_bit_int_less_eq_self_iff [of 64 "\<lfloor>a\<rfloor>"] by (simp add: uint_word_of_int_eq)
  then show ?thesis unfolding v by (simp add: word_le_def n_def)
qed simp

lemma capacity_le_limit:
  assumes "unit_f64 ratio" and "unat (limit :: u64) < 2 ^ 53"
  shows "(f64_to_word (f64_mul (f64_of_word limit) (f64_sub (Finite 1) ratio)) :: u64) \<le> limit"
proof -
  obtain r where r: "ratio = Finite r" "0 \<le> r" "r \<le> 1" using assms(1) by (auto simp: unit_f64_def)
  define n where "n = unat limit"
  have n: "n < 2 ^ 53" using assms(2) by (simp add: n_def)
  have lim: "f64_of_word limit = Finite (of_nat n)" unfolding n_def f64_of_u64 using rnd_of_nat [OF assms(2)] by (simp only:)
  define q where "q = rnd (1 - r)"
  have q: "0 \<le> q" "q \<le> 1" using rnd_unit [of "1 - r"] r by (simp_all add: q_def)
  have sub: "f64_sub (Finite 1) ratio = Finite q" using r by (simp add: f64_sub_def to_f64_unit q_def)
  have le: "0 \<le> of_nat n * q" "of_nat n * q \<le> of_nat n" using q by (simp_all add: mult_left_le)
  have "rnd (of_nat n * q) \<le> of_nat n" using rnd_mono [OF le] rnd_of_nat [OF n] by simp
  moreover have "to_f64 (of_nat n * q) = Finite (rnd (of_nat n * q))"
  proof (rule to_f64_le [OF le(1)])
    have "(of_nat n :: rat) \<le> 2 ^ 53" using n by (metis less_imp_le of_nat_le_iff of_nat_numeral of_nat_power)
    then show "of_nat n * q \<le> 2 ^ 53" using le by linarith
  qed simp
  ultimately have "f64_mul (f64_of_word limit) (f64_sub (Finite 1) ratio) = Finite (rnd (of_nat n * q))"
    "rnd (of_nat n * q) \<le> of_nat n" by (simp_all add: lim sub)
  then show ?thesis using f64_to_word_le [of "rnd (of_nat n * q)" limit] by (simp only: n_def)
qed

lemma saturating_mul_div_le:
  assumes "g \<le> (c :: u64)" and "c \<noteq> 0"
  shows "saturating_mul g 100 div c \<le> 100"
proof -
  have m: "unat (- 1 :: u64) = 2 ^ 64 - 1" by (simp add: unsigned_minus_1_eq_mask mask_eq_exp_minus_1)
  have "unat (saturating_mul g 100) \<le> unat g * 100"
    using m by (auto simp: saturating_mul_def not_le unat_mult_ok)
  also have "\<dots> \<le> unat c * 100" using assms(1) by (simp add: word_le_nat_alt)
  finally have "unat (saturating_mul g 100) div unat c \<le> unat c * 100 div unat c" by (rule div_le_mono)
  also have "\<dots> = 100" using assms(2) by (simp add: unat_eq_0)
  finally show ?thesis by (simp add: word_le_nat_alt unat_div_distrib)
qed

lemma utilization_le: "min w 1000 * 100 div 1000 \<le> (100 :: u64)"
proof -
  have le: "unat (min w 1000) \<le> 1000" by (simp add: min_def word_le_nat_alt)
  then have "unat (min w 1000 * 100) = unat (min w 1000) * 100" by (simp add: unat_mult_ok)
  then have "unat (min w 1000 * 100) div 1000 \<le> 100000 div 1000" using le by (intro div_le_mono) simp
  then show ?thesis by (simp add: word_le_nat_alt unat_div_distrib)
qed

text \<open>
  The pools of a capture: well-formed, with a total gas of ranked transactions in the 64-bit
  range, and transactions whose gas limit stays below 2^63.
\<close>

definition capture_pool :: "mempool \<Rightarrow> bool" where
  "capture_pool m \<longleftrightarrow> wf_mempool m \<and> sum_list (map (key_gas m) (prio_index m)) < 2 ^ 64 \<and>
     (\<forall>a n tx. find_tx_by_addr_and_nonce m a n = Some tx \<longrightarrow> unat (gas_limit tx) < 2 ^ 63)"

definition packed :: "u64 \<Rightarrow> nat \<Rightarrow> next_block_set \<Rightarrow> bool" where
  "packed capacity k acc \<longleftrightarrow> set_gas acc \<le> capacity \<and> unat (set_txs acc) \<le> k"

lemma pack_tx_ok:
  assumes "packed capacity k acc" and "unat capacity < 2 ^ 53" and "unat (gas_limit tx) < 2 ^ 63" and "k < 2 ^ 63"
  shows "\<exists>acc'. pack_tx oc capacity fee tx acc = Some acc' \<and> packed capacity (Suc k) acc' \<and> set_rows acc' = set_rows acc"
proof -
  have "unat (set_gas acc) + unat (gas_limit tx) < 2 ^ 64" "unat (set_txs acc) + unat (1 :: u64) < 2 ^ 64"
    using assms by (simp_all add: packed_def word_le_nat_alt)
  note sums = this [THEN unat_rust_add, of oc]
  show ?thesis
  proof (cases "capacity < set_gas acc + gas_limit tx")
    case True
    then show ?thesis using sums assms(1) by (simp add: pack_tx_def packed_def)
  next
    case False
    then show ?thesis using sums assms(1)
      by (intro exI [of _ "acc\<lparr>set_gas := set_gas acc + gas_limit tx, set_tip := fee, set_txs := set_txs acc + 1\<rparr>"])
        (simp add: pack_tx_def packed_def not_less)
  qed
qed

lemma add_row_ok:
  assumes "capture_pool (pool i)" and "length (set_rows acc) \<le> 256"
  shows "\<exists>j acc'. add_row oc pool i fee tx acc = Some (j, acc') \<and> set_gas acc' = set_gas acc \<and> set_txs acc' = set_txs acc \<and>
    length (set_rows acc') \<le> 256"
proof -
  obtain eta where "estimated_blocks_to_confirm oc (pool i) (ptx_id tx) = Some eta"
    using assms(1) gas_ahead_total(2) unfolding capture_pool_def by blast
  then show ?thesis using assms(2) by (auto simp: add_row_def)
qed

lemma capture_loop_ok:
  assumes pools: "\<And>i. capture_pool (pool i)" and cap: "unat capacity < 2 ^ 53"
  shows "packed capacity k acc \<Longrightarrow> length (set_rows acc) \<le> 256 \<Longrightarrow> k + length keys < 2 ^ 63 \<Longrightarrow>
    \<exists>acc'. capture_loop oc pool capacity i keys acc = Some acc' \<and> packed capacity (k + length keys) acc' \<and>
      length (set_rows acc') \<le> 256"
proof (induction keys arbitrary: i k acc)
  case (Cons key keys)
  obtain fee a n where key: "key = (fee, a, n)" by (cases key)
  show ?case
  proof (cases "find_tx_by_addr_and_nonce (pool i) a n")
    case None
    have "packed capacity (Suc k) acc" using Cons.prems(1) by (auto simp: packed_def)
    from Cons.IH [OF this Cons.prems(2)] show ?thesis using None Cons.prems(3) key by simp
  next
    case (Some tx)
    then have gas: "unat (gas_limit tx) < 2 ^ 63" using pools unfolding capture_pool_def by blast
    obtain j acc1 where 1: "add_row oc pool (Suc i) fee tx acc = Some (j, acc1)" "set_gas acc1 = set_gas acc"
      "set_txs acc1 = set_txs acc" "length (set_rows acc1) \<le> 256"
      using add_row_ok [of pool "Suc i" acc oc fee tx] pools Cons.prems(2) by blast
    have "packed capacity k acc1" using 1 Cons.prems(1) by (auto simp: packed_def)
    from pack_tx_ok [OF this cap gas] Cons.prems(3) obtain acc2 where
      2: "pack_tx oc capacity fee tx acc1 = Some acc2" "packed capacity (Suc k) acc2" "set_rows acc2 = set_rows acc1"
      by fastforce
    from Cons.IH [OF 2(2)] 1(4) 2(3) Cons.prems(3) show ?thesis by (simp add: key Some 1 2)
  qed
qed simp

subsection \<open>The view's invariant\<close>

definition scroll_bound :: "snapshot \<Rightarrow> nat" where
  "scroll_bound s = length (ranked_rows s) - 1"

definition app_ok :: "app \<Rightarrow> bool" where
  "app_ok a \<longleftrightarrow> length (snapshots a) \<le> 60 \<and> (\<forall>s \<in> set (snapshots a). length (ranked_rows s) \<le> 256) \<and>
     (if snapshots a = [] then tx_scroll a = 0 else unat (tx_scroll a) \<le> scroll_bound (last (snapshots a)))"

lemma unat_pane_rows: "1 \<le> unat (pane_rows height) \<and> unat (pane_rows height) < 2 ^ 16"
proof -
  define w where "w = max (saturating_sub height 2) 1"
  have "unat (ucast w :: u64) = unat w"
    by (simp add: unsigned_ucast_eq take_bit_nat_eq_self order.strict_trans [OF unsigned_less])
  moreover have "unat w < 2 ^ 16" using unsigned_less [of w] by simp
  moreover have "1 \<le> w" by (simp add: w_def)
  ultimately show ?thesis by (simp add: pane_rows_def w_def word_le_nat_alt)
qed

lemma max_scroll_value:
  assumes "snapshots a \<noteq> []" and "length (ranked_rows (last (snapshots a))) \<le> 256"
  shows "\<exists>m. max_scroll a v = Some m \<and> unat m = length (ranked_rows (last (snapshots a))) - max (unat v) 1"
proof -
  define n where "n = length (ranked_rows (last (snapshots a)))"
  have n: "unat (of_nat n :: u64) = n"
    using assms(2) by (simp add: n_def [symmetric] unsigned_of_nat take_bit_nat_eq_self)
  have "unat (max v 1) = max (unat v) 1" by (simp add: max_def word_le_nat_alt)
  then have "unat (saturating_sub (of_nat n) (max v 1)) = n - max (unat v) 1"
    using n by simp
  then show ?thesis using assms(1) by (simp add: max_scroll_def latest_def n_def)
qed

lemma app_ok_latest:
  "app_ok a \<Longrightarrow> snapshots a \<noteq> [] \<Longrightarrow> length (ranked_rows (last (snapshots a))) \<le> 256"
  by (simp add: app_ok_def)

lemma clamp_scroll_ok:
  assumes "snapshots a \<noteq> []" and "length (snapshots a) \<le> 60" and "\<forall>s \<in> set (snapshots a). length (ranked_rows s) \<le> 256"
  shows "\<exists>t. clamp_scroll v a = Some (a\<lparr>tx_scroll := t\<rparr>) \<and> app_ok (a\<lparr>tx_scroll := t\<rparr>)"
proof -
  obtain m where m: "max_scroll a v = Some m" "unat m = length (ranked_rows (last (snapshots a))) - max (unat v) 1"
    using max_scroll_value [OF assms(1)] assms(1,3) by auto
  have "unat (min (tx_scroll a) m) \<le> unat m" by (simp add: min_def word_le_nat_alt)
  then show ?thesis using m assms
    by (intro exI [of _ "min (tx_scroll a) m"]) (auto simp: clamp_scroll_def app_ok_def scroll_bound_def)
qed

lemma push_snapshot_ok:
  assumes "app_ok a" and "length (ranked_rows s) \<le> 256"
  shows "\<exists>a'. push_snapshot s a = Some a' \<and> app_ok a' \<and> snapshots a' \<noteq> [] \<and> last (snapshots a') = s"
proof -
  define ss where "ss = (if 60 < length (snapshots a @ [s]) then drop (length (snapshots a @ [s]) - 60) (snapshots a @ [s]) else snapshots a @ [s])"
  have "set ss \<subseteq> set (snapshots a @ [s])" using set_drop_subset [of _ "snapshots a @ [s]"] by (simp only: ss_def split: if_split) blast
  then have rows: "\<forall>s \<in> set ss. length (ranked_rows s) \<le> 256" using assms by (auto simp: app_ok_def)
  have ss: "length ss \<le> 60" "ss \<noteq> []" "last ss = s" using assms(1) by (auto simp: ss_def app_ok_def last_drop)
  show ?thesis
    using clamp_scroll_ok [of "a\<lparr>snapshots := ss\<rparr>" 0] ss rows unfolding push_snapshot_def Let_def ss_def [symmetric] by auto
qed

lemma scroll_down_ok:
  assumes "app_ok a" and "snapshots a \<noteq> []" and "unat n < 2 ^ 16"
  shows "\<exists>t. scroll_down oc n v a = Some (a\<lparr>tx_scroll := t\<rparr>) \<and> app_ok (a\<lparr>tx_scroll := t\<rparr>)"
proof -
  obtain m where m: "max_scroll a v = Some m" "unat m = length (ranked_rows (last (snapshots a))) - max (unat v) 1"
    using max_scroll_value [OF assms(2) app_ok_latest [OF assms(1,2)]] by blast
  have "unat (tx_scroll a) \<le> scroll_bound (last (snapshots a))" using assms(1,2) by (simp add: app_ok_def)
  then have "unat (tx_scroll a) \<le> 255" using app_ok_latest [OF assms(1,2)] unfolding scroll_bound_def by arith
  then have "unat (tx_scroll a) + unat n < 2 ^ 64" using assms(3) by simp
  then have add: "rust_add oc (tx_scroll a) n = Some (tx_scroll a + n)" by (simp add: rust_add_ok)
  have "unat (min (tx_scroll a + n) m) \<le> unat m" by (simp add: min_def word_le_nat_alt)
  then show ?thesis using m add assms
    by (intro exI [of _ "min (tx_scroll a + n) m"]) (auto simp: scroll_down_def app_ok_def scroll_bound_def)
qed

lemma scroll_up_ok: "app_ok a \<Longrightarrow> app_ok (scroll_up n a)"
proof -
  have "unat (saturating_sub (tx_scroll a) n) \<le> unat (tx_scroll a)"
    using saturating_sub_le [of "tx_scroll a" n] by (simp add: word_le_nat_alt)
  then show "app_ok a \<Longrightarrow> app_ok (scroll_up n a)"
    by (auto simp: app_ok_def scroll_up_def saturating_sub_def [of 0] word_gt_0)
qed

lemma render_ok:
  assumes "app_ok a" and "snapshots a \<noteq> []"
  shows "\<exists>t. render oc height a = Some (a\<lparr>tx_scroll := t\<rparr>) \<and> app_ok (a\<lparr>tx_scroll := t\<rparr>)"
proof -
  let ?s = "last (snapshots a)"
  let ?v = "transaction_rows ?s height"
  obtain t where t: "clamp_scroll ?v a = Some (a\<lparr>tx_scroll := t\<rparr>)" "app_ok (a\<lparr>tx_scroll := t\<rparr>)"
    using clamp_scroll_ok [OF assms(2), of ?v] assms(1) by (auto simp: app_ok_def)
  have "unat t \<le> scroll_bound ?s" using t(2) assms(2) by (simp add: app_ok_def)
  then have b: "unat t \<le> 255" using app_ok_latest [OF assms] unfolding scroll_bound_def by arith
  have "unat ?v < 2 ^ 16" using unat_pane_rows by (simp add: transaction_rows_def)
  then have "rust_add oc t 1 = Some (t + 1)" "rust_add oc t ?v = Some (t + ?v)"
    using b by (simp_all add: rust_add_ok)
  then have "\<exists>title. list_title oc ?s t ?v = Some title" by (simp add: list_title_def Let_def)
  then obtain title where "list_title oc ?s t ?v = Some title" by blast
  then show ?thesis
    using t assms(2)
    by (auto simp: render_def render_top_transactions_def latest_def header_texts_def gauge_percents_def metric_lines_def)
qed

lemma handle_key_ok:
  assumes "app_ok a" and "snapshots a \<noteq> []"
  shows "\<exists>a'. handle_key oc (pane_rows height) code a = Some a' \<and> app_ok a' \<and> snapshots a' = snapshots a"
proof -
  have "unat (max (pane_rows height) 1) < 2 ^ 16" "unat (1 :: u64) < 2 ^ 16"
    using unat_pane_rows [of height] by (auto simp: max_def)
  note down = this [THEN scroll_down_ok [OF assms], of oc "pane_rows height"]
  from down(1) obtain t1 where
    1: "scroll_down oc (max (pane_rows height) 1) (pane_rows height) a = Some (a\<lparr>tx_scroll := t1\<rparr>)" "app_ok (a\<lparr>tx_scroll := t1\<rparr>)"
    by blast
  from down(2) obtain t2 where
    2: "scroll_down oc 1 (pane_rows height) a = Some (a\<lparr>tx_scroll := t2\<rparr>)" "app_ok (a\<lparr>tx_scroll := t2\<rparr>)"
    by blast
  show ?thesis using scroll_up_ok [OF assms(1)] 1 2 assms(1) by (auto simp: handle_key_def scroll_up_def)
qed

lemma app_loop_ok:
  "app_ok a \<Longrightarrow> \<forall>r \<in> set rs. length (ranked_rows (ui_snapshot r)) \<le> 256 \<Longrightarrow>
   \<exists>res a'. app_loop oc deadline rs a = Some (res, a') \<and> app_ok a'"
proof (induction rs arbitrary: a)
  case (Cons r rs)
  obtain a1 where 1: "push_snapshot (ui_snapshot r) a = Some a1" "app_ok a1" "snapshots a1 \<noteq> []"
    using push_snapshot_ok [OF Cons.prems(1)] Cons.prems(2) by auto
  obtain t where "render oc (ui_height r) a1 = Some (a1\<lparr>tx_scroll := t\<rparr>)" "app_ok (a1\<lparr>tx_scroll := t\<rparr>)"
    using render_ok [OF 1(2,3)] by blast
  then obtain a2 where 2: "render oc (ui_height r) a1 = Some a2" "app_ok a2" "snapshots a2 \<noteq> []" using 1(3) by auto
  have step: "\<exists>res a'. app_loop oc deadline rs b = Some (res, a') \<and> app_ok a'" if "app_ok b" for b
    using Cons.IH [OF that] Cons.prems(2) by simp
  have key: "\<exists>b. handle_key oc (pane_rows h) k a2 = Some b \<and> app_ok b" for h k
    using handle_key_ok [OF 2(2,3)] by blast
  show ?case
  proof (cases "ui_stop r \<or> past_deadline deadline (ui_now r)")
    case False
    have "\<exists>res a'. (handle_key oc (pane_rows h) k a2 \<bind> app_loop oc deadline rs) = Some (res, a') \<and> app_ok a'" for h k
      using key [of h k] step by auto
    then show ?thesis
      using False 1 2 step [OF 2(2)] by (auto split: ui_input.split option.split)
  qed (use Cons.prems(1) in simp)
qed simp

subsection \<open>Properties\<close>

text \<open>
  The terminal view never panics: whatever the snapshots (with at most 256 rows each, as
  captured), keys, terminal sizes and clock, in every build, its loop keeps at most 60
  snapshots and a scroll position that points at a row of the latest one.
\<close>
lemma view_never_panics:
  assumes "\<forall>r \<in> set rs. length (ranked_rows (ui_snapshot r)) \<le> 256" and "started_ms div 1000 + unat secs < 2 ^ 63"
  shows "\<exists>res a. run_app oc started_ms secs rs = Some (res, a) \<and> length (snapshots a) \<le> 60 \<and>
    (snapshots a \<noteq> [] \<longrightarrow> unat (tx_scroll a) \<le> length (ranked_rows (last (snapshots a))) - 1)"
proof -
  have "\<exists>deadline. deadline_of started_ms secs = Some deadline" using assms(2) by (simp add: deadline_of_def)
  then obtain deadline where d: "deadline_of started_ms secs = Some deadline" by blast
  have "app_ok (app_new secs)" by (simp add: app_ok_def app_new_def)
  from app_loop_ok [OF this assms(1), of oc deadline] obtain res a where
    a: "app_loop oc deadline rs (app_new secs) = Some (res, a)" "app_ok a" by blast
  have "run_app oc started_ms secs rs = Some (res, a)" using d a(1) by (simp add: run_app_def)
  then show ?thesis using a(2) by (auto simp: app_ok_def scroll_bound_def)
qed

definition ex_row :: tx_row where
  "ex_row = \<lparr>row_nonce = 5, row_effective = 2, row_priority = 2, row_max_fee = 30, row_gas = 21000, row_eta = 0, row_sender = (1, 1)\<rparr>"

definition ex_snapshot :: snapshot where
  "ex_snapshot = \<lparr>elapsed_secs = 1, snap_base_fee = 9, private_flow = Finite 10, private_flow_percent = 10, min_tip = 2,
     expected_txs = 1, gas_used_for_next_block = 21000, snap_capacity = 27000000, next_block_fill_percent = 0,
     marketable_count = 1, marketable_utilization = 0,
     snap_telemetry = view_of_telemetry (telemetry_new RpcKind), ranked_rows = [ex_row, ex_row, ex_row]\<rparr>"

text \<open>
  C38: The next-block figures of a snapshot are consistent, for tracker states that may change
  between the calls that read them: the capture does not panic, the gas packed never exceeds
  the usable capacity, which never exceeds the block's gas limit, so the fill is at most 100
  percent; the packed transactions are at most the ranked ones, and at most 256 rows are kept.
\<close>
theorem capture_consistent:
  assumes "\<forall>i. capture_pool (pool i)" and "unit_f64 (private_flow_ratio (pool 3))"
    and "unat (last_block_gas_limit (pool 2)) < 2 ^ 53" and "length (prio_index (pool 4)) < 2 ^ 63"
  shows "\<exists>s. capture oc pool tel elapsed = Some s \<and> gas_used_for_next_block s \<le> snap_capacity s \<and>
    snap_capacity s \<le> last_block_gas_limit (pool 2) \<and> next_block_fill_percent s \<le> 100 \<and>
    expected_txs s \<le> marketable_count s \<and> marketable_utilization s \<le> 100 \<and> length (ranked_rows s) \<le> 256"
proof -
  define cap :: u64 where "cap = f64_to_word (f64_mul (f64_of_word (last_block_gas_limit (pool 2)))
      (f64_sub (Finite 1) (private_flow_ratio (pool 3))))"
  have cap: "cap \<le> last_block_gas_limit (pool 2)" using capacity_le_limit [OF assms(2,3)] by (simp add: cap_def)
  then have small: "unat cap < 2 ^ 53" using assms(3) by (simp add: word_le_nat_alt)
  define keys where "keys = priority_queue_view (pool 4)"
  have len: "length keys < 2 ^ 63" using assms(4) by (simp add: keys_def priority_queue_view_def)
  then have unat_len: "unat (of_nat (length keys) :: u64) = length keys"
    by (simp add: unsigned_of_nat take_bit_nat_eq_self)
  obtain acc where acc: "capture_loop oc pool cap 5 keys \<lparr>set_txs = 0, set_tip = 0, set_gas = 0, set_rows = []\<rparr> = Some acc"
    "packed cap (length keys) acc" "length (set_rows acc) \<le> 256"
    using capture_loop_ok [of pool cap 0 "\<lparr>set_txs = 0, set_tip = 0, set_gas = 0, set_rows = []\<rparr>" keys oc 5] assms(1) small len
    by (auto simp: packed_def)
  have fill: "(if cap = 0 then 0 else saturating_mul (set_gas acc) 100 div cap) \<le> 100"
    using acc(2) saturating_mul_div_le [of "set_gas acc" cap] by (simp add: packed_def)
  show ?thesis
    using acc fill utilization_le [of "of_nat (length keys)"] cap unat_len
    by (simp add: capture_def Let_def cap_def [symmetric] keys_def [symmetric] packed_def word_le_nat_alt)
qed

lemma ex_pool_capture: "capture_pool ex_pool"
proof -
  have gas: "unat (gas_limit tx) < 2 ^ 63" if "find_tx_by_addr_and_nonce ex_pool a n = Some tx" for a n tx
  proof -
    have "tx \<in> set (all_txs ex_pool)" using all_txs_find [OF ex_pool_wf] find_Some(1,2) [OF ex_pool_wf that] that by simp
    then show ?thesis by (auto simp: all_txs_def ex_pool_def ex_tx_def List.map_filter_def)
  qed
  have "sum_list (map (key_gas ex_pool) (prio_index ex_pool)) < 2 ^ 64"
    by (simp add: key_gas_def ex_pool_def find_tx_by_addr_and_nonce_def queue_find_def slot_get_def ex_tx_def)
  then show ?thesis using gas ex_pool_wf by (auto simp: capture_pool_def)
qed

theorem capture_consistent_witness:
  "\<exists>s. capture True (\<lambda>_. ex_pool) (view_of_telemetry (telemetry_new RpcKind)) 1 = Some s \<and>
     gas_used_for_next_block s \<le> snap_capacity s \<and> next_block_fill_percent s \<le> 100"
  using capture_consistent [of "\<lambda>_. ex_pool" True "view_of_telemetry (telemetry_new RpcKind)" 1] ex_pool_capture
  by (auto simp: ex_pool_def ex_config_def unit_f64_def)

end
