(* ===== verification/Cli_Sim.thy ===== *)
theory Cli_Sim
  imports Cli_App
begin

text \<open>
  The rest of crates/mempooloracle/examples/cli_tool.rs: the simulated block chain that feeds
  a tracker, the plain text loop, and what \<open>main\<close> opens for a data source. The flags other
  threads set, the outcome of sending and the clock are inputs.
\<close>

subsection \<open>The simulation\<close>

definition repeat_byte :: "nat \<Rightarrow> u8 \<Rightarrow> 'a::len word" where
  "repeat_byte n b = fold (\<lambda>_ w. push_bit 8 w + ucast b) [0..<n] 0"

definition sim_tx :: "u64 \<Rightarrow> pending_tx" where
  "sim_tx n = \<lparr>ptx_id = repeat_byte 32 (ucast n), ptx_sender = repeat_byte 20 1, ptx_nonce = n,
     max_fee_per_gas = 15 + ucast (n mod 10), max_priority_fee_per_gas = 1 + ucast (n mod 5), gas_limit = 21000\<rparr>"

record sim =
  sim_nonce :: u64
  sim_block_number :: u64
  sim_telemetry :: telemetry_view
  sim_sent :: "mempool_event list"

definition sim_new :: sim where
  "sim_new = \<lparr>sim_nonce = 0, sim_block_number = 0,
     sim_telemetry = \<lparr>view_pending = 0, view_blocks = 0, view_block_txs = 0, view_block_gas = 0\<rparr>, sim_sent = []\<rparr>"

text \<open>
  The inner loop: for each transaction the stop flag and whether the channel accepts it. The
  first component of the result says whether the simulation goes on.
\<close>

fun sim_txs :: "bool \<Rightarrow> (bool \<times> bool) list \<Rightarrow> sim \<Rightarrow> (bool \<times> sim) option" where
  "sim_txs oc [] st = Some (True, st)"
| "sim_txs oc ((stop, accepts) # rest) st =
     (if stop then Some (False, st)
      else if \<not> accepts then Some (False, st)
      else do {
        seen \<leftarrow> rust_add oc (view_pending (sim_telemetry st)) 1;
        n \<leftarrow> rust_add oc (sim_nonce st) 1;
        sim_txs oc rest (st\<lparr>sim_sent := sim_sent st @ [PendingTransaction (sim_tx (sim_nonce st))],
          sim_telemetry := (sim_telemetry st)\<lparr>view_pending := seen\<rparr>, sim_nonce := n\<rparr>)
      })"

definition sim_included :: "bool \<Rightarrow> u64 \<Rightarrow> u64 \<Rightarrow> pending_tx option" where
  "sim_included oc nonce i = do { base \<leftarrow> rust_sub oc nonce 10; n \<leftarrow> rust_add oc base i; Some (sim_tx n) }"

definition sim_block :: "bool \<Rightarrow> sim \<Rightarrow> (block_update \<times> sim) option" where
  "sim_block oc st = do {
     t0 \<leftarrow> sim_included oc (sim_nonce st) 0;
     t1 \<leftarrow> sim_included oc (sim_nonce st) 1;
     t2 \<leftarrow> sim_included oc (sim_nonce st) 2;
     t3 \<leftarrow> sim_included oc (sim_nonce st) 3;
     t4 \<leftarrow> sim_included oc (sim_nonce st) 4;
     blocks \<leftarrow> rust_add oc (sim_block_number st) 1;
     Some (\<lparr>included_txs = [t0, t1, t2, t3, t4], new_base_fee = 10 + ucast (sim_block_number st mod 5),
         gas_used = 21000 * 5, block_gas_limit = 30000000\<rparr>,
       st\<lparr>sim_telemetry := (sim_telemetry st)\<lparr>view_blocks := blocks, view_block_txs := 5, view_block_gas := 21000 * 5\<rparr>\<rparr>)
   }"

record sim_round =
  round_stop :: bool
  round_env :: "nat \<Rightarrow> bool \<times> bool"
  round_wait_stop :: bool
  round_accepts :: bool

fun simulate_blockchain :: "bool \<Rightarrow> sim_round list \<Rightarrow> sim \<Rightarrow> sim option" where
  "simulate_blockchain oc [] st = Some st"
| "simulate_blockchain oc (r # rs) st =
     (if round_stop r then Some st
      else do {
        (going, st) \<leftarrow> sim_txs oc (map (round_env r) [0..<10]) st;
        if \<not> going then Some st
        else if round_wait_stop r then Some st
        else do {
          (block, st) \<leftarrow> sim_block oc st;
          if \<not> round_accepts r then Some st
          else do {
            blocks \<leftarrow> rust_add oc (sim_block_number st) 1;
            simulate_blockchain oc rs (st\<lparr>sim_sent := sim_sent st @ [NewBlock block], sim_block_number := blocks\<rparr>)
          }
        }
      })"

text \<open>
  \<open>should_stop_for\<close>, on the readings of the clock in milliseconds with the stop flag loaded next;
  \<open>None\<close> means that it is still waiting.
\<close>

fun should_stop_for :: "nat \<Rightarrow> (nat \<times> bool) list \<Rightarrow> bool option" where
  "should_stop_for duration [] = None"
| "should_stop_for duration ((elapsed, stop) # rest) =
     (if elapsed < duration
      then if stop then Some True else should_stop_for duration rest
      else Some stop)"

definition sleep_for :: "nat \<Rightarrow> nat \<Rightarrow> nat" where
  "sleep_for duration elapsed = min (duration - elapsed) 100"

subsection \<open>Plain text and main\<close>

text \<open>A round of \<open>run_plaintext\<close>: the stop flag, three readings of the clock, and the snapshot taken if it prints.\<close>

record text_round =
  text_stop :: bool
  text_now :: nat
  text_check :: nat
  text_snapshot :: snapshot
  text_after :: nat

fun text_loop :: "nat option \<Rightarrow> int \<Rightarrow> text_round list \<Rightarrow> (nat \<times> snapshot) list" where
  "text_loop deadline last_render [] = []"
| "text_loop deadline last_render (r # rs) =
     (if text_stop r \<or> past_deadline deadline (text_now r) then []
      else if 500 \<le> int (text_check r) - last_render
      then (text_check r, text_snapshot r) # text_loop deadline (int (text_after r)) rs
      else text_loop deadline last_render rs)"

definition run_plaintext :: "nat \<Rightarrow> u64 \<Rightarrow> text_round list \<Rightarrow> (nat \<times> snapshot) list option" where
  "run_plaintext started_ms secs rs = do {
     deadline \<leftarrow> deadline_of started_ms secs;
     Some (text_loop deadline (int started_ms - 1000) rs)
   }"

definition cli_config :: tracker_config where
  "cli_config = \<lparr>initial_base_fee = 10, global_capacity = 1000, per_account_capacity = 100,
     private_flow_prior = to_f64 (1 / 10)\<rparr>"

text \<open>The tracker \<open>main\<close> opens for a source, with the node's answers for a live one.\<close>

definition open_source ::
  "bool \<Rightarrow> features \<Rightarrow> data_source \<Rightarrow> (rpc_text + unit) option \<Rightarrow> (rpc_text + 'b) option \<Rightarrow> (rpc_text + 'p) option \<Rightarrow>
   tracker_error + mempool option" where
  "open_source oc ft src ws blocks pending =
     (case source_transport src of
        None \<Rightarrow> Inr (from_channel oc [] cli_config)
      | Some transport \<Rightarrow> map_sum id fst (tracker_connect oc ft transport ws blocks pending cli_config))"

subsection \<open>What the simulation sends\<close>

text \<open>Every block includes only transactions announced before it.\<close>

definition announced :: "mempool_event list \<Rightarrow> bool" where
  "announced evs \<longleftrightarrow> (\<forall>i b. i < length evs \<and> evs ! i = NewBlock b \<longrightarrow>
     PendingTransaction ` set (included_txs b) \<subseteq> set (take i evs))"

lemma announced_pending: "announced evs \<Longrightarrow> announced (evs @ [PendingTransaction tx])"
  by (auto simp: announced_def nth_append less_Suc_eq)

lemma announced_block:
  "announced evs \<Longrightarrow> PendingTransaction ` set (included_txs b) \<subseteq> set evs \<Longrightarrow> announced (evs @ [NewBlock b])"
  by (auto simp: announced_def nth_append less_Suc_eq)

definition sim_ok :: "sim \<Rightarrow> bool" where
  "sim_ok st \<longleftrightarrow> view_pending (sim_telemetry st) = sim_nonce st \<and> view_blocks (sim_telemetry st) = sim_block_number st \<and>
     (\<forall>n < sim_nonce st. PendingTransaction (sim_tx n) \<in> set (sim_sent st)) \<and>
     announced (sim_sent st) \<and> (\<forall>ev \<in> set (sim_sent st). event_in_range ev)"

text \<open>What holds also when the thread stops: the block counter may be ahead of the blocks sent.\<close>

definition sim_safe :: "sim \<Rightarrow> bool" where
  "sim_safe st \<longleftrightarrow> view_pending (sim_telemetry st) = sim_nonce st \<and> announced (sim_sent st) \<and>
     (\<forall>ev \<in> set (sim_sent st). event_in_range ev)"

lemma sim_ok_safe: "sim_ok st \<Longrightarrow> sim_safe st"
  by (simp add: sim_ok_def sim_safe_def)

lemma u64_less_Suc: "unat (w :: u64) + 1 < 2 ^ 64 \<Longrightarrow> n < w + 1 \<longleftrightarrow> n < w \<or> n = w"
  by (auto simp: word_less_nat_alt unat_add_ok word_unat_eq_iff)

lemma sim_txs_ok:
  "sim_ok st \<Longrightarrow> unat (sim_nonce st) + length env < 2 ^ 64 - 1 \<Longrightarrow>
   \<exists>going st'. sim_txs oc env st = Some (going, st') \<and> sim_ok st' \<and> sim_block_number st' = sim_block_number st \<and>
     (going \<longrightarrow> unat (sim_nonce st') = unat (sim_nonce st) + length env)"
proof (induction env arbitrary: st)
  case (Cons e env)
  obtain stop accepts where e: "e = (stop, accepts)" by (cases e)
  show ?case
  proof (cases "stop \<or> \<not> accepts")
    case True
    then show ?thesis using Cons.prems(1) e by auto
  next
    case False
    let ?n = "sim_nonce st"
    have n: "unat ?n + 1 < 2 ^ 64" using Cons.prems(2) by simp
    let ?st = "st\<lparr>sim_sent := sim_sent st @ [PendingTransaction (sim_tx ?n)],
        sim_telemetry := (sim_telemetry st)\<lparr>view_pending := ?n + 1\<rparr>, sim_nonce := ?n + 1\<rparr>"
    have "event_in_range (PendingTransaction (sim_tx ?n))" using Cons.prems(2) by (simp add: tx_ok_def sim_tx_def)
    then have "sim_ok ?st"
      using Cons.prems(1) n by (auto simp: sim_ok_def announced_pending u64_less_Suc)
    moreover have "unat (sim_nonce ?st) = unat ?n + 1" using n by (simp add: unat_add_ok)
    ultimately have "\<exists>going st'. sim_txs oc env ?st = Some (going, st') \<and> sim_ok st' \<and>
        sim_block_number st' = sim_block_number st \<and> (going \<longrightarrow> unat (sim_nonce st') = unat ?n + length (e # env))"
      using Cons.IH [of ?st] Cons.prems(2) by simp
    moreover have "sim_txs oc (e # env) st = sim_txs oc env ?st"
      using False n Cons.prems(1) by (simp add: e sim_ok_def rust_add_ok)
    ultimately show ?thesis by simp
  qed
qed auto

lemma sim_included_ok:
  assumes "10 \<le> unat nonce" and "unat i < 10"
  shows "sim_included oc nonce i = Some (sim_tx (nonce - 10 + i))" and "nonce - 10 + i < nonce"
proof -
  have le: "10 \<le> nonce" using assms(1) by (simp add: word_le_nat_alt)
  have sub: "unat (nonce - 10) = unat nonce - 10" using unat_sub_ok [OF le] by simp
  have "unat nonce < 2 ^ 64" using unat_less_exp [of nonce] by simp
  then have sum: "unat (nonce - 10) + unat i < 2 ^ 64" using sub assms by simp
  then show "sim_included oc nonce i = Some (sim_tx (nonce - 10 + i))"
    using le by (simp add: sim_included_def rust_sub_ok rust_add_ok)
  show "nonce - 10 + i < nonce" using sum sub assms by (simp add: word_less_nat_alt unat_add_ok)
qed

lemma sim_block_ok:
  assumes "sim_ok st" and "10 \<le> unat (sim_nonce st)" and "unat (sim_block_number st) + 1 < 2 ^ 64"
    and "unat (sim_nonce st) < 2 ^ 64 - 1"
  shows "\<exists>b st'. sim_block oc st = Some (b, st') \<and> block_ok b \<and> PendingTransaction ` set (included_txs b) \<subseteq> set (sim_sent st) \<and>
    gas_used b \<le> block_gas_limit b \<and>
    st' = st\<lparr>sim_telemetry := sim_telemetry st'\<rparr> \<and> view_pending (sim_telemetry st') = sim_nonce st \<and>
    view_blocks (sim_telemetry st') = sim_block_number st + 1"
proof -
  let ?tx = "\<lambda>i. sim_tx (sim_nonce st - 10 + i)"
  have inc: "sim_included oc (sim_nonce st) i = Some (?tx i) \<and> PendingTransaction (?tx i) \<in> set (sim_sent st) \<and> tx_ok (?tx i)"
    if "unat i < 10" for i :: u64
  proof -
    have "sim_nonce st - 10 + i < sim_nonce st" using sim_included_ok(2) [OF assms(2) that] .
    then have "unat (sim_nonce st - 10 + i) < 2 ^ 64 - 1" using assms(4) by (simp add: word_less_nat_alt)
    then show ?thesis
      using sim_included_ok [OF assms(2) that] assms(1) by (auto simp: sim_ok_def tx_ok_def sim_tx_def)
  qed
  note five = inc [of 0, simplified] inc [of 1, simplified] inc [of 2, simplified] inc [of 3, simplified] inc [of 4, simplified]
  have gas: "gas_limit (sim_tx n) = 21000" for n by (simp add: sim_tx_def)
  have "sim_block oc st = Some (\<lparr>included_txs = [?tx 0, ?tx 1, ?tx 2, ?tx 3, ?tx 4],
        new_base_fee = 10 + ucast (sim_block_number st mod 5), gas_used = 21000 * 5, block_gas_limit = 30000000\<rparr>,
      st\<lparr>sim_telemetry := (sim_telemetry st)\<lparr>view_blocks := sim_block_number st + 1, view_block_txs := 5, view_block_gas := 21000 * 5\<rparr>\<rparr>)"
    using five assms(3) by (simp add: sim_block_def rust_add_ok)
  then show ?thesis using five assms(1) by (auto simp: block_ok_def gas sim_ok_def)
qed

lemma simulate_ok:
  "sim_ok st \<Longrightarrow> unat (sim_nonce st) + 10 * length rs < 2 ^ 64 - 1 \<Longrightarrow> unat (sim_block_number st) + length rs < 2 ^ 64 \<Longrightarrow>
   \<exists>st'. simulate_blockchain oc rs st = Some st' \<and> sim_safe st'"
proof (induction rs arbitrary: st)
  case (Cons r rs)
  obtain going st1 where 1: "sim_txs oc (map (round_env r) [0..<10]) st = Some (going, st1)" "sim_ok st1"
    "sim_block_number st1 = sim_block_number st" "going \<longrightarrow> unat (sim_nonce st1) = unat (sim_nonce st) + 10"
    using sim_txs_ok [OF Cons.prems(1), of "map (round_env r) [0..<10]" oc] Cons.prems(2) by auto
  show ?case
  proof (cases "round_stop r \<or> \<not> going \<or> round_wait_stop r")
    case True
    then show ?thesis using 1 sim_ok_safe [OF Cons.prems(1)] sim_ok_safe [OF 1(2)] by auto
  next
    case False
    then have going: "unat (sim_nonce st1) = unat (sim_nonce st) + 10" using 1(4) by simp
    obtain b st2 where 2: "sim_block oc st1 = Some (b, st2)" "block_ok b"
      "PendingTransaction ` set (included_txs b) \<subseteq> set (sim_sent st1)" "st2 = st1\<lparr>sim_telemetry := sim_telemetry st2\<rparr>"
      "view_pending (sim_telemetry st2) = sim_nonce st1" "view_blocks (sim_telemetry st2) = sim_block_number st1 + 1"
      using sim_block_ok [OF 1(2), of oc] going Cons.prems(2,3) 1(3) by auto
    have same: "sim_sent st2 = sim_sent st1" "sim_nonce st2 = sim_nonce st1" "sim_block_number st2 = sim_block_number st"
      using 2(4) 1(3) by (metis sim.ext_inject sim.surjective sim.update_convs(3))+
    let ?st = "st2\<lparr>sim_sent := sim_sent st2 @ [NewBlock b], sim_block_number := sim_block_number st2 + 1\<rparr>"
    have ok: "sim_ok ?st"
      using 1(2,3) 2 same announced_block [of "sim_sent st1" b] by (auto simp: sim_ok_def)
    have bn: "unat (sim_block_number st2) + 1 < 2 ^ 64" using Cons.prems(3) same by simp
    have "\<exists>st'. simulate_blockchain oc rs ?st = Some st' \<and> sim_safe st'"
      using Cons.IH [OF ok] Cons.prems(2,3) same going bn by (simp add: unat_add_ok)
    moreover have "sim_safe st2" using 1(2) 2(5) same by (simp add: sim_ok_def sim_safe_def)
    ultimately show ?thesis using False 1(1) 2(1) bn by (auto simp: rust_add_ok)
  qed
qed (auto simp: sim_ok_safe)

subsection \<open>Properties\<close>

text \<open>
  The simulated chain is a sound source for the tracker: as long as its nonces fit, in
  every build and wherever it is stopped, it does not panic (its subtraction of ten never
  underflows), every block contains only transactions announced before, its pending
  counter equals the nonce, and the tracker that \<open>main\<close> opens for it handles all it sent
  without a panic and stays well-formed.
\<close>
lemma simulation_feeds_tracker:
  assumes "10 * length rounds < 2 ^ 64 - 1"
  shows "\<exists>m0 st m. open_source oc ft SimulatedSource ws blocks pending = Inr (Some m0) \<and>
    simulate_blockchain oc rounds sim_new = Some st \<and> announced (sim_sent st) \<and>
    view_pending (sim_telemetry st) = sim_nonce st \<and>
    tracker_run oc (sim_sent st) m0 = Some m \<and> wf_mempool m"
proof -
  have "sim_ok sim_new" by (simp add: sim_ok_def sim_new_def announced_def)
  moreover have "sim_nonce sim_new = 0" "sim_block_number sim_new = 0" by (simp_all add: sim_new_def)
  ultimately obtain st where "simulate_blockchain oc rounds sim_new = Some st" "sim_safe st"
    using simulate_ok [of sim_new rounds oc] assms by auto
  moreover have "open_source oc ft SimulatedSource ws blocks pending = Inr (Some (empty_pool cli_config))"
    by (simp add: open_source_def from_channel_def empty_pool_def)
  ultimately show ?thesis
    using tracker_run_ok [OF wf_empty_pool, of "sim_sent st" oc cli_config] by (auto simp: sim_safe_def)
qed

definition ex_round :: sim_round where
  "ex_round = \<lparr>round_stop = False, round_env = (\<lambda>_. (False, True)), round_wait_stop = False, round_accepts = True\<rparr>"

text \<open>\<open>should_stop_for\<close> answers with the stop flag of the first reading that has it set or is past the duration.\<close>

lemma should_stop_for_first:
  "should_stop_for d rs = (case dropWhile (\<lambda>(e, s). e < d \<and> \<not> s) rs of [] \<Rightarrow> None | (e, s) # _ \<Rightarrow> Some s)"
proof (induction rs)
  case (Cons r rs)
  obtain e s where "r = (e, s)" by (cases r)
  then show ?case using Cons by (cases "e < d"; cases s) simp_all
qed simp

lemma readings_advance:
  "successively (\<lambda>x y. fst x + sleep_for d (fst x) \<le> fst y) rs \<Longrightarrow> i < length rs \<Longrightarrow> min d (100 * i) \<le> fst (rs ! i)"
proof (induction i)
  case (Suc i)
  then have "fst (rs ! i) + sleep_for d (fst (rs ! i)) \<le> fst (rs ! Suc i)"
    by (simp add: successively_conv_nth)
  then show ?case using Suc by (auto simp: sleep_for_def min_def split: if_splits)
qed simp

text \<open>
  The wait between simulated blocks ends: if the clock advances at least by what the loop
  sleeps (the rest of the duration, at most 100 ms), it returns after at most
  duration/100 + 2 rounds, with the stop flag of the first reading that had it set or
  reached the duration.
\<close>
lemma wait_ends:
  assumes "successively (\<lambda>x y. fst x + sleep_for d (fst x) \<le> fst y) readings" and "d div 100 + 2 \<le> length readings"
  shows "\<exists>e stop. (e, stop) \<in> set readings \<and> should_stop_for d readings = Some stop \<and> (stop \<or> d \<le> e)"
proof -
  let ?i = "d div 100 + 1"
  have i: "?i < length readings" using assms(2) by simp
  have "d < 100 * ?i" by simp
  then have "d \<le> fst (readings ! ?i)" using readings_advance [OF assms(1) i] by simp
  then have "\<not> (\<lambda>(e, s). e < d \<and> \<not> s) (readings ! ?i)" by (simp add: case_prod_beta)
  then have "\<exists>x \<in> set readings. \<not> (\<lambda>(e, s). e < d \<and> \<not> s) x" using nth_mem [OF i] by (rule bexI)
  then have "dropWhile (\<lambda>(e, s). e < d \<and> \<not> s) readings \<noteq> []" by (simp only: dropWhile_eq_Nil_conv ball_simps(10) not_not)
  then obtain e s rest where d: "dropWhile (\<lambda>(e, s). e < d \<and> \<not> s) readings = (e, s) # rest"
    by (cases "dropWhile (\<lambda>(e, s). e < d \<and> \<not> s) readings") auto
  then have "(e, s) \<in> set readings" "\<not> (e < d \<and> \<not> s)"
    using set_dropWhileD [of "(e, s)" "\<lambda>(e, s). e < d \<and> \<not> s" readings] hd_dropWhile [of "\<lambda>(e, s). e < d \<and> \<not> s" readings] by auto
  then show ?thesis using d by (auto simp: should_stop_for_first)
qed

text \<open>Two lines of the plain text mode are at least half a second apart, when the clock does not run backwards.\<close>

lemma text_loop_times:
  "successively (\<lambda>x y. text_after x \<le> text_now y) rs \<Longrightarrow> \<forall>r \<in> set rs. text_now r \<le> text_check r \<and> text_check r \<le> text_after r \<Longrightarrow>
   (\<forall>x \<in> set (text_loop deadline last_render rs). last_render + 500 \<le> int (fst x)) \<and>
   sorted_wrt (\<lambda>x y. fst x + 500 \<le> fst y) (text_loop deadline last_render rs)"
proof (induction rs arbitrary: last_render)
  case (Cons r rs)
  have rs: "successively (\<lambda>x y. text_after x \<le> text_now y) rs" using Cons.prems(1) by (cases rs) simp_all
  have IH: "(\<forall>x \<in> set (text_loop deadline l rs). l + 500 \<le> int (fst x)) \<and>
      sorted_wrt (\<lambda>x y. fst x + 500 \<le> fst y) (text_loop deadline l rs)" for l
    using Cons.IH [OF rs] Cons.prems(2) by simp
  have r: "text_check r \<le> text_after r" using Cons.prems(2) by simp
  show ?case
  proof (cases "\<not> (text_stop r \<or> past_deadline deadline (text_now r)) \<and> 500 \<le> int (text_check r) - last_render")
    case True
    have "last_render + 500 \<le> int (fst x) \<and> text_check r + 500 \<le> fst x"
      if "x \<in> set (text_loop deadline (int (text_after r)) rs)" for x
      using IH [of "int (text_after r)"] that r True by force
    then show ?thesis using True IH [of "int (text_after r)"] by auto
  qed (use IH [of last_render] in auto)
qed simp

text \<open>A duration that the clock cannot hold panics before the loop, although the parser accepts it.\<close>

lemma duration_overflow_panics:
  assumes "2 ^ 63 \<le> unat w"
  shows "parse_args None None [''--simulate'', with_value DurationOpt (show_nat (unat w))] = Inr \<lparr>duration_secs = w, source = SimulatedSource\<rparr> \<and>
    run_app oc started_ms w rs = None"
proof -
  have "w \<noteq> 0" using assms by auto
  then have "deadline_of started_ms w = None" using assms by (simp add: deadline_of_def)
  then show ?thesis
    by (simp add: run_app_def parse_args_def parse_loop_flags parse_loop_with_value parse_duration_value_def initial_args_def
        choose_source_def del: parse_loop.simps(2))
qed

text \<open>The command line's peer-to-peer source never opens.\<close>

lemma p2p_source_fails: "\<exists>e. open_source oc ft (P2pSource ch bs disc) ws blocks pending = Inl e"
proof -
  obtain e where "p2p_connect ft \<lparr>p2p_chain = ch, bootnodes = bs, discovery_v4 = disc, listen_addr = None,
      block_transport = Consensus Eth2Libp2p\<rparr> = Inl e" using p2p_connect_fails by blast
  then show ?thesis by (simp add: open_source_def tracker_connect_def)
qed

end
