(* ===== verification/Mempool_Index.thy ===== *)
theory Mempool_Index
  imports Mempool_Tracker
begin

text \<open>
  The fee index of the tracker over its life: which keys an insertion adds and a block
  removes, and how a block moves the confirmed nonces. A block removes the keys of the
  transactions it includes; the keys of pending transactions that it jumps over stay.
\<close>

subsection \<open>What a block does to the fee index\<close>

text \<open>The keys of the pool's transactions at the nonces of a list of transactions.\<close>

definition pooled_keys :: "mempool \<Rightarrow> pending_tx list \<Rightarrow> fee_key set" where
  "pooled_keys m txs = {(f, a, n). map_option max_fee_per_gas (find_tx_by_addr_and_nonce m a n) = Some f \<and>
     (a, n) \<in> (\<lambda>tx. (ptx_sender tx, ptx_nonce tx)) ` set txs}"

lemma remove_confirmed_keys:
  assumes "wf_mempool m"
  shows "set (base_fee_eligibility (remove_confirmed tx m)) = set (base_fee_eligibility m) - pooled_keys m [tx]"
proof (cases "map_of (account_queues m) (ptx_sender tx)")
  case None
  then show ?thesis by (auto simp: remove_confirmed_def pooled_keys_def find_tx_by_addr_and_nonce_def)
next
  case (Some q)
  show ?thesis
  proof (cases "queue_find q (ptx_nonce tx)")
    case None
    then show ?thesis using Some by (auto simp: remove_confirmed_def pooled_keys_def find_tx_by_addr_and_nonce_def)
  next
    case mtx: (Some mtx)
    from queue_find_Some [OF wf_queue [OF assms Some] mtx] show ?thesis
      using Some mtx assms by (auto simp: remove_confirmed_def pooled_keys_def find_tx_by_addr_and_nonce_def wf_mempool_def)
  qed
qed

lemma remove_confirmed_base [simp]: "account_base (remove_confirmed tx m) = account_base m"
  by (auto simp: remove_confirmed_def account_base_def split: option.splits)

lemma fold_remove_keys:
  "wf_mempool m \<Longrightarrow> set (base_fee_eligibility (fold remove_confirmed txs m)) = set (base_fee_eligibility m) - pooled_keys m txs \<and>
    account_base (fold remove_confirmed txs m) = account_base m"
proof (induction txs arbitrary: m)
  case (Cons tx txs)
  note r = remove_confirmed_spec [OF Cons.prems, of tx]
  have "pooled_keys m (tx # txs) = pooled_keys m [tx] \<union> pooled_keys (remove_confirmed tx m) txs"
    using r by (auto simp: pooled_keys_def split: if_splits)
  then show ?case using Cons.IH [of "remove_confirmed tx m"] r remove_confirmed_keys [OF Cons.prems, of tx]
    by auto
qed (auto simp: pooled_keys_def)

text \<open>The confirmed nonce moves past every included nonce of the account.\<close>

fun past_nonces :: "addr \<Rightarrow> pending_tx list \<Rightarrow> u64 \<Rightarrow> u64" where
  "past_nonces a [] c = c"
| "past_nonces a (tx # txs) c = past_nonces a txs (if ptx_sender tx = a then max c (ptx_nonce tx + 1) else c)"

lemma advance_account_keys:
  assumes "advance_account oc tx m = Some m'"
  shows "base_fee_eligibility m' = base_fee_eligibility m" and "prio_index m' = prio_index m"
    and "account_base m' a = map_option (past_nonces a [tx]) (account_base m a)"
  using assms by (cases "map_of (account_queues m) (ptx_sender tx)"; cases "a = ptx_sender tx";
    auto simp: advance_account_def account_base_def Let_def bind_eq_Some_conv option.map_comp comp_def dest: rust_add_SomeD)+

lemma fold_advance_keys:
  "fold_opt (advance_account oc) txs m = Some m' \<Longrightarrow>
   base_fee_eligibility m' = base_fee_eligibility m \<and> account_base m' a = map_option (past_nonces a txs) (account_base m a)"
proof (induction txs arbitrary: m)
  case (Cons tx txs)
  then obtain m1 where m1: "advance_account oc tx m = Some m1" "fold_opt (advance_account oc) txs m1 = Some m'"
    by (auto simp: bind_eq_Some_conv)
  from Cons.IH [OF m1(2)] advance_account_keys [OF m1(1)] show ?case
    by (simp add: option.map_comp comp_def)
qed (simp add: map_option_cong [where g = "\<lambda>x. x"] option.map_ident)

lemma apply_block_keys:
  assumes "wf_mempool m" and "apply_block oc b m = Some m'"
  shows "set (base_fee_eligibility m') = set (base_fee_eligibility m) - pooled_keys m (included_txs b)"
    and "account_base m' a = map_option (past_nonces a (included_txs b)) (account_base m a)"
proof -
  obtain g m3 where m3: "fold_opt (advance_account oc) (included_txs b) (fold remove_confirmed (included_txs b) (observe_flow b g m)) = Some m3"
    and m': "m' = rebuild (m3\<lparr>current_base_fee := new_base_fee b\<rparr>)"
    using assms(2) by (auto simp: apply_block_def Let_def bind_eq_Some_conv)
  let ?m1 = "observe_flow b g m"
  have same: "account_queues ?m1 = account_queues m" "base_fee_eligibility ?m1 = base_fee_eligibility m"
    "prio_index ?m1 = prio_index m" "config ?m1 = config m" by (simp_all add: observe_flow_def)
  have wf: "wf_mempool ?m1" using assms(1) wf_mempool_cong [of ?m1 m] same by simp
  have "pooled_keys ?m1 = pooled_keys m" "account_base ?m1 = account_base m"
    by (intro ext, simp add: pooled_keys_def account_base_def find_tx_by_addr_and_nonce_def same)+
  then show "set (base_fee_eligibility m') = set (base_fee_eligibility m) - pooled_keys m (included_txs b)"
    "account_base m' a = map_option (past_nonces a (included_txs b)) (account_base m a)"
    using fold_remove_keys [OF wf, of "included_txs b"] fold_advance_keys [OF m3, of a] same
    by (simp_all add: m' rebuild_def account_base_def)
qed

text \<open>
  A pending transaction that a block jumps over leaves its key behind: the block includes a
  later nonce of the account but not this one, the slot is drained, and the key stays in
  the fee index, where no pending transaction has it.
\<close>
lemma skipped_slot_leaves_key:
  assumes "wf_mempool m" and "block_ok b" and "apply_block oc b m = Some m'"
    and "find_tx_by_addr_and_nonce m a n = Some tx"
    and "included \<in> set (included_txs b)" and "ptx_sender included = a" and "n < ptx_nonce included"
    and "(a, n) \<notin> (\<lambda>tx. (ptx_sender tx, ptx_nonce tx)) ` set (included_txs b)"
  shows "find_tx_by_addr_and_nonce m' a n = None \<and> (max_fee_per_gas tx, a, n) \<in> set (base_fee_eligibility m')"
proof -
  have "find_tx_by_addr_and_nonce m' a n = None"
    using apply_block_spec [OF assms(1,2), of oc] assms(3,5-7) by fastforce
  moreover have "(max_fee_per_gas tx, a, n) \<notin> pooled_keys m (included_txs b)" using assms(8) by (simp add: pooled_keys_def)
  ultimately show ?thesis
    using apply_block_keys(1) [OF assms(1,3)] find_Some(3) [OF assms(1,4)] by simp
qed

subsection \<open>Classification by the content of the pool\<close>

lemma blocked_below_iff:
  "blocked_below m ss i \<longleftrightarrow> (\<exists>j < i. \<not> (j < length ss \<and> (\<exists>tx. ss ! j = Some tx \<and> can_pay m tx)))"
proof (induction i arbitrary: ss)
  case (Suc i)
  show ?case
  proof (cases ss)
    case (Cons s rest)
    then show ?thesis using Suc.IH [of rest]
      by (cases s) (auto simp: blocked_below_Cons less_Suc_eq_0_disj simp del: blocked_below.simps(4))
  qed auto
qed simp

text \<open>A nonce of an account whose transaction pays, by a lookup in the pool.\<close>

definition pays_at :: "mempool \<Rightarrow> addr \<Rightarrow> u64 \<Rightarrow> bool" where
  "pays_at m a n \<longleftrightarrow> (case find_tx_by_addr_and_nonce m a n of None \<Rightarrow> False | Some tx \<Rightarrow> can_pay m tx)"

lemma blocked_below_pays:
  assumes "wf_mempool m" and "map_of (account_queues m) a = Some q" and "confirmed_nonce q \<le> n"
  shows "blocked_below m (slots q) (unat n - unat (confirmed_nonce q)) \<longleftrightarrow> (\<exists>j. confirmed_nonce q \<le> j \<and> j < n \<and> \<not> pays_at m a j)"
proof -
  let ?c = "unat (confirmed_nonce q)"
  have pays: "pays_at m a j \<longleftrightarrow> unat j - ?c < length (slots q) \<and> (\<exists>tx. slots q ! (unat j - ?c) = Some tx \<and> can_pay m tx)"
    if "confirmed_nonce q \<le> j" for j
    using assms(2) that by (auto simp: pays_at_def find_tx_by_addr_and_nonce_def queue_find_nat word_le_nat_alt split: option.splits)
  show ?thesis
  proof
    assume "blocked_below m (slots q) (unat n - ?c)"
    then obtain i where i: "i < unat n - ?c" "\<not> (i < length (slots q) \<and> (\<exists>tx. slots q ! i = Some tx \<and> can_pay m tx))"
      by (auto simp: blocked_below_iff)
    have "unat n < 2 ^ 64" using unat_less_exp [of n] by simp
    then have j: "unat (of_nat (?c + i) :: u64) = ?c + i" using i(1) by (intro unat_of_nat_u64) linarith
    let ?j = "of_nat (?c + i) :: u64"
    have "confirmed_nonce q \<le> ?j" "?j < n" unfolding word_le_nat_alt word_less_nat_alt j using i(1) by simp_all
    moreover have "\<not> pays_at m a ?j" using pays [OF \<open>confirmed_nonce q \<le> ?j\<close>] i(2) unfolding j by simp
    ultimately show "\<exists>j. confirmed_nonce q \<le> j \<and> j < n \<and> \<not> pays_at m a j" by blast
  next
    assume "\<exists>j. confirmed_nonce q \<le> j \<and> j < n \<and> \<not> pays_at m a j"
    then obtain j where j: "confirmed_nonce q \<le> j" "j < n" "\<not> pays_at m a j" by blast
    then show "blocked_below m (slots q) (unat n - ?c)"
      unfolding blocked_below_iff using pays [OF j(1)]
      by (intro exI [of _ "unat j - ?c"]) (auto simp: word_le_nat_alt word_less_nat_alt)
  qed
qed

text \<open>
  C24: \<open>classify_transaction\<close>, which scans the slots of the account, gives for a pending
  transaction what the content of the pool says: it is nonce-bound exactly if some nonce
  between the account's confirmed one and its own is missing or cannot pay the base fee with
  a positive tip; otherwise its own fee decides.
\<close>
theorem classification_spec:
  assumes "wf_mempool m" and "find_tx_by_addr_and_nonce m a n = Some tx" and "account_base m a = Some c"
  shows "classify_transaction oc m tx = Some
    (if \<exists>j. c \<le> j \<and> j < n \<and> \<not> pays_at m a j then NonceBound
     else if max_fee_per_gas tx < current_base_fee m then BaseFeeInvalid
     else if effective_priority_fee m tx = 0 then Unmarketable
     else Marketable)"
proof -
  obtain q where q: "map_of (account_queues m) a = Some q" "c = confirmed_nonce q"
    using assms(3) by (auto simp: account_base_def)
  then have "queue_find q n = Some tx" using assms(2) by (simp add: find_tx_by_addr_and_nonce_def)
  then have "confirmed_nonce q \<le> n" by (rule queue_find_Some(3) [OF wf_queue [OF assms(1) q(1)]])
  from classify_value [OF assms(1,2) q(1), of oc] blocked_below_pays [OF assms(1) q(1) this] show ?thesis
    by (simp add: q(2))
qed

theorem classification_spec_witness:
  "classify_transaction True (ex_pool\<lparr>current_base_fee := 25\<rparr>) (ex_tx 2 7 6 20) = Some BaseFeeInvalid"
proof -
  let ?m = "ex_pool\<lparr>current_base_fee := 25\<rparr>"
  have wf: "wf_mempool ?m" using ex_pool_wf wf_mempool_cong [of ?m ex_pool] by simp
  have f: "find_tx_by_addr_and_nonce ?m 7 6 = Some (ex_tx 2 7 6 20)" "find_tx_by_addr_and_nonce ?m 7 5 = Some (ex_tx 1 7 5 30)"
    by (simp_all add: ex_pool_def find_tx_by_addr_and_nonce_def queue_find_def slot_get_def)
  have b: "account_base ?m 7 = Some 5" by (simp add: ex_pool_def account_base_def)
  have "pays_at ?m 7 5" by (simp add: pays_at_def f can_pay_def effective_priority_fee_def ex_tx_def saturating_sub_def)
  moreover have "j = 5" if "5 \<le> j" "j < 6" for j :: u64
    using that by (simp add: word_le_nat_alt word_less_nat_alt word_unat_eq_iff)
  ultimately have "\<not> (\<exists>j. 5 \<le> j \<and> j < 6 \<and> \<not> pays_at ?m 7 j)" by blast
  then show ?thesis using classification_spec [OF wf f(1) b, of True] by (simp add: ex_tx_def)
qed

end
