(* ===== verification/Sim_Pool.thy ===== *)
theory Sim_Pool
  imports Cli_Sim Mempool_Index
begin

text \<open>
  The tracker behind the simulated chain, round by round. A round announces ten transactions
  and includes the first five; the next block jumps over the other five, whose keys stay in
  the fee index, until the index is full although hardly anything is pending.
\<close>

abbreviation sim_addr :: addr where
  "sim_addr \<equiv> repeat_byte 20 1"

text \<open>A round in which nothing stops the simulation.\<close>

definition full_round :: "sim_round \<Rightarrow> bool" where
  "full_round r \<longleftrightarrow> \<not> round_stop r \<and> (\<forall>i < 10. round_env r i = (False, True)) \<and> \<not> round_wait_stop r \<and> round_accepts r"

subsection \<open>What a full round sends\<close>

definition announce :: "nat \<Rightarrow> mempool_event" where
  "announce n = PendingTransaction (sim_tx (of_nat n))"

definition round_block :: "nat \<Rightarrow> block_update" where
  "round_block k = \<lparr>included_txs = map (\<lambda>i. sim_tx (of_nat i)) [10 * k..<10 * k + 5],
     new_base_fee = 10 + of_nat (k mod 5), gas_used = 21000 * 5, block_gas_limit = 30000000\<rparr>"

definition round_events :: "nat \<Rightarrow> mempool_event list" where
  "round_events k = map announce [10 * k..<10 * k + 10] @ [NewBlock (round_block k)]"

lemma sim_txs_full:
  assumes "sim_nonce st = of_nat n" and "view_pending (sim_telemetry st) = sim_nonce st" and "n + j < 2 ^ 64"
  shows "\<exists>t. sim_txs oc (replicate j (False, True)) st =
    Some (True, st\<lparr>sim_sent := sim_sent st @ map announce [n..<n + j], sim_nonce := of_nat (n + j), sim_telemetry := t\<rparr>) \<and>
    view_pending t = of_nat (n + j)"
  using assms
proof (induction j arbitrary: n st)
  case 0
  have "st = st\<lparr>sim_sent := sim_sent st, sim_telemetry := sim_telemetry st, sim_nonce := sim_nonce st\<rparr>" by simp
  then show ?case using 0 by (intro exI [of _ "sim_telemetry st"]) simp
next
  case (Suc j)
  let ?st = "st\<lparr>sim_sent := sim_sent st @ [announce n],
      sim_telemetry := (sim_telemetry st)\<lparr>view_pending := of_nat (Suc n)\<rparr>, sim_nonce := of_nat (Suc n)\<rparr>"
  have "unat (of_nat n :: u64) + 1 < 2 ^ 64" using Suc.prems(3) unat_of_nat_u64 [of n] by simp
  then have "rust_add oc (of_nat n :: u64) 1 = Some (of_nat (Suc n))" by (simp add: rust_add_ok)
  then have "sim_txs oc (replicate (Suc j) (False, True)) st = sim_txs oc (replicate j (False, True)) ?st"
    using Suc.prems(1,2) by (simp add: announce_def)
  moreover have "[n..<n + Suc j] = n # [Suc n..<Suc n + j]" using upt_conv_Cons [of n "n + Suc j"] by simp
  ultimately show ?case using Suc.IH [of ?st "Suc n"] Suc.prems(3) by simp
qed

lemma sim_included_at:
  assumes "10 + m < 2 ^ 64" and "i < 10"
  shows "sim_included oc (of_nat (m + 10)) (of_nat i) = Some (sim_tx (of_nat (m + i)))"
proof -
  have u: "unat (of_nat (m + 10) :: u64) = m + 10" "unat (of_nat i :: u64) = i"
    using assms by (simp_all only: unat_of_nat_u64)
  have "(of_nat (m + 10) :: u64) - 10 + of_nat i = of_nat (m + i)" by simp
  then show ?thesis using sim_included_ok(1) [of "of_nat (m + 10)" "of_nat i" oc] u assms(2) by simp
qed

lemma sim_block_full:
  assumes "sim_nonce st = of_nat (10 * k + 10)" and "sim_block_number st = of_nat k" and "10 * k + 10 < 2 ^ 64"
  shows "\<exists>t. sim_block oc st = Some (round_block k, st\<lparr>sim_telemetry := t\<rparr>) \<and> view_pending t = view_pending (sim_telemetry st)"
proof -
  define tx where "tx i = sim_tx (of_nat (10 * k + i))" for i
  have inc: "sim_included oc (sim_nonce st) (of_nat i) = Some (tx i)" if "i < 10" for i
    using sim_included_at [of "10 * k" i oc] assms that by (simp add: tx_def)
  note five = inc [of 0, simplified] inc [of 1, simplified] inc [of 2, simplified] inc [of 3, simplified] inc [of 4, simplified]
  have k: "unat (of_nat k :: u64) = k" using assms(3) by (intro unat_of_nat_u64) simp
  have "ucast ((of_nat k :: u64) mod 5) = (of_nat (k mod 5) :: u128)"
  proof -
    have "unat (of_nat (k mod 5) :: u128) = k mod 5" by (simp add: unat_of_nat take_bit_nat_eq_self)
    then show ?thesis by (simp add: word_unat_eq_iff unat_ucast_up unat_mod k)
  qed
  moreover have "map (\<lambda>i. sim_tx (of_nat i)) [10 * k..<10 * k + 5] = [tx 0, tx 1, tx 2, tx 3, tx 4]"
    by (simp add: upt_conv_Cons tx_def ac_simps)
  moreover have "unat (of_nat k :: u64) + 1 < 2 ^ 64" using assms(3) k by simp
  ultimately show ?thesis
    using five assms(2) by (auto simp: sim_block_def round_block_def rust_add_ok)
qed

lemma simulate_full:
  assumes "\<forall>r \<in> set rs. full_round r" and "10 * (k + length rs) < 2 ^ 64 - 1"
    and "sim_nonce st = of_nat (10 * k)" "sim_block_number st = of_nat k" "view_pending (sim_telemetry st) = sim_nonce st"
  shows "\<exists>st'. simulate_blockchain oc rs st = Some st' \<and>
    sim_sent st' = sim_sent st @ concat (map round_events [k..<k + length rs])"
  using assms
proof (induction rs arbitrary: k st)
  case (Cons r rs)
  have r: "full_round r" using Cons.prems(1) by simp
  then have env: "map (round_env r) [0..<10] = replicate 10 (False, True)"
    by (intro nth_equalityI) (simp_all add: full_round_def)
  let ?st1 = "\<lambda>t. st\<lparr>sim_sent := sim_sent st @ map announce [10 * k..<10 * k + 10],
      sim_nonce := of_nat (10 * k + 10), sim_telemetry := t\<rparr>"
  obtain t where t: "sim_txs oc (map (round_env r) [0..<10]) st = Some (True, ?st1 t)" "view_pending t = of_nat (10 * k + 10)"
    using sim_txs_full [of st "10 * k" 10 oc] Cons.prems(2-5) env by auto
  obtain t2 where t2: "sim_block oc (?st1 t) = Some (round_block k, ?st1 t2)" "view_pending t2 = of_nat (10 * k + 10)"
    using sim_block_full [of "?st1 t" k oc] Cons.prems(2,4) t(2) by auto
  let ?st = "?st1 t2\<lparr>sim_sent := sim_sent (?st1 t2) @ [NewBlock (round_block k)], sim_block_number := of_nat (Suc k)\<rparr>"
  have "unat (of_nat k :: u64) + 1 < 2 ^ 64" using unat_of_nat_u64 [of k] Cons.prems(2) by simp
  then have "rust_add oc (of_nat k :: u64) 1 = Some (of_nat (Suc k))" by (simp add: rust_add_ok)
  then have "simulate_blockchain oc (r # rs) st = simulate_blockchain oc rs ?st"
    using r t(1) t2(1) Cons.prems(4) by (simp add: full_round_def)
  moreover have "\<exists>st'. simulate_blockchain oc rs ?st = Some st' \<and>
      sim_sent st' = sim_sent ?st @ concat (map round_events [Suc k..<Suc k + length rs])"
    using Cons.IH [of "Suc k" ?st] Cons.prems(1,2) t2(2) by simp
  moreover have "[k..<Suc (k + length rs)] = k # [Suc k..<Suc (k + length rs)]" by (simp add: upt_conv_Cons del: upt_Suc)
  ultimately show ?case by (simp add: round_events_def [of k] del: upt_Suc)
qed simp

lemma tracker_run_append: "tracker_run oc (evs @ evs') m = tracker_run oc evs m \<bind> tracker_run oc evs'"
  by (simp add: tracker_run_def fold_opt_append)

lemma tracker_run_one: "tracker_run oc [ev] = handle_event oc ev"
  by (intro ext) (simp add: tracker_run_def fun_eq_iff split: bind_split)

subsection \<open>A full pool\<close>

text \<open>
  With the fee index at capacity, a transaction that does not beat a fee of the priority
  index is rejected, and nothing changes.
\<close>

lemma full_pool_rejects:
  assumes "wf_mempool m" and "unat (global_capacity (config m)) \<le> length (base_fee_eligibility m)"
    and "(Reverse f, a, n) \<in> set (prio_index m)" and "effective_priority_fee m tx \<le> f"
  shows "insert_tx oc tx m = Some m"
proof -
  obtain g b j rest where p: "prio_index m = (g, b, j) # rest"
    using assms(3) by (cases "prio_index m") auto
  have "(g, b, j) \<le> (Reverse f, a, n)" using assms(1,3) p by (auto simp: wf_mempool_def)
  then have "f \<le> unreverse g" by (auto simp: less_eq_prod_def less_reverse_def less_eq_reverse_def)
  then have "effective_priority_fee m tx \<le> unreverse g" using assms(4) by (rule order_trans [rotated])
  then show ?thesis using assms(2) p by (simp add: insert_tx_def evict_def not_less)
qed

subsection \<open>The pool within a round\<close>

text \<open>
  The pool holds the nonces from \<open>lo\<close> up to \<open>hi\<close> of the simulated account and nothing else, the
  fee index has \<open>keys\<close> keys with nonces below \<open>bound\<close>, and the account's window starts at most
  five below \<open>w\<close>.
\<close>

definition sim_pool :: "nat \<Rightarrow> nat \<Rightarrow> nat \<Rightarrow> nat \<Rightarrow> nat \<Rightarrow> mempool \<Rightarrow> bool" where
  "sim_pool w lo hi bound keys m \<longleftrightarrow> wf_mempool m \<and> config m = cli_config \<and>
     10 \<le> unat (current_base_fee m) \<and> unat (current_base_fee m) \<le> 14 \<and>
     (\<forall>a n. find_tx_by_addr_and_nonce m a n = (if a = sim_addr \<and> lo \<le> unat n \<and> unat n < hi then Some (sim_tx n) else None)) \<and>
     length (base_fee_eligibility m) = keys \<and> (\<forall>(f, a, n) \<in> set (base_fee_eligibility m). unat n < bound) \<and>
     (case account_base m sim_addr of None \<Rightarrow> hi = w | Some c \<Rightarrow> unat c \<le> w \<and> w \<le> unat c + 5)"

lemma sim_tx_simps [simp]:
  "ptx_sender (sim_tx n) = sim_addr" "ptx_nonce (sim_tx n) = n" "gas_limit (sim_tx n) = 21000"
  by (simp_all add: sim_tx_def)

lemma cli_config_simps [simp]:
  "global_capacity cli_config = 1000" "per_account_capacity cli_config = 100"
  by (simp_all add: cli_config_def)

lemma sim_fees:
  "unat (max_fee_per_gas (sim_tx n)) = 15 + unat n mod 10"
  "unat (max_priority_fee_per_gas (sim_tx n)) = 1 + unat n mod 5"
proof -
  have s: "unat (x + ucast (n mod y) :: u128) = unat x + unat n mod unat y" if "unat x < 100" "y \<noteq> 0" "unat y < 100" for x y
  proof -
    have "0 < unat y" using that(2) by (simp add: unat_gt_0)
    then have "unat n mod unat y < 100" using that(3) by (meson mod_less_divisor order_less_trans)
    then show ?thesis using that by (subst unat_add_ok) (simp_all add: unat_ucast_up unat_mod)
  qed
  show "unat (max_fee_per_gas (sim_tx n)) = 15 + unat n mod 10" "unat (max_priority_fee_per_gas (sim_tx n)) = 1 + unat n mod 5"
    using s [of 15 10] s [of 1 5] by (simp_all add: sim_tx_def)
qed

lemma sim_fee:
  assumes "10 \<le> unat (current_base_fee m)" and "unat (current_base_fee m) \<le> 14"
  shows "unat (effective_priority_fee m (sim_tx n)) = 1 + unat n mod 5"
proof -
  have "unat n mod 5 \<le> unat n mod 10" by presburger
  then show ?thesis using assms by (simp add: effective_priority_fee_def sim_fees)
qed

lemma sim_insert_room:
  assumes "sim_pool w lo n n keys m" and "lo \<le> n" and "w \<le> n" and "n < w + 10" and "n < 2 ^ 64 - 1" and "keys < 1000"
  shows "\<exists>m'. insert_tx oc (sim_tx (of_nat n)) m = Some m' \<and> sim_pool w lo (Suc n) (Suc n) (Suc keys) m' \<and>
    current_base_fee m' = current_base_fee m \<and>
    (Reverse (effective_priority_fee m (sim_tx (of_nat n))), sim_addr, of_nat n) \<in> set (prio_index m') \<and>
    set (prio_index m) \<subseteq> set (prio_index m')"
proof -
  let ?n = "of_nat n :: u64"
  let ?tx = "sim_tx ?n"
  have p: "wf_mempool m" "config m = cli_config" "length (base_fee_eligibility m) = keys"
    "\<forall>(f, a, n') \<in> set (base_fee_eligibility m). unat n' < n"
    using assms(1) by (simp_all add: sim_pool_def)
  have find: "find_tx_by_addr_and_nonce m a j = (if a = sim_addr \<and> lo \<le> unat j \<and> unat j < n then Some (sim_tx j) else None)" for a j
    using assms(1) by (simp add: sim_pool_def)
  have n: "unat ?n = n" using assms(5) by (intro unat_of_nat_u64) simp
  have tx: "tx_ok ?tx" using assms(5) n by (simp add: tx_ok_def)
  obtain m' where m': "insert_tx oc ?tx m = Some m'" "insert_post ?tx m m'"
    using insert_tx_effect [OF p(1) tx, of oc] p(2,3) assms(6) by auto
  let ?c = "confirmed_nonce (entry_queue ?tx m)"
  have c: "unat ?c \<le> w \<and> w \<le> unat ?c + 5"
    using assms(1) n by (auto simp: entry_queue_def sim_pool_def account_base_def split: option.splits)
  then have fits: "fits_account ?tx m" using p(2) n assms(3,4) by (auto simp: fits_account_def Let_def)
  have base: "account_base m' sim_addr = Some ?c" using m'(2) c n assms(3) by (simp add: insert_post_def word_le_nat_alt)
  have keys: "set (base_fee_eligibility m') = insert (max_fee_per_gas ?tx, sim_addr, ?n) (set (base_fee_eligibility m))"
    using m'(2) fits by (simp add: insert_post_def)
  have "(max_fee_per_gas ?tx, sim_addr, ?n) \<notin> set (base_fee_eligibility m)" using p(4) n by auto
  moreover have "distinct (base_fee_eligibility m)" "distinct (base_fee_eligibility m')"
    using p(1) m'(2) by (simp_all add: wf_mempool_def insert_post_def)
  ultimately have len: "length (base_fee_eligibility m') = Suc keys"
    using keys p(3) by (metis distinct_card card_insert_disjoint finite_set)
  have "find_tx_by_addr_and_nonce m' a j =
      (if a = sim_addr \<and> lo \<le> unat j \<and> unat j < Suc n then Some (sim_tx j) else None)" for a j
  proof -
    have "j = ?n \<longleftrightarrow> unat j = n" using n by (simp add: word_unat_eq_iff)
    then show ?thesis using m'(2) fits find [of a j] assms(2) by (auto simp: insert_post_def)
  qed
  moreover have "\<forall>(f, a, j) \<in> set (base_fee_eligibility m'). unat j < Suc n" using keys p(4) n by fastforce
  moreover have "wf_mempool m'" "config m' = cli_config" "current_base_fee m' = current_base_fee m"
    using m'(2) p(2) by (simp_all add: insert_post_def)
  ultimately have "sim_pool w lo (Suc n) (Suc n) (Suc keys) m'"
    using assms(1) len base c by (simp add: sim_pool_def)
  then show ?thesis using m' fits by (simp add: insert_post_def subset_insertI)
qed

lemma announce_room:
  assumes "sim_pool w lo n n keys m" and "lo \<le> n" and "w \<le> n" and "n + j \<le> w + 10" and "n + j < 2 ^ 64 - 1" and "keys + j \<le> 1000"
  shows "\<exists>m'. tracker_run oc (map announce [n..<n + j]) m = Some m' \<and> sim_pool w lo (n + j) (n + j) (keys + j) m' \<and>
    (0 < j \<longrightarrow> (\<exists>f. unat f = 1 + (n + j - 1) mod 5 \<and> (Reverse f, sim_addr, of_nat (n + j - 1)) \<in> set (prio_index m')))"
  using assms
proof (induction j)
  case 0
  then show ?case by (simp add: tracker_run_def)
next
  case (Suc j)
  then obtain m1 where m1: "tracker_run oc (map announce [n..<n + j]) m = Some m1" "sim_pool w lo (n + j) (n + j) (keys + j) m1"
    by auto
  let ?tx = "sim_tx (of_nat (n + j))"
  obtain m2 where m2: "insert_tx oc ?tx m1 = Some m2" "sim_pool w lo (Suc (n + j)) (Suc (n + j)) (Suc (keys + j)) m2"
    "(Reverse (effective_priority_fee m1 ?tx), sim_addr, of_nat (n + j)) \<in> set (prio_index m2)"
    using sim_insert_room [OF m1(2), of oc] Suc.prems by auto
  have "unat (of_nat (n + j) :: u64) = n + j" using Suc.prems(5) by (intro unat_of_nat_u64) simp
  moreover have "unat (effective_priority_fee m1 ?tx) = 1 + unat (of_nat (n + j) :: u64) mod 5"
    using m1(2) by (intro sim_fee) (simp_all only: sim_pool_def)
  ultimately have "unat (effective_priority_fee m1 ?tx) = 1 + (n + j) mod 5" by simp
  moreover have "tracker_run oc (map announce [n..<n + Suc j]) m = Some m2"
    using m1(1) m2(1) by (simp add: tracker_run_def fold_opt_append announce_def)
  ultimately show ?case using m2(2,3) by auto
qed

lemma announce_full:
  assumes "sim_pool w lo hi bound 1000 m" and "(Reverse f, a, n) \<in> set (prio_index m)" and "5 \<le> unat f"
  shows "tracker_run oc (map announce ns) m = Some m"
proof (induction ns)
  case (Cons i ns)
  let ?tx = "sim_tx (of_nat i)"
  have p: "wf_mempool m" "unat (global_capacity (config m)) \<le> length (base_fee_eligibility m)"
    using assms(1) by (simp_all add: sim_pool_def)
  have "unat (effective_priority_fee m ?tx) = 1 + unat (of_nat i :: u64) mod 5"
    using assms(1) by (intro sim_fee) (simp_all only: sim_pool_def)
  moreover have "unat (of_nat i :: u64) mod 5 < 5" by simp
  ultimately have "effective_priority_fee m ?tx \<le> f" using assms(3) by (simp only: word_le_nat_alt)
  from full_pool_rejects [OF p assms(2) this, of oc] show ?case using Cons by (simp add: tracker_run_def announce_def)
qed (simp add: tracker_run_def)

subsection \<open>The block of a round\<close>

lemma past_sim_nonces:
  "\<forall>i \<in> set ns. i < 2 ^ 64 - 1 \<Longrightarrow>
   unat (past_nonces sim_addr (map (\<lambda>i. sim_tx (of_nat i)) ns) c) = fold (\<lambda>i c. max c (Suc i)) ns (unat c)"
proof (induction ns arbitrary: c)
  case (Cons i ns)
  have "unat ((of_nat i :: u64) + 1) = Suc i" using Cons.prems unat_of_nat_u64 [of "Suc i"] by (simp add: add.commute)
  then show ?case using Cons by simp
qed simp

lemma fold_max_upt: "a < b \<Longrightarrow> fold (\<lambda>i c. max c (Suc i)) [a..<b] c = max c (b :: nat)"
  by (induction b) (auto simp: less_Suc_eq)

lemma pooled_sim_keys:
  assumes "\<And>i. i \<in> set ns \<Longrightarrow> find_tx_by_addr_and_nonce m sim_addr (of_nat i) = Some (sim_tx (of_nat i))"
  shows "pooled_keys m (map (\<lambda>i. sim_tx (of_nat i)) ns) =
    (\<lambda>i. (max_fee_per_gas (sim_tx (of_nat i)), sim_addr, of_nat i)) ` set ns"
  using assms by (auto simp: pooled_keys_def image_image)

lemma sim_block_step:
  assumes "sim_pool (10 * k) lo hi hi keys m" and "lo \<le> 10 * k" and "10 * k + 5 \<le> hi" and "hi \<le> 10 * k + 10"
    and "10 * k + 10 < 2 ^ 64 - 1"
  shows "\<exists>m'. apply_block oc (round_block k) m = Some m' \<and> unat (current_base_fee m') = 10 + k mod 5 \<and> index_exact oc m' \<and>
    sim_pool (10 * k + 10) (10 * k + 5) hi (10 * k + 10) (keys - 5) m'"
proof -
  let ?b = "round_block k" and ?ns = "[10 * k..<10 * k + 5]"
  have p: "wf_mempool m" "config m = cli_config" "length (base_fee_eligibility m) = keys"
    "\<forall>(f, a, n) \<in> set (base_fee_eligibility m). unat n < hi" using assms(1) by (simp_all add: sim_pool_def)
  have find: "find_tx_by_addr_and_nonce m a j = (if a = sim_addr \<and> lo \<le> unat j \<and> unat j < hi then Some (sim_tx j) else None)" for a j
    using assms(1) by (simp add: sim_pool_def)
  have u: "unat (of_nat i :: u64) = i" if "i \<in> set ?ns" for i using that assms(5) by (intro unat_of_nat_u64) simp
  have inc: "included_txs ?b = map (\<lambda>i. sim_tx (of_nat i)) ?ns" by (simp add: round_block_def)
  have "block_ok ?b" using u assms(5) by (auto simp: block_ok_def inc tx_ok_def comp_def sum_list_triv)
  then obtain m' where m': "apply_block oc ?b m = Some m'" "wf_mempool m'" "index_exact oc m'" "config m' = config m"
    "current_base_fee m' = new_base_fee ?b"
    "\<And>a n. find_tx_by_addr_and_nonce m' a n =
       (if \<exists>tx \<in> set (included_txs ?b). ptx_sender tx = a \<and> n \<le> ptx_nonce tx then None else find_tx_by_addr_and_nonce m a n)"
    using apply_block_spec [OF p(1), of ?b oc] by blast
  have base: "unat (current_base_fee m') = 10 + k mod 5"
    using m'(5) unat_add_ok [of "10 :: u128" "of_nat (k mod 5)"] by (simp add: round_block_def unat_of_nat take_bit_nat_eq_self)
  have "(\<exists>tx \<in> set (included_txs ?b). ptx_sender tx = a \<and> n \<le> ptx_nonce tx) \<longleftrightarrow> a = sim_addr \<and> unat n < 10 * k + 5" for a n
  proof -
    have "(\<exists>tx \<in> set (included_txs ?b). ptx_sender tx = a \<and> n \<le> ptx_nonce tx) \<longleftrightarrow> a = sim_addr \<and> (\<exists>i \<in> set ?ns. n \<le> of_nat i)"
      by (auto simp: inc)
    also have "(\<exists>i \<in> set ?ns. n \<le> of_nat i) \<longleftrightarrow> (\<exists>i \<in> set ?ns. unat n \<le> i)"
      by (rule bex_cong [OF refl]) (simp add: word_le_nat_alt u)
    also have "\<dots> \<longleftrightarrow> unat n < 10 * k + 5" by (auto intro!: bexI [of _ "10 * k + 4"])
    finally show ?thesis .
  qed
  then have find': "find_tx_by_addr_and_nonce m' a n =
      (if a = sim_addr \<and> 10 * k + 5 \<le> unat n \<and> unat n < hi then Some (sim_tx n) else None)" for a n
    using m'(6) [of a n] find [of a n] assms(2) by auto
  let ?K = "(\<lambda>i. (max_fee_per_gas (sim_tx (of_nat i)), sim_addr, of_nat i :: u64)) ` set ?ns"
  have fi: "find_tx_by_addr_and_nonce m sim_addr (of_nat i) = Some (sim_tx (of_nat i))" if "i \<in> set ?ns" for i
    using that find u assms(2,3) by simp
  then have K: "pooled_keys m (included_txs ?b) = ?K" unfolding inc by (intro pooled_sim_keys) blast
  have inj: "inj_on (\<lambda>i. (max_fee_per_gas (sim_tx (of_nat i)), sim_addr, of_nat i :: u64)) (set ?ns)"
  proof (rule inj_onI)
    fix i j assume i: "i \<in> set ?ns" and j: "j \<in> set ?ns"
      and "(max_fee_per_gas (sim_tx (of_nat i)), sim_addr, of_nat i :: u64) = (max_fee_per_gas (sim_tx (of_nat j)), sim_addr, of_nat j)"
    then have "unat (of_nat i :: u64) = unat (of_nat j :: u64)" by simp
    then show "i = j" by (simp only: u [OF i] u [OF j])
  qed
  have "?K \<subseteq> set (base_fee_eligibility m)"
  proof (rule image_subsetI)
    fix i assume "i \<in> set ?ns"
    from find_Some(3) [OF p(1) fi [OF this]] show "(max_fee_per_gas (sim_tx (of_nat i)), sim_addr, of_nat i) \<in> set (base_fee_eligibility m)" .
  qed
  then have "card (set (base_fee_eligibility m')) = card (set (base_fee_eligibility m)) - 5"
    using apply_block_keys(1) [OF p(1) m'(1)] K card_image [OF inj] by (simp add: card_Diff_subset)
  then have len: "length (base_fee_eligibility m') = keys - 5"
    using p(1,3) m'(2) by (simp add: wf_mempool_def distinct_card)
  obtain c where c: "account_base m sim_addr = Some c" "unat c \<le> 10 * k"
    using assms(1,3) by (auto simp: sim_pool_def split: option.splits)
  then obtain c' where c': "account_base m' sim_addr = Some c'" "unat c' = 10 * k + 5"
    using apply_block_keys(2) [OF p(1) m'(1), of sim_addr] past_sim_nonces [of ?ns c] assms(5)
    by (auto simp: inc fold_max_upt)
  have "\<forall>(f, a, n) \<in> set (base_fee_eligibility m'). unat n < 10 * k + 10"
    using apply_block_keys(1) [OF p(1) m'(1)] p(4) assms(4) by fastforce
  moreover have "k mod 5 < 5" by simp
  ultimately have "sim_pool (10 * k + 10) (10 * k + 5) hi (10 * k + 10) (keys - 5) m'"
    using m'(2,4) p(2) base find' len c' unfolding sim_pool_def by auto
  then show ?thesis using m'(1,3) base by blast
qed

subsection \<open>Rounds\<close>

text \<open>The pool after \<open>k\<close> full rounds.\<close>

definition sim_keys :: "nat \<Rightarrow> nat" where
  "sim_keys k = min (5 * k) 995"

definition sim_low :: "nat \<Rightarrow> nat" where
  "sim_low k = (if k < 200 then 10 * k - 5 else 10 * k)"

abbreviation sim_pool_after :: "nat \<Rightarrow> mempool \<Rightarrow> bool" where
  "sim_pool_after k \<equiv> sim_pool (10 * k) (sim_low k) (10 * k) (10 * k) (sim_keys k)"

lemma round_step:
  assumes "sim_pool_after k m" and "10 * k + 10 < 2 ^ 64 - 1"
  shows "\<exists>m'. tracker_run oc (round_events k) m = Some m' \<and> unat (current_base_fee m') = 10 + k mod 5 \<and> index_exact oc m' \<and>
    sim_pool_after (Suc k) m'"
proof -
  let ?n = "10 * k"
  have low: "sim_low k \<le> ?n" "sim_keys k + 5 \<le> 1000" by (auto simp: sim_low_def sim_keys_def)
  have five: "?n + 5 \<le> ?n + 10" "?n + 5 < 2 ^ 64 - 1" using assms(2) by simp_all
  from announce_room [OF assms(1) low(1) order_refl this low(2), of oc] obtain m1 where
    m1: "tracker_run oc (map announce [?n..<?n + 5]) m = Some m1"
    "sim_pool ?n (sim_low k) (?n + 5) (?n + 5) (sim_keys k + 5) m1"
    and "\<exists>f. unat f = 1 + (?n + 5 - 1) mod 5 \<and> (Reverse f, sim_addr, of_nat (?n + 5 - 1)) \<in> set (prio_index m1)"
    by auto
  then obtain f where fm: "unat f = 1 + (?n + 5 - 1) mod 5" "(Reverse f, sim_addr, of_nat (?n + 5 - 1)) \<in> set (prio_index m1)"
    by blast
  have "(?n + 5 - 1) mod 5 = (4 + 2 * k * 5) mod 5" by (rule arg_cong) simp
  also have "\<dots> = 4" by (simp only: mod_mult_self1) simp
  finally have "(?n + 5 - 1) mod 5 = 4" .
  then have f: "5 \<le> unat f" using fm(1) by simp
  have "[?n..<?n + 10] = [?n..<?n + 5] @ [?n + 5..<?n + 10]"
    using upt_add_eq_append [of ?n "?n + 5" 5] by (simp only: le_add1 add.assoc numeral_plus_numeral add_num_simps)
  then have run: "tracker_run oc (round_events k) m = tracker_run oc (map announce [?n + 5..<?n + 10]) m1 \<bind> apply_block oc (round_block k)"
    using m1(1) by (simp only: round_events_def tracker_run_one tracker_run_append map_append bind.bind_lunit) (simp add: fun_eq_iff split: bind_split)
  show ?thesis
  proof (cases "k < 199")
    case True
    obtain m2 where m2: "tracker_run oc (map announce [?n + 5..<?n + 5 + 5]) m1 = Some m2"
      "sim_pool ?n (sim_low k) (?n + 5 + 5) (?n + 5 + 5) (sim_keys k + 5 + 5) m2"
      using announce_room [OF m1(2), of 5 oc] low assms(2) True by (auto simp: sim_keys_def)
    obtain m3 where m3: "apply_block oc (round_block k) m2 = Some m3" "unat (current_base_fee m3) = 10 + k mod 5" "index_exact oc m3"
      "sim_pool (?n + 10) (?n + 5) (?n + 10) (?n + 10) (sim_keys k + 10 - 5) m3"
      using sim_block_step [of k "sim_low k" "?n + 10" "sim_keys k + 10" m2 oc] m2(2) low(1) assms(2) by (auto simp: ac_simps)
    have "sim_keys (Suc k) = sim_keys k + 10 - 5" "sim_low (Suc k) = ?n + 5" "10 * Suc k = ?n + 10"
      using True by (simp_all add: sim_keys_def sim_low_def)
    then have "sim_pool_after (Suc k) m3" using m3(4) by (simp only:)
    moreover have "tracker_run oc (map announce [?n + 5..<?n + 10]) m1 = Some m2"
      using m2(1) by (simp only: add.assoc numeral_plus_numeral add_num_simps)
    ultimately show ?thesis using run m3(1-3) by auto
  next
    case False
    then have full: "sim_keys k + 5 = 1000" by (simp add: sim_keys_def)
    have m2: "tracker_run oc (map announce [?n + 5..<?n + 10]) m1 = Some m1"
      using announce_full [OF _ fm(2) f] m1(2) full by simp
    obtain m3 where m3: "apply_block oc (round_block k) m1 = Some m3" "unat (current_base_fee m3) = 10 + k mod 5" "index_exact oc m3"
      "sim_pool (?n + 10) (?n + 5) (?n + 5) (?n + 10) (sim_keys k + 5 - 5) m3"
      using sim_block_step [of k "sim_low k" "?n + 5" "sim_keys k + 5" m1 oc] m1(2) low(1) assms(2) by auto
    have "sim_keys (Suc k) = sim_keys k" "sim_low (Suc k) = ?n + 10" "10 * Suc k = ?n + 10"
      using False by (simp_all add: sim_keys_def sim_low_def)
    moreover have "sim_pool (?n + 10) (?n + 10) (?n + 10) (?n + 10) (sim_keys k) m3"
      using m3(4) by (auto simp: sim_pool_def split: option.splits)
    ultimately have "sim_pool_after (Suc k) m3" by (simp only:)
    then show ?thesis using run m2(1) m3(1-3) by auto
  qed
qed

lemma rounds_run:
  assumes "sim_pool_after k m" and "10 * (k + j) < 2 ^ 64 - 1"
  shows "\<exists>m'. tracker_run oc (concat (map round_events [k..<k + j])) m = Some m' \<and> sim_pool_after (k + j) m' \<and>
    (0 < j \<longrightarrow> unat (current_base_fee m') = 10 + (k + j - 1) mod 5 \<and> index_exact oc m')"
  using assms
proof (induction j)
  case (Suc j)
  then obtain m1 where m1: "tracker_run oc (concat (map round_events [k..<k + j])) m = Some m1" "sim_pool_after (k + j) m1" by auto
  from round_step [OF m1(2), of oc] Suc.prems(2) obtain m2 where
    "tracker_run oc (round_events (k + j)) m1 = Some m2" "unat (current_base_fee m2) = 10 + (k + j) mod 5" "index_exact oc m2"
    "sim_pool_after (Suc (k + j)) m2" by auto
  then show ?case using m1(1) by (simp add: tracker_run_def fold_opt_append)
qed (simp add: tracker_run_def)

text \<open>All pending transactions of the simulation are marketable.\<close>

lemma sim_can_pay:
  assumes "10 \<le> unat (current_base_fee m)" and "unat (current_base_fee m) \<le> 14"
  shows "can_pay m (sim_tx n)"
proof -
  have "unat (max_fee_per_gas (sim_tx n)) = 15 + unat n mod 10"
    using sim_fees(1) by simp
  then have "current_base_fee m \<le> max_fee_per_gas (sim_tx n)" using assms(2) by (simp add: word_le_nat_alt)
  then show ?thesis using sim_fee [OF assms, of n] by (simp add: can_pay_def word_less_nat_alt)
qed

lemma sim_marketable:
  assumes "sim_pool w lo hi bound keys m" and "index_exact oc m" and "lo < hi \<Longrightarrow> lo + 5 \<le> w"
  shows "(f, a, n) \<in> set (priority_queue_view m) \<longleftrightarrow> a = sim_addr \<and> lo \<le> unat n \<and> unat n < hi \<and> unat f = 1 + unat n mod 5"
proof -
  have p: "wf_mempool m" "10 \<le> unat (current_base_fee m)" "unat (current_base_fee m) \<le> 14"
    using assms(1) by (simp_all add: sim_pool_def)
  have find: "find_tx_by_addr_and_nonce m a j = (if a = sim_addr \<and> lo \<le> unat j \<and> unat j < hi then Some (sim_tx j) else None)" for a j
    using assms(1) by (simp add: sim_pool_def)
  have market: "classify_transaction oc m (sim_tx n) = Some Marketable" if n: "lo \<le> unat n" "unat n < hi"
  proof -
    have f: "find_tx_by_addr_and_nonce m sim_addr n = Some (sim_tx n)" using find n by simp
    then obtain q where q: "map_of (account_queues m) sim_addr = Some q" "queue_find q n = Some (sim_tx n)"
      by (auto simp: find_tx_by_addr_and_nonce_def split: option.splits)
    have le: "confirmed_nonce q \<le> n" using queue_find_Some(3) [OF wf_queue [OF p(1) q(1)] q(2)] .
    have "lo \<le> unat (confirmed_nonce q)" using assms(1,3) n q(1) by (simp add: sim_pool_def account_base_def)
    then have "pays_at m sim_addr j" if "confirmed_nonce q \<le> j" "j < n" for j
      using that n find [of sim_addr j] sim_can_pay [OF p(2,3), of j]
      by (simp add: pays_at_def word_le_nat_alt word_less_nat_alt)
    then have "\<not> blocked_below m (slots q) (unat n - unat (confirmed_nonce q))"
      unfolding blocked_below_pays [OF p(1) q(1) le] by blast
    then show ?thesis using classify_marketable [OF p(1) f q(1), of oc] sim_can_pay [OF p(2,3)] by simp
  qed
  have "(f, a, n) \<in> set (priority_queue_view m) \<longleftrightarrow> (Reverse f, a, n) \<in> set (prio_index m)"
    by (force simp: priority_queue_view_def)
  also have "\<dots> \<longleftrightarrow> a = sim_addr \<and> lo \<le> unat n \<and> unat n < hi \<and> f = effective_priority_fee m (sim_tx n)"
    using assms(2) find [of a n] market by (auto simp: index_exact_def)
  also have "f = effective_priority_fee m (sim_tx n) \<longleftrightarrow> unat f = 1 + unat n mod 5"
    using sim_fee [OF p(2,3), of n] by (simp add: word_unat_eq_iff)
  finally show ?thesis .
qed

subsection \<open>Properties\<close>

text \<open>
  C39: The simulation end to end: after any number of undisturbed rounds, in every build, the
  tracker's state is known exactly. Before the 200th round the pool holds the five
  transactions that the last block left over, and from then on nothing: each block jumps
  over five pending transactions, whose keys stay in the fee index, and after 199 rounds the
  995 stale keys leave room for five announcements per round, the ones the block includes.
  The priority index holds exactly the pending transactions, with their tips.
\<close>
theorem simulated_pool_fills_up:
  assumes "\<forall>r \<in> set rounds. full_round r" and "rounds \<noteq> []" and "10 * length rounds < 2 ^ 64 - 1"
  shows "\<exists>st m. simulate_blockchain oc rounds sim_new = Some st \<and>
    tracker_run oc (sim_sent st) (empty_pool cli_config) = Some m \<and>
    (\<forall>a n. find_tx_by_addr_and_nonce m a n =
       (if a = repeat_byte 20 1 \<and> 10 * length rounds \<le> unat n + 5 \<and> unat n < 10 * length rounds \<and> length rounds < 200
        then Some (sim_tx n) else None)) \<and>
    (\<forall>f a n. (f, a, n) \<in> set (priority_queue_view m) \<longleftrightarrow>
       find_tx_by_addr_and_nonce m a n = Some (sim_tx n) \<and> unat f = 1 + unat n mod 5) \<and>
    length (base_fee_eligibility m) = min (5 * length rounds) 995 \<and>
    unat (current_base_fee m) = 10 + (length rounds - 1) mod 5"
proof -
  let ?k = "length rounds"
  obtain st where st: "simulate_blockchain oc rounds sim_new = Some st" "sim_sent st = concat (map round_events [0..<?k])"
    using simulate_full [of rounds 0 sim_new oc] assms(1,3) by (auto simp: sim_new_def)
  have "sim_pool_after 0 (empty_pool cli_config)"
    using wf_empty_pool [of cli_config]
    by (simp add: sim_pool_def empty_pool_def account_base_def find_tx_by_addr_and_nonce_def sim_keys_def sim_low_def)
      (simp add: cli_config_def)
  from rounds_run [OF this, of ?k oc] assms(2,3) obtain m where
    m: "tracker_run oc (concat (map round_events [0..<?k])) (empty_pool cli_config) = Some m" "sim_pool_after ?k m"
    "unat (current_base_fee m) = 10 + (?k - 1) mod 5" "index_exact oc m" by auto
  have low: "sim_low ?k \<le> n \<and> n < 10 * ?k \<longleftrightarrow> 10 * ?k \<le> n + 5 \<and> n < 10 * ?k \<and> ?k < 200" for n
    by (auto simp: sim_low_def)
  have find: "find_tx_by_addr_and_nonce m a n =
      (if a = sim_addr \<and> 10 * ?k \<le> unat n + 5 \<and> unat n < 10 * ?k \<and> ?k < 200 then Some (sim_tx n) else None)" for a n
    using m(2) low [of "unat n"] by (simp add: sim_pool_def)
  have "sim_low ?k < 10 * ?k \<Longrightarrow> sim_low ?k + 5 \<le> 10 * ?k" using assms(2) by (cases rounds) (auto simp: sim_low_def split: if_splits)
  from sim_marketable [OF m(2,4) this] have
    "(f, a, n) \<in> set (priority_queue_view m) \<longleftrightarrow> find_tx_by_addr_and_nonce m a n = Some (sim_tx n) \<and> unat f = 1 + unat n mod 5" for f a n
    using low [of "unat n"] find [of a n] by auto
  moreover have "length (base_fee_eligibility m) = min (5 * ?k) 995" using m(2) by (simp add: sim_pool_def sim_keys_def)
  ultimately show ?thesis using st m(1,3) find by (intro exI [of _ st] exI [of _ m]) simp
qed

theorem simulated_pool_fills_up_witness:
  "\<exists>st m. simulate_blockchain True (replicate 200 ex_round) sim_new = Some st \<and>
    tracker_run True (sim_sent st) (empty_pool cli_config) = Some m \<and>
    find_tx_by_addr_and_nonce m (repeat_byte 20 1) 1999 = None \<and> priority_queue_view m = [] \<and>
    length (base_fee_eligibility m) = 995"
proof -
  have "\<forall>r \<in> set (replicate 200 ex_round). full_round r" by (simp add: full_round_def ex_round_def)
  moreover have "replicate 200 ex_round \<noteq> []" "10 * length (replicate 200 ex_round) < 2 ^ 64 - 1" by simp_all
  ultimately obtain st m where
    "simulate_blockchain True (replicate 200 ex_round) sim_new = Some st"
    "tracker_run True (sim_sent st) (empty_pool cli_config) = Some m"
    and f: "\<And>a n. find_tx_by_addr_and_nonce m a n = None"
    and q: "\<And>f a n. (f, a, n) \<in> set (priority_queue_view m) \<longleftrightarrow>
       find_tx_by_addr_and_nonce m a n = Some (sim_tx n) \<and> unat f = 1 + unat n mod 5"
    and "length (base_fee_eligibility m) = 995"
    using simulated_pool_fills_up [of "replicate 200 ex_round" True] by auto
  moreover have "priority_queue_view m = []" using q f by (cases "priority_queue_view m") auto
  ultimately show ?thesis by blast
qed

end
