(* ===== verification/Cli_Layout.thy ===== *)
theory Cli_Layout
  imports Cli_App
begin

text \<open>
  The frame that \<open>render\<close> of crates/mempooloracle/examples/cli_tool.rs draws: which widget with
  which texts goes to which area, and the rows the key bindings scroll by. The layout solver
  of ratatui and the formatting of a float with one digit are parameters; colours are left out.
\<close>

subsection \<open>Areas and widgets\<close>

type_synonym u16 = "16 word"

datatype direction = Horizontal | Vertical

datatype layout_constraint = LengthOf u16 | MinOf u16 | PercentageOf u16

record rect =
  rect_x :: u16
  rect_y :: u16
  rect_width :: u16
  rect_height :: u16

type_synonym layout = "direction \<Rightarrow> layout_constraint list \<Rightarrow> rect \<Rightarrow> rect list"

text \<open>The solver returns one area for each constraint.\<close>

definition layout_total :: "layout \<Rightarrow> bool" where
  "layout_total split \<longleftrightarrow> (\<forall>d cs area. length (split d cs area) = length cs)"

datatype widget =
    Paragraph string "string list list"
  | Gauge string u16 string
  | BarChart string "(string \<times> u64) list"
  | ListWidget string "string list"

type_synonym frame = "(rect \<times> widget) list"

definition area_at :: "rect list \<Rightarrow> nat \<Rightarrow> rect option" where
  "area_at areas i = (if i < length areas then Some (areas ! i) else None)"

definition outer_areas :: "layout \<Rightarrow> rect \<Rightarrow> rect list" where
  "outer_areas split area = split Vertical [LengthOf 3, LengthOf 8, MinOf 12, LengthOf 3] area"

definition gauge_areas :: "layout \<Rightarrow> rect \<Rightarrow> rect list" where
  "gauge_areas split area = split Horizontal [PercentageOf 34, PercentageOf 33, PercentageOf 33] area"

definition body_areas :: "layout \<Rightarrow> rect \<Rightarrow> rect list" where
  "body_areas split area = split Horizontal [PercentageOf 30, PercentageOf 25, PercentageOf 45] area"

subsection \<open>Rendering\<close>

definition render_header :: "rect \<Rightarrow> app \<Rightarrow> frame option" where
  "render_header area a = do { texts \<leftarrow> header_texts a; Some [(area, Paragraph ''Overview'' [texts])] }"

definition render_gauges :: "layout \<Rightarrow> (f64 \<Rightarrow> string) \<Rightarrow> rect \<Rightarrow> app \<Rightarrow> frame option" where
  "render_gauges split show_f64 area a = do {
     s \<leftarrow> latest a;
     (flow, fill, depth) \<leftarrow> gauge_percents a;
     let chunks = gauge_areas split area;
     c0 \<leftarrow> area_at chunks 0;
     c1 \<leftarrow> area_at chunks 1;
     c2 \<leftarrow> area_at chunks 2;
     Some [(c0, Gauge ''Private Flow'' flow (show_f64 (private_flow s) @ ''%'')),
       (c1, Gauge ''Next Block Fill'' fill (show_word (next_block_fill_percent s) @ ''%'')),
       (c2, Gauge ''Marketable Set'' depth (show_word (marketable_count s) @ '' tracked''))]
   }"

definition render_metrics :: "rect \<Rightarrow> app \<Rightarrow> frame option" where
  "render_metrics area a = do {
     ls \<leftarrow> metric_lines a;
     Some [(area, Paragraph ''Live Metrics'' (map (\<lambda>(name, v). [name, v]) ls))]
   }"

definition render_base_fee_chart :: "rect \<Rightarrow> app \<Rightarrow> frame" where
  "render_base_fee_chart area a = [(area, BarChart ''Recent Base Fee'' (base_fee_bars a))]"

definition render_body :: "bool \<Rightarrow> layout \<Rightarrow> rect \<Rightarrow> app \<Rightarrow> (frame \<times> app) option" where
  "render_body oc split area a = do {
     let columns = body_areas split area;
     c0 \<leftarrow> area_at columns 0;
     metrics \<leftarrow> render_metrics c0 a;
     c1 \<leftarrow> area_at columns 1;
     let chart = render_base_fee_chart c1 a;
     c2 \<leftarrow> area_at columns 2;
     (title, items, a) \<leftarrow> render_top_transactions oc (rect_height c2) a;
     Some (metrics @ chart @ [(c2, ListWidget title items)], a)
   }"

definition render_footer :: "rect \<Rightarrow> app \<Rightarrow> frame" where
  "render_footer area a = [(area, Paragraph ''Controls'' [[footer_text a]])]"

definition render_frame :: "bool \<Rightarrow> layout \<Rightarrow> (f64 \<Rightarrow> string) \<Rightarrow> rect \<Rightarrow> app \<Rightarrow> (frame \<times> app) option" where
  "render_frame oc split show_f64 area a = do {
     let outer = outer_areas split area;
     o0 \<leftarrow> area_at outer 0;
     head \<leftarrow> render_header o0 a;
     o1 \<leftarrow> area_at outer 1;
     gauges \<leftarrow> render_gauges split show_f64 o1 a;
     o2 \<leftarrow> area_at outer 2;
     (body, a) \<leftarrow> render_body oc split o2 a;
     o3 \<leftarrow> area_at outer 3;
     Some (head @ gauges @ body @ render_footer o3 a, a)
   }"

text \<open>The area of the list, and the rows that a key on a terminal of this size scrolls by.\<close>

definition list_area :: "layout \<Rightarrow> rect \<Rightarrow> rect option" where
  "list_area split area = do { o2 \<leftarrow> area_at (outer_areas split area) 2; area_at (body_areas split o2) 2 }"

definition transaction_pane_rows :: "layout \<Rightarrow> rect \<Rightarrow> u64 option" where
  "transaction_pane_rows split area = map_option (\<lambda>c. pane_rows (rect_height c)) (list_area split area)"

subsection \<open>The frame and the scroll position\<close>

definition fits :: "u64 \<Rightarrow> app \<Rightarrow> bool" where
  "fits rows a \<longleftrightarrow> (\<forall>m. max_scroll a rows = Some m \<longrightarrow> tx_scroll a \<le> m)"

lemma max_scroll_scroll [simp]: "max_scroll (a\<lparr>tx_scroll := t\<rparr>) rows = max_scroll a rows"
  by (simp add: max_scroll_def latest_def)

lemma max_scroll_rows: "latest a = Some s \<Longrightarrow> max_scroll a (transaction_rows s h) = max_scroll a (pane_rows h)"
proof -
  have "saturating_sub 0 w = (0 :: u64)" for w by (auto simp: saturating_sub_def word_gt_0)
  then show "latest a = Some s \<Longrightarrow> ?thesis" by (simp add: max_scroll_def transaction_rows_def)
qed

lemma clamp_scroll_fits: "clamp_scroll rows a = Some a' \<Longrightarrow> fits rows a' \<and> (\<exists>t. a' = a\<lparr>tx_scroll := t\<rparr>)"
  by (auto simp: clamp_scroll_def fits_def bind_eq_Some_conv)

lemma fits_clamp_scroll: "fits rows a \<Longrightarrow> latest a = Some s \<Longrightarrow> clamp_scroll rows a = Some a"
  by (auto simp: clamp_scroll_def fits_def max_scroll_def min_def bind_eq_Some_conv)

lemma handle_key_fits:
  assumes "handle_key oc rows code a = Some a'" and "fits rows a"
  shows "fits rows a' \<and> (\<exists>t. a' = a\<lparr>tx_scroll := t\<rparr>)"
proof -
  have "fits rows (scroll_up n a)" for n
    using assms(2) saturating_sub_le [of "tx_scroll a" n] by (force simp: fits_def scroll_up_def intro: order.trans)
  moreover have "scroll_down oc n rows a = Some a' \<Longrightarrow> fits rows a' \<and> (\<exists>t. a' = a\<lparr>tx_scroll := t\<rparr>)" for n
    by (auto simp: scroll_down_def fits_def bind_eq_Some_conv)
  moreover have "\<exists>t. a = a\<lparr>tx_scroll := t\<rparr>" by (rule exI [of _ "tx_scroll a"]) simp
  ultimately show ?thesis
    using assms by (auto simp: handle_key_def scroll_up_def split: if_splits)
qed

lemma layout_areas:
  assumes "layout_total split"
  shows "i < 4 \<Longrightarrow> area_at (outer_areas split area) i = Some (outer_areas split area ! i)"
    and "i < 3 \<Longrightarrow> area_at (gauge_areas split area) i = Some (gauge_areas split area ! i)"
    and "i < 3 \<Longrightarrow> area_at (body_areas split area) i = Some (body_areas split area ! i)"
  using assms by (simp_all add: layout_total_def outer_areas_def gauge_areas_def body_areas_def area_at_def)

lemma list_area_total: "layout_total split \<Longrightarrow> list_area split area = Some (body_areas split (outer_areas split area ! 2) ! 2)"
  by (simp add: list_area_def layout_areas)

text \<open>Drawing succeeds, and its effect on the view is that of \<open>render\<close> for the height of the list's area.\<close>

lemma render_frame_ok:
  assumes "layout_total split" and "list_area split area = Some pane" and "app_ok a" and "snapshots a \<noteq> []"
  shows "\<exists>ws title items a'. render_frame oc split show_f64 area a = Some (ws, a') \<and>
    render_top_transactions oc (rect_height pane) a = Some (title, items, a') \<and>
    render oc (rect_height pane) a = Some a' \<and> (pane, ListWidget title items) \<in> set ws \<and>
    (\<forall>c t p label. (c, Gauge t p label) \<in> set ws \<longrightarrow> p \<le> 100)"
proof -
  have pane: "pane = body_areas split (outer_areas split area ! 2) ! 2" using assms(1,2) by (simp add: list_area_total)
  obtain title items a' where top: "render_top_transactions oc (rect_height pane) a = Some (title, items, a')"
    "render oc (rect_height pane) a = Some a'"
    using render_ok [OF assms(3,4), of oc "rect_height pane"] by (auto simp: render_def bind_eq_Some_conv)
  have le: "(ucast (min w 100 :: u64) :: u16) \<le> 100" for w
  proof -
    have "unat (min w 100) \<le> 100" by (simp add: min_def word_le_nat_alt)
    then show ?thesis by (simp add: word_le_nat_alt unsigned_ucast_eq take_bit_nat_eq_self)
  qed
  show ?thesis
    using top assms(4)
    by (auto simp: render_frame_def render_header_def render_gauges_def render_body_def render_metrics_def
        render_base_fee_chart_def render_footer_def header_texts_def gauge_percents_def metric_lines_def latest_def
        layout_areas [OF assms(1)] Let_def pane le)
qed

subsection \<open>Properties\<close>


text \<open>A solver that stacks areas of equal size.\<close>

definition ex_split :: layout where
  "ex_split d cs area = map (\<lambda>_. area) cs"


end
