(* ===== verification/Cli_Main.thy ===== *)
theory Cli_Main
  imports Cli_Sim
begin

text \<open>
  The threads of \<open>main\<close> in crates/mempooloracle/examples/cli_tool.rs for the simulated source: the
  simulation, the tracker and the program itself, with the stop flag and the channel
  between them, as a step relation. Leaving the display sets the flag and joins the two
  threads; the theorem says that this always ends and that no event is lost on the way.
\<close>

subsection \<open>The telemetry the display reads\<close>

text \<open>A live source is read counter by counter, the simulated one under its lock.\<close>

datatype telemetry_source = LiveTelemetry "nat \<Rightarrow> telemetry" | SimulatedTelemetry telemetry_view

fun telemetry_snapshot :: "telemetry_source \<Rightarrow> telemetry_view" where
  "telemetry_snapshot (LiveTelemetry t) = view_of_telemetry (snapshot_loads t)"
| "telemetry_snapshot (SimulatedTelemetry v) =
     \<lparr>view_pending = view_pending v, view_blocks = view_blocks v, view_block_txs = view_block_txs v,
      view_block_gas = view_block_gas v\<rparr>"

subsection \<open>Threads\<close>

text \<open>
  Where the simulation is: at the head of its loop, before the \<open>i\<close>-th transaction of a round, in
  the wait, before the block, or returned (its sender of events is dropped then).
\<close>

datatype sim_pc = SimTop | SimTx nat | SimWait | SimBlock | SimDone

datatype tool_pc = MainRunning | JoinSim | JoinTracker | MainExited

record cli_threads =
  stop_flag :: bool
  sim_pc :: sim_pc
  sim_vars :: sim
  channel :: "mempool_event list"
  pool :: mempool
  tracker_running :: bool
  main_at :: tool_pc

definition cli_start :: cli_threads where
  "cli_start = \<lparr>stop_flag = False, sim_pc = SimTop, sim_vars = sim_new, channel = [], pool = empty_pool cli_config,
     tracker_running = True, main_at = MainRunning\<rparr>"

text \<open>
  The simulation's next step. Sending fails once the tracker's thread has ended. A panic ends
  the thread; the counters can overflow only after the transaction was sent.
\<close>

definition send_tx :: "bool \<Rightarrow> nat \<Rightarrow> cli_threads \<Rightarrow> cli_threads" where
  "send_tx oc i s =
     (let ev = PendingTransaction (sim_tx (sim_nonce (sim_vars s))) in
      case sim_txs oc [(stop_flag s, tracker_running s)] (sim_vars s) of
        None \<Rightarrow> s\<lparr>sim_pc := SimDone, sim_vars := (sim_vars s)\<lparr>sim_sent := sim_sent (sim_vars s) @ [ev]\<rparr>,
          channel := channel s @ [ev]\<rparr>
      | Some (going, v) \<Rightarrow>
          if \<not> going then s\<lparr>sim_pc := SimDone\<rparr>
          else s\<lparr>sim_pc := (if i < 9 then SimTx (Suc i) else SimWait), sim_vars := v, channel := channel s @ [ev]\<rparr>)"

definition send_block :: "bool \<Rightarrow> cli_threads \<Rightarrow> cli_threads" where
  "send_block oc s =
     (case sim_block oc (sim_vars s) of
        None \<Rightarrow> s\<lparr>sim_pc := SimDone\<rparr>
      | Some (b, v) \<Rightarrow>
          if \<not> tracker_running s then s\<lparr>sim_pc := SimDone, sim_vars := v\<rparr>
          else (let s = s\<lparr>channel := channel s @ [NewBlock b]\<rparr>; v = v\<lparr>sim_sent := sim_sent v @ [NewBlock b]\<rparr> in
                case rust_add oc (sim_block_number v) 1 of
                  None \<Rightarrow> s\<lparr>sim_pc := SimDone, sim_vars := v\<rparr>
                | Some n \<Rightarrow> s\<lparr>sim_pc := SimTop, sim_vars := v\<lparr>sim_block_number := n\<rparr>\<rparr>))"

fun sim_thread :: "bool \<Rightarrow> bool \<Rightarrow> sim_pc \<Rightarrow> cli_threads \<Rightarrow> cli_threads" where
  "sim_thread oc elapsed SimTop s = s\<lparr>sim_pc := (if stop_flag s then SimDone else SimTx 0)\<rparr>"
| "sim_thread oc elapsed (SimTx i) s = send_tx oc i s"
| "sim_thread oc elapsed SimWait s =
     s\<lparr>sim_pc := (if stop_flag s then SimDone else if elapsed then SimBlock else SimWait)\<rparr>"
| "sim_thread oc elapsed SimBlock s = send_block oc s"
| "sim_thread oc elapsed SimDone s = s"

inductive cli_step :: "bool \<Rightarrow> cli_threads \<Rightarrow> cli_threads \<Rightarrow> bool" for oc where
  simulates: "sim_pc s \<noteq> SimDone \<Longrightarrow> cli_step oc s (sim_thread oc elapsed (sim_pc s) s)"
| handles: "tracker_running s \<Longrightarrow> channel s = ev # rest \<Longrightarrow> handle_event oc ev (pool s) = Some m \<Longrightarrow>
    cli_step oc s (s\<lparr>channel := rest, pool := m\<rparr>)"
| panics: "tracker_running s \<Longrightarrow> channel s = ev # rest \<Longrightarrow> handle_event oc ev (pool s) = None \<Longrightarrow>
    cli_step oc s (s\<lparr>channel := rest, tracker_running := False\<rparr>)"
| disconnected: "tracker_running s \<Longrightarrow> channel s = [] \<Longrightarrow> sim_pc s = SimDone \<Longrightarrow> cli_step oc s (s\<lparr>tracker_running := False\<rparr>)"
| returns: "main_at s = MainRunning \<Longrightarrow> cli_step oc s (s\<lparr>stop_flag := True, main_at := JoinSim\<rparr>)"
| sim_joined: "main_at s = JoinSim \<Longrightarrow> sim_pc s = SimDone \<Longrightarrow> cli_step oc s (s\<lparr>main_at := JoinTracker\<rparr>)"
| tracker_joined: "main_at s = JoinTracker \<Longrightarrow> \<not> tracker_running s \<Longrightarrow> cli_step oc s (s\<lparr>main_at := MainExited\<rparr>)"

inductive_cases cli_stepE: "cli_step oc s s'"

inductive cli_run :: "bool \<Rightarrow> nat \<Rightarrow> cli_threads \<Rightarrow> bool" for oc where
  start: "cli_run oc 0 cli_start"
| step: "cli_run oc n s \<Longrightarrow> cli_step oc s s' \<Longrightarrow> cli_run oc (Suc n) s'"

subsection \<open>The invariant\<close>

definition vars_ok :: "nat \<Rightarrow> sim_pc \<Rightarrow> sim \<Rightarrow> bool" where
  "vars_ok n pc v \<longleftrightarrow> sim_safe v \<and>
     (pc \<noteq> SimDone \<longrightarrow> sim_ok v \<and> unat (sim_nonce v) \<le> n \<and> unat (sim_block_number v) \<le> n) \<and>
     (case pc of SimTx i \<Rightarrow> i < 10 \<and> i \<le> unat (sim_nonce v) | SimWait \<Rightarrow> 10 \<le> unat (sim_nonce v)
      | SimBlock \<Rightarrow> 10 \<le> unat (sim_nonce v) | _ \<Rightarrow> True)"

definition fed :: "bool \<Rightarrow> cli_threads \<Rightarrow> bool" where
  "fed oc s \<longleftrightarrow> (\<exists>received. sim_sent (sim_vars s) = received @ channel s \<and>
     tracker_run oc received (empty_pool cli_config) = Some (pool s))"

definition joined_ok :: "cli_threads \<Rightarrow> bool" where
  "joined_ok s \<longleftrightarrow> (\<not> tracker_running s \<longrightarrow> sim_pc s = SimDone \<and> channel s = []) \<and>
     (main_at s \<noteq> MainRunning \<longrightarrow> stop_flag s) \<and> (main_at s \<in> {JoinTracker, MainExited} \<longrightarrow> sim_pc s = SimDone) \<and>
     (main_at s = MainExited \<longrightarrow> \<not> tracker_running s)"

definition cli_ok :: "bool \<Rightarrow> nat \<Rightarrow> cli_threads \<Rightarrow> bool" where
  "cli_ok oc n s \<longleftrightarrow> vars_ok n (sim_pc s) (sim_vars s) \<and> fed oc s \<and> joined_ok s"

lemma send_tx_ok:
  assumes "cli_ok oc n s" and "sim_pc s = SimTx i" and "n < 2 ^ 63"
  shows "cli_ok oc (Suc n) (send_tx oc i s)"
proof -
  let ?v = "sim_vars s"
  have v: "sim_ok ?v" "unat (sim_nonce ?v) \<le> n" "unat (sim_block_number ?v) \<le> n" "i < 10" "i \<le> unat (sim_nonce ?v)"
    using assms(1,2) by (simp_all add: cli_ok_def vars_ok_def)
  have run: "tracker_running s" "fed oc s" "joined_ok s" using assms(1,2) by (auto simp: cli_ok_def joined_ok_def)
  show ?thesis
  proof (cases "stop_flag s")
    case True
    then show ?thesis using assms(1,2) by (auto simp: send_tx_def cli_ok_def vars_ok_def fed_def joined_ok_def)
  next
    case False
    have n: "unat (sim_nonce ?v) + 1 < 2 ^ 64" using v(2) assms(3) by simp
    let ?v' = "?v\<lparr>sim_sent := sim_sent ?v @ [PendingTransaction (sim_tx (sim_nonce ?v))],
        sim_telemetry := (sim_telemetry ?v)\<lparr>view_pending := sim_nonce ?v + 1\<rparr>, sim_nonce := sim_nonce ?v + 1\<rparr>"
    have st: "sim_txs oc [(stop_flag s, tracker_running s)] ?v = Some (True, ?v')"
      using False run(1) v(1) n by (simp add: sim_ok_def rust_add_ok)
    then have ok: "sim_ok ?v'" using sim_txs_ok [OF v(1), of "[(stop_flag s, tracker_running s)]" oc] v(2) assms(3) by auto
    have "unat (sim_nonce ?v') = Suc (unat (sim_nonce ?v))" using n by (simp add: unat_add_ok)
    then have "vars_ok (Suc n) (if i < 9 then SimTx (Suc i) else SimWait) ?v'"
      using ok sim_ok_safe [OF ok] v(2-5) by (simp add: vars_ok_def)
    then show ?thesis using run st False
      by (auto simp: send_tx_def cli_ok_def fed_def joined_ok_def)
  qed
qed

lemma send_block_ok:
  assumes "cli_ok oc n s" and "sim_pc s = SimBlock" and "n < 2 ^ 63"
  shows "cli_ok oc (Suc n) (send_block oc s)"
proof -
  let ?v = "sim_vars s"
  have v: "sim_ok ?v" "unat (sim_nonce ?v) \<le> n" "unat (sim_block_number ?v) \<le> n" "10 \<le> unat (sim_nonce ?v)"
    using assms(1,2) by (simp_all add: cli_ok_def vars_ok_def)
  have run: "tracker_running s" "fed oc s" "joined_ok s" using assms(1,2) by (auto simp: cli_ok_def joined_ok_def)
  obtain b v' where b: "sim_block oc ?v = Some (b, v')" "block_ok b" "PendingTransaction ` set (included_txs b) \<subseteq> set (sim_sent ?v)"
    "v' = ?v\<lparr>sim_telemetry := sim_telemetry v'\<rparr>" "view_pending (sim_telemetry v') = sim_nonce ?v"
    "view_blocks (sim_telemetry v') = sim_block_number ?v + 1"
    using sim_block_ok [OF v(1,4), of oc] v(2,3) assms(3) by auto
  have same: "sim_sent v' = sim_sent ?v" "sim_nonce v' = sim_nonce ?v" "sim_block_number v' = sim_block_number ?v"
    using b(4) by (metis sim.ext_inject sim.surjective sim.update_convs(3))+
  have n: "unat (sim_block_number ?v) + 1 < 2 ^ 64" using v(3) assms(3) by simp
  let ?v' = "v'\<lparr>sim_sent := sim_sent v' @ [NewBlock b], sim_block_number := sim_block_number ?v + 1\<rparr>"
  have "sim_ok ?v'" using v(1) b(2,3,5,6) same announced_block [of "sim_sent ?v" b] by (auto simp: sim_ok_def)
  then have "vars_ok (Suc n) SimTop ?v'"
    using sim_ok_safe same v(2,3) n by (simp add: vars_ok_def unat_add_ok)
  then show ?thesis using run b(1) n same assms(2)
    by (auto simp: send_block_def cli_ok_def fed_def joined_ok_def rust_add_ok Let_def)
qed

lemma vars_ok_mono: "vars_ok n pc v \<Longrightarrow> n \<le> k \<Longrightarrow> vars_ok k pc v"
  by (auto simp: vars_ok_def)

lemma handled_event:
  assumes "cli_ok oc n s" and "channel s = ev # rest"
  shows "\<exists>m. handle_event oc ev (pool s) = Some m \<and> fed oc (s\<lparr>channel := rest, pool := m\<rparr>)"
proof -
  obtain rec where r: "sim_sent (sim_vars s) = rec @ ev # rest" "tracker_run oc rec (empty_pool cli_config) = Some (pool s)"
    using assms by (auto simp: cli_ok_def fed_def)
  have "\<forall>e \<in> set (rec @ [ev]). event_in_range e" using assms(1) r(1) by (simp add: cli_ok_def vars_ok_def sim_safe_def)
  from tracker_run_ok [OF wf_empty_pool this, of oc cli_config] obtain m where
    "tracker_run oc (rec @ [ev]) (empty_pool cli_config) = Some m" by blast
  moreover from this r(2) have "handle_event oc ev (pool s) = Some m"
    by (auto simp: tracker_run_def fold_opt_append bind_eq_Some_conv)
  ultimately show ?thesis using r(1) by (auto simp: fed_def intro!: exI [of _ "rec @ [ev]"])
qed

lemma cli_step_ok:
  assumes "cli_step oc s s'" and "cli_ok oc n s" and "n < 2 ^ 63"
  shows "cli_ok oc (Suc n) s'"
  using assms(1)
proof cases
  case (simulates elapsed)
  then show ?thesis
    using assms(2,3) send_tx_ok [OF assms(2) _ assms(3)] send_block_ok [OF assms(2) _ assms(3)]
    by (cases "sim_pc s") (auto simp: cli_ok_def vars_ok_def fed_def joined_ok_def sim_ok_safe)
next
  case (handles ev rest m)
  then show ?thesis using handled_event [OF assms(2) handles(3)] assms(2) vars_ok_mono [of n _ _ "Suc n"]
    by (auto simp: cli_ok_def joined_ok_def)
next
  case (panics ev rest)
  then show ?thesis using handled_event [OF assms(2) panics(3)] by simp
qed (use assms(2) vars_ok_mono [of n _ _ "Suc n"] in \<open>auto simp: cli_ok_def joined_ok_def fed_def\<close>)

lemma cli_run_ok: "cli_run oc n s \<Longrightarrow> n \<le> 2 ^ 63 \<Longrightarrow> cli_ok oc n s"
proof (induction rule: cli_run.induct)
  case start
  show ?case
    by (simp add: cli_ok_def cli_start_def vars_ok_def sim_safe_def sim_ok_def sim_new_def announced_def fed_def joined_ok_def tracker_run_def)
next
  case (step n s s')
  then show ?case by (intro cli_step_ok) simp_all
qed

subsection \<open>Shutting down\<close>

fun sim_rank :: "sim_pc \<Rightarrow> nat" where
  "sim_rank SimDone = 0"
| "sim_rank SimBlock = 3"
| "sim_rank _ = 1"

fun main_rank :: "tool_pc \<Rightarrow> nat" where
  "main_rank MainRunning = 3"
| "main_rank JoinSim = 2"
| "main_rank JoinTracker = 1"
| "main_rank MainExited = 0"

definition shutdown_measure :: "cli_threads \<Rightarrow> nat" where
  "shutdown_measure s = main_rank (main_at s) + sim_rank (sim_pc s) + length (channel s) + (if tracker_running s then 1 else 0)"

lemma stop_stays: "cli_step oc s s' \<Longrightarrow> stop_flag s \<Longrightarrow> stop_flag s'"
  by (erule cli_stepE; cases "sim_pc s") (auto simp: send_tx_def send_block_def Let_def split: option.splits if_splits prod.splits)

lemma stopping_decreases:
  assumes "cli_step oc s s'" and "stop_flag s"
  shows "shutdown_measure s' < shutdown_measure s"
  using assms(1)
proof cases
  case (simulates elapsed)
  then show ?thesis using assms(2)
    by (cases "sim_pc s") (auto simp: shutdown_measure_def send_tx_def send_block_def Let_def split: option.splits prod.splits)
qed (use assms(2) in \<open>simp_all add: shutdown_measure_def\<close>)

lemma stopping_can_step:
  assumes "cli_ok oc n s" and "stop_flag s" and "main_at s \<noteq> MainExited"
  shows "\<exists>s'. cli_step oc s s'"
proof (cases "sim_pc s = SimDone")
  case False
  then show ?thesis using cli_step.simulates by blast
next
  case fin: True
  show ?thesis
  proof (cases "tracker_running s")
    case True
    then show ?thesis
      using cli_step.disconnected [OF True _ fin] cli_step.handles [OF True] handled_event [OF assms(1)]
      by (cases "channel s") blast+
  next
    case False
    then show ?thesis
      using fin assms(3) cli_step.returns cli_step.sim_joined cli_step.tracker_joined by (cases "main_at s") blast+
  qed
qed


text \<open>From a stopped state \<open>main\<close> exits, and no schedule can be longer than the measure.\<close>

inductive cli_steps :: "bool \<Rightarrow> nat \<Rightarrow> cli_threads \<Rightarrow> cli_threads \<Rightarrow> bool" for oc where
  no_step: "cli_steps oc 0 s s"
| one_more: "cli_step oc s s' \<Longrightarrow> cli_steps oc k s' s'' \<Longrightarrow> cli_steps oc (Suc k) s s''"

lemma stopping_bounded: "cli_steps oc k s s' \<Longrightarrow> stop_flag s \<Longrightarrow> k + shutdown_measure s' \<le> shutdown_measure s"
proof (induction rule: cli_steps.induct)
  case (one_more s s' k s'')
  then show ?case using stop_stays [OF one_more(1,4)] stopping_decreases [OF one_more(1,4)] by simp
qed simp

lemma stopping_exits:
  "cli_run oc n s \<Longrightarrow> stop_flag s \<Longrightarrow> n + shutdown_measure s < 2 ^ 63 \<Longrightarrow> \<exists>k s'. cli_steps oc k s s' \<and> main_at s' = MainExited"
proof (induction "shutdown_measure s" arbitrary: n s rule: less_induct)
  case less
  show ?case
  proof (cases "main_at s = MainExited")
    case True
    then show ?thesis using cli_steps.no_step by blast
  next
    case False
    have "cli_ok oc n s" using cli_run_ok [OF less.prems(1)] less.prems(3) by simp
    then obtain s1 where s1: "cli_step oc s s1" using stopping_can_step [OF _ less.prems(2) False] by blast
    note dec = stopping_decreases [OF s1 less.prems(2)]
    obtain k s' where "cli_steps oc k s1 s'" "main_at s' = MainExited"
      using less.hyps [OF dec cli_run.step [OF less.prems(1) s1] stop_stays [OF s1 less.prems(2)]] less.prems(3) dec by auto
    then show ?thesis using cli_steps.one_more [OF s1] by blast
  qed
qed

lemma cli_steps_run: "cli_steps oc k s s' \<Longrightarrow> cli_run oc n s \<Longrightarrow> cli_run oc (n + k) s'"
proof (induction arbitrary: n rule: cli_steps.induct)
  case (one_more s s' k s'')
  then show ?case using one_more.IH [OF cli_run.step [OF one_more.prems one_more.hyps(1)]] by simp
qed simp

subsection \<open>Properties\<close>

text \<open>
  C27: The simulated tool shuts down and loses nothing. Whatever the interleaving of the three
  threads, the events the simulation sent are those the tracker handled, in order and
  without a panic, followed by those in the channel. Once the display has returned and the
  stop flag is set, every schedule is at most as long as \<open>shutdown_measure\<close> (the events waiting and a
  few steps of each thread), some schedule leads to the end of \<open>main\<close>, and no state before the
  end is stuck. At the end both threads have been joined and the tracker has handled every
  event sent.
\<close>
theorem main_shuts_down:
  assumes "cli_run oc n s" and "n + shutdown_measure s < 2 ^ 63"
  shows "(\<exists>received. sim_sent (sim_vars s) = received @ channel s \<and>
      tracker_run oc received (empty_pool cli_config) = Some (pool s)) \<and>
    (stop_flag s \<longrightarrow>
      (\<exists>k s'. cli_steps oc k s s' \<and> main_at s' = MainExited) \<and>
      (\<forall>k s'. cli_steps oc k s s' \<longrightarrow> k \<le> shutdown_measure s \<and>
        (if main_at s' = MainExited
         then sim_pc s' = SimDone \<and> \<not> tracker_running s' \<and>
           tracker_run oc (sim_sent (sim_vars s')) (empty_pool cli_config) = Some (pool s')
         else \<exists>s''. cli_step oc s' s'')))"
proof (intro conjI impI allI)
  show "\<exists>received. sim_sent (sim_vars s) = received @ channel s \<and>
      tracker_run oc received (empty_pool cli_config) = Some (pool s)"
    using cli_run_ok [OF assms(1)] assms(2) by (simp add: cli_ok_def fed_def)
next
  assume "stop_flag s"
  then show "\<exists>k s'. cli_steps oc k s s' \<and> main_at s' = MainExited" using stopping_exits [OF assms(1) _ assms(2)] by blast
next
  fix k s'
  assume stopped: "stop_flag s" and steps: "cli_steps oc k s s'"
  have k: "k + shutdown_measure s' \<le> shutdown_measure s" using stopping_bounded [OF steps stopped] .
  then show "k \<le> shutdown_measure s" by simp
  have ok: "cli_ok oc (n + k) s'" using cli_run_ok [OF cli_steps_run [OF steps assms(1)]] k assms(2) by simp
  have "stop_flag s'" using steps stopped by (induction rule: cli_steps.induct) (auto dest: stop_stays)
  then show "if main_at s' = MainExited
      then sim_pc s' = SimDone \<and> \<not> tracker_running s' \<and>
        tracker_run oc (sim_sent (sim_vars s')) (empty_pool cli_config) = Some (pool s')
      else \<exists>s''. cli_step oc s' s''"
    using stopping_can_step [OF ok] ok by (auto simp: cli_ok_def joined_ok_def fed_def)
qed

lemma cli_run_example: "cli_run True 1 (cli_start\<lparr>stop_flag := True, main_at := JoinSim\<rparr>)"
proof -
  have "cli_step True cli_start (cli_start\<lparr>stop_flag := True, main_at := JoinSim\<rparr>)"
    by (rule cli_step.returns) (simp add: cli_start_def)
  from cli_run.step [OF cli_run.start this] show ?thesis by simp
qed

theorem main_shuts_down_witness:
  "\<exists>k s'. cli_steps True k (cli_start\<lparr>stop_flag := True, main_at := JoinSim\<rparr>) s' \<and> main_at s' = MainExited"
  using main_shuts_down [OF cli_run_example] by (simp add: shutdown_measure_def cli_start_def)

end
