(* ===== verification/Handle_Lock.thy ===== *)
theory Handle_Lock
  imports Mempool_Tracker
begin

text \<open>
  The lock around the tracker's state in crates/mempooloracle/src/lib.rs: \<open>run\<close> takes the
  write lock for every event, every method of \<open>MempoolHandle\<close> the read lock, and
  \<open>estimated_blocks_to_confirm\<close> calls \<open>gas_ahead\<close> while it holds one. The standard library
  leaves the priority between readers and writers to the platform; the flag \<open>favour\<close> says
  whether a new reader waits for a waiting writer.
\<close>

subsection \<open>Locking by the operations\<close>

datatype lock_action = AcqRead | RelRead | AcqWrite | RelWrite

datatype handle_call =
    Classification tx_id
  | EstimatedBlocks tx_id
  | GasAhead tx_id
  | IsMarketable tx_id
  | CurrentBaseFee
  | PrivateFlowRatio
  | PriorityQueueView
  | LastBlockGasLimit
  | FindTx addr u64

text \<open>The guards a call takes and drops, in order, on the state \<open>m\<close> it reads.\<close>

fun call_locks :: "mempool \<Rightarrow> handle_call \<Rightarrow> lock_action list" where
  "call_locks m (EstimatedBlocks i) =
     (if find_tx_by_id m i = None then [AcqRead, RelRead] else [AcqRead, AcqRead, RelRead, RelRead])"
| "call_locks m c = [AcqRead, RelRead]"

fun event_locks :: "mempool_event \<Rightarrow> lock_action list" where
  "event_locks (PendingTransaction tx) = [AcqWrite, RelWrite]"
| "event_locks (NewBlock b) = [AcqWrite, RelWrite]"

definition client_prog :: "(mempool \<times> handle_call) list \<Rightarrow> lock_action list" where
  "client_prog calls = concat (map (\<lambda>(m, c). call_locks m c) calls)"

definition tracker_prog :: "mempool_event list \<Rightarrow> lock_action list" where
  "tracker_prog evs = concat (map event_locks evs)"

subsection \<open>The lock\<close>

record locked =
  readers :: "nat list"
  writer :: "nat option"
  queued :: "nat list"
  progs :: "lock_action list list"

definition locked_init :: "lock_action list list \<Rightarrow> locked" where
  "locked_init ps = \<lparr>readers = [], writer = None, queued = [], progs = ps\<rparr>"

definition advance :: "nat \<Rightarrow> locked \<Rightarrow> locked" where
  "advance i s = s\<lparr>progs := (progs s)[i := tl (progs s ! i)]\<rparr>"

definition next_action :: "locked \<Rightarrow> nat \<Rightarrow> lock_action option" where
  "next_action s i = (if i < length (progs s) then (case progs s ! i of [] \<Rightarrow> None | a # _ \<Rightarrow> Some a) else None)"

inductive lock_step :: "bool \<Rightarrow> locked \<Rightarrow> locked \<Rightarrow> bool" for favour where
  acquire_read: "next_action s i = Some AcqRead \<Longrightarrow> writer s = None \<Longrightarrow> \<not> (favour \<and> queued s \<noteq> []) \<Longrightarrow>
    lock_step favour s (advance i (s\<lparr>readers := i # readers s\<rparr>))"
| release_read: "next_action s i = Some RelRead \<Longrightarrow> i \<in> set (readers s) \<Longrightarrow>
    lock_step favour s (advance i (s\<lparr>readers := remove1 i (readers s)\<rparr>))"
| enqueue: "next_action s i = Some AcqWrite \<Longrightarrow> i \<notin> set (queued s) \<Longrightarrow>
    lock_step favour s (s\<lparr>queued := queued s @ [i]\<rparr>)"
| acquire_write: "next_action s i = Some AcqWrite \<Longrightarrow> i \<in> set (queued s) \<Longrightarrow> readers s = [] \<Longrightarrow> writer s = None \<Longrightarrow>
    lock_step favour s (advance i (s\<lparr>writer := Some i, queued := filter (\<lambda>j. j \<noteq> i) (queued s)\<rparr>))"
| release_write: "next_action s i = Some RelWrite \<Longrightarrow> writer s = Some i \<Longrightarrow>
    lock_step favour s (advance i (s\<lparr>writer := None\<rparr>))"

definition all_done :: "locked \<Rightarrow> bool" where
  "all_done s \<longleftrightarrow> (\<forall>p \<in> set (progs s). p = [])"

inductive_cases lock_stepE: "lock_step favour s s'"

abbreviation lock_reach :: "bool \<Rightarrow> locked \<Rightarrow> locked \<Rightarrow> bool" where
  "lock_reach favour \<equiv> (lock_step favour)\<^sup>*\<^sup>*"

subsection \<open>Bracketing\<close>

text \<open>\<open>bracketed k d p\<close>: with \<open>d\<close> read guards held, the rest \<open>p\<close> is well bracketed and never holds more than \<open>k\<close>.\<close>

fun bracketed :: "nat \<Rightarrow> nat \<Rightarrow> lock_action list \<Rightarrow> bool" where
  "bracketed k d [] = (d = 0)"
| "bracketed k d (AcqRead # p) = (d < k \<and> bracketed k (Suc d) p)"
| "bracketed k d (RelRead # p) = (0 < d \<and> bracketed k (d - 1) p)"
| "bracketed k d (AcqWrite # RelWrite # p) = (d = 0 \<and> bracketed k 0 p)"
| "bracketed k d _ = False"

definition thread_ok :: "nat \<Rightarrow> locked \<Rightarrow> nat \<Rightarrow> bool" where
  "thread_ok k s i =
     (if writer s = Some i then (\<exists>p. progs s ! i = RelWrite # p \<and> bracketed k 0 p)
      else bracketed k (count_list (readers s) i) (progs s ! i))"

definition lock_inv :: "nat \<Rightarrow> locked \<Rightarrow> bool" where
  "lock_inv k s \<longleftrightarrow>
     (\<forall>i < length (progs s). thread_ok k s i) \<and> (\<forall>i \<in> set (readers s). i < length (progs s)) \<and>
     (writer s \<noteq> None \<longrightarrow> readers s = []) \<and> (\<forall>i. writer s = Some i \<longrightarrow> i < length (progs s)) \<and>
     (\<forall>i \<in> set (queued s). next_action s i = Some AcqWrite)"

lemma bracketed_append: "bracketed k d p \<Longrightarrow> bracketed k 0 q \<Longrightarrow> bracketed k d (p @ q)"
  by (induction k d p rule: bracketed.induct) auto

lemma bracketed_concat: "(\<And>p. p \<in> set ps \<Longrightarrow> bracketed k 0 p) \<Longrightarrow> bracketed k 0 (concat ps)"
  by (induction ps) (simp_all add: bracketed_append)

lemma next_action_Some: "next_action s i = Some a \<longleftrightarrow> i < length (progs s) \<and> (\<exists>p. progs s ! i = a # p)"
  by (auto simp: next_action_def split: list.splits)

lemma next_action_advance:
  "j \<noteq> i \<Longrightarrow> next_action (advance i s) j = next_action s j"
  by (simp add: next_action_def advance_def)

lemma advance_simps [simp]:
  "readers (advance i s) = readers s" "writer (advance i s) = writer s" "queued (advance i s) = queued s"
  "length (progs (advance i s)) = length (progs s)"
  "i < length (progs s) \<Longrightarrow> progs (advance i s) ! i = tl (progs s ! i)"
  "j \<noteq> i \<Longrightarrow> progs (advance i s) ! j = progs s ! j"
  by (simp_all add: advance_def)

lemma bracketed_AcqWrite: "bracketed k d (AcqWrite # p) \<longleftrightarrow> (\<exists>q. p = RelWrite # q \<and> d = 0 \<and> bracketed k 0 q)"
proof (cases p)
  case (Cons a q)
  then show ?thesis by (cases a) auto
qed simp

lemma count_list_remove1: "count_list (remove1 i xs) j = (if i = j then count_list xs j - 1 else count_list xs j)"
  by (induction xs) auto

lemma lock_inv_change:
  assumes inv: "lock_inv k s" and i: "i < length (progs s)" and ok: "thread_ok k (advance i s') i"
    and progs: "progs s' = progs s"
    and others: "\<And>j. j \<noteq> i \<Longrightarrow> count_list (readers s') j = count_list (readers s) j \<and> (writer s' = Some j \<longleftrightarrow> writer s = Some j)"
    and readers: "set (readers s') \<subseteq> insert i (set (readers s))" and excl: "writer s' \<noteq> None \<Longrightarrow> readers s' = []"
    and queued: "set (queued s') \<subseteq> set (queued s) - {i}"
  shows "lock_inv k (advance i s')"
proof -
  have "thread_ok k (advance i s') j" if "j < length (progs s)" for j
  proof (cases "j = i")
    case False
    then show ?thesis using inv that others [OF False] progs by (simp add: lock_inv_def thread_ok_def)
  qed (use ok in simp)
  moreover have "next_action (advance i s') j = Some AcqWrite" if "j \<in> set (queued s')" for j
  proof -
    have "j \<noteq> i" "next_action s j = Some AcqWrite" using that queued inv by (auto simp: lock_inv_def)
    then show ?thesis using progs by (simp add: next_action_def split: if_splits)
  qed
  moreover have "j < length (progs s)" if "j \<in> set (readers s')" for j
    using that readers i inv by (auto simp: lock_inv_def)
  moreover have "j < length (progs s)" if "writer s' = Some j" for j
    using that others [of j] i inv by (cases "j = i") (auto simp: lock_inv_def)
  ultimately show ?thesis using progs excl by (auto simp: lock_inv_def)
qed

lemma not_queued: "lock_inv k s \<Longrightarrow> next_action s i = Some a \<Longrightarrow> a \<noteq> AcqWrite \<Longrightarrow> i \<notin> set (queued s)"
  by (auto simp: lock_inv_def)

lemma lock_inv_step:
  assumes inv: "lock_inv k s" and "lock_step favour s s'"
  shows "lock_inv k s'"
  using assms(2)
proof cases
  case (acquire_read i)
  then obtain p where p: "i < length (progs s)" "progs s ! i = AcqRead # p" by (auto simp: next_action_Some)
  then have "bracketed k (Suc (count_list (readers s) i)) p"
    using inv acquire_read(3) by (auto simp: lock_inv_def thread_ok_def)
  then show ?thesis
    unfolding acquire_read(1) using p acquire_read(3) not_queued [OF inv acquire_read(2)]
    by (intro lock_inv_change [OF inv]) (auto simp: thread_ok_def)
next
  case (release_read i)
  then obtain p where p: "i < length (progs s)" "progs s ! i = RelRead # p" by (auto simp: next_action_Some)
  have w: "writer s = None" using inv release_read(3) by (auto simp: lock_inv_def)
  then have "bracketed k (count_list (readers s) i - 1) p" using inv p by (auto simp: lock_inv_def thread_ok_def)
  then show ?thesis
    unfolding release_read(1) using p w not_queued [OF inv release_read(2)] set_remove1_subset [of i "readers s"]
    by (intro lock_inv_change [OF inv]) (auto simp: thread_ok_def count_list_remove1)
next
  case (enqueue i)
  then show ?thesis using inv by (auto simp: lock_inv_def thread_ok_def next_action_Some)
next
  case (acquire_write i)
  then obtain p where p: "i < length (progs s)" "progs s ! i = AcqWrite # p" by (auto simp: next_action_Some)
  then have "\<exists>q. p = RelWrite # q \<and> bracketed k 0 q"
    using inv acquire_write(4,5) by (auto simp: lock_inv_def thread_ok_def bracketed_AcqWrite)
  then show ?thesis
    unfolding acquire_write(1) using p acquire_write(4,5)
    by (intro lock_inv_change [OF inv]) (auto simp: thread_ok_def)
next
  case (release_write i)
  then obtain p where p: "i < length (progs s)" "progs s ! i = RelWrite # p" by (auto simp: next_action_Some)
  then have "bracketed k 0 p" "readers s = []"
    using inv release_write(3) by (auto simp: lock_inv_def thread_ok_def)
  then show ?thesis
    unfolding release_write(1) using p release_write(3) not_queued [OF inv release_write(2)]
    by (intro lock_inv_change [OF inv]) (auto simp: thread_ok_def)
qed

lemma lock_inv_reach: "lock_reach favour s s' \<Longrightarrow> lock_inv k s \<Longrightarrow> lock_inv k s'"
  by (induction rule: rtranclp_induct) (auto intro: lock_inv_step)

lemma lock_inv_init: "(\<And>p. p \<in> set ps \<Longrightarrow> bracketed k 0 p) \<Longrightarrow> lock_inv k (locked_init ps)"
  by (simp add: lock_inv_def locked_init_def thread_ok_def)

subsection \<open>Progress and termination\<close>

lemma lock_progress:
  assumes inv: "lock_inv k s" and "\<not> all_done s" and "favour \<longrightarrow> k \<le> 1"
  shows "\<exists>s'. lock_step favour s s'"
proof (cases "writer s")
  case (Some i)
  then have "i < length (progs s)" "thread_ok k s i" using inv by (simp_all add: lock_inv_def)
  then have "next_action s i = Some RelWrite" using Some by (auto simp: thread_ok_def next_action_Some)
  then show ?thesis using release_write Some by blast
next
  case None
  show ?thesis
  proof (cases "readers s")
    case (Cons i rs)
    then have i: "i < length (progs s)" "0 < count_list (readers s) i"
      "bracketed k (count_list (readers s) i) (progs s ! i)"
      using inv None by (auto simp: lock_inv_def thread_ok_def)
    then consider p where "progs s ! i = AcqRead # p" "count_list (readers s) i < k" | p where "progs s ! i = RelRead # p"
      by (cases "(k, count_list (readers s) i, progs s ! i)" rule: bracketed.cases) auto
    then show ?thesis
    proof cases
      case 1
      then have "\<not> favour" using i(2) assms(3) by auto
      then show ?thesis using acquire_read [of s i favour] 1 i(1) None by (auto simp: next_action_Some)
    next
      case 2
      then show ?thesis using release_read [of s i favour] i Cons by (auto simp: next_action_Some)
    qed
  next
    case Nil
    have writes: ?thesis if "next_action s i = Some AcqWrite" for i
      using that enqueue [of s i favour] acquire_write [of s i favour] None Nil by (cases "i \<in> set (queued s)") auto
    obtain i where i: "i < length (progs s)" "progs s ! i \<noteq> []" using assms(2) by (auto simp: all_done_def in_set_conv_nth)
    have "bracketed k 0 (progs s ! i)" using inv None Nil i(1) by (simp add: lock_inv_def thread_ok_def)
    then consider p where "progs s ! i = AcqRead # p" | p where "progs s ! i = AcqWrite # p"
      using i(2) by (cases "(k, 0 :: nat, progs s ! i)" rule: bracketed.cases) auto
    then show ?thesis
    proof cases
      case 1
      show ?thesis
      proof (cases "favour \<and> queued s \<noteq> []")
        case True
        then obtain j where "j \<in> set (queued s)" by (cases "queued s") auto
        then show ?thesis using inv writes [of j] by (simp add: lock_inv_def)
      next
        case False
        then show ?thesis using acquire_read [of s i favour] 1 i(1) None by (auto simp: next_action_Some)
      qed
    next
      case 2
      then show ?thesis using writes [of i] i(1) by (simp add: next_action_Some)
    qed
  qed
qed

text \<open>Every step uses up an action, or puts a thread in the queue, which it leaves with the write action.\<close>

definition thread_measure :: "locked \<Rightarrow> nat \<Rightarrow> nat" where
  "thread_measure s i = 2 * length (progs s ! i) + (if i \<in> set (queued s) then 0 else 1)"

definition lock_measure :: "locked \<Rightarrow> nat" where
  "lock_measure s = (\<Sum>i < length (progs s). thread_measure s i)"

lemma lock_step_thread:
  assumes "lock_step favour s s'"
  shows "length (progs s') = length (progs s) \<and> (\<exists>i < length (progs s). thread_measure s' i < thread_measure s i \<and>
    (\<forall>j. j \<noteq> i \<longrightarrow> thread_measure s' j = thread_measure s j))"
  using assms
proof cases
  case (acquire_read i)
  then show ?thesis by (auto simp: next_action_Some thread_measure_def intro!: exI [of _ i])
next
  case (release_read i)
  then show ?thesis by (auto simp: next_action_Some thread_measure_def intro!: exI [of _ i])
next
  case (enqueue i)
  then show ?thesis by (auto simp: next_action_Some thread_measure_def intro!: exI [of _ i])
next
  case (acquire_write i)
  then show ?thesis by (auto simp: next_action_Some thread_measure_def intro!: exI [of _ i])
next
  case (release_write i)
  then show ?thesis by (auto simp: next_action_Some thread_measure_def intro!: exI [of _ i])
qed

lemma lock_measure_decreases:
  assumes "lock_step favour s s'"
  shows "lock_measure s' < lock_measure s"
proof -
  obtain i where i: "i < length (progs s)" "thread_measure s' i < thread_measure s i"
    "\<forall>j. j \<noteq> i \<longrightarrow> thread_measure s' j = thread_measure s j" and len: "length (progs s') = length (progs s)"
    using lock_step_thread [OF assms] by blast
  have "thread_measure s' j \<le> thread_measure s j" for j using i(2,3) by (cases "j = i") auto
  then show ?thesis
    unfolding lock_measure_def len using i(1,2) by (intro sum_strict_mono_ex1) auto
qed

subsection \<open>The programs of the tracker and its clients\<close>

definition nests :: "mempool \<times> handle_call \<Rightarrow> bool" where
  "nests mc = (case mc of (m, EstimatedBlocks i) \<Rightarrow> find_tx_by_id m i \<noteq> None | _ \<Rightarrow> False)"

lemma bracketed_call: "bracketed 2 0 (call_locks m c)" "\<not> nests (m, c) \<Longrightarrow> bracketed (Suc 0) 0 (call_locks m c)"
  by (cases c; simp add: nests_def)+

lemma bracketed_client:
  "bracketed 2 0 (client_prog calls)" "\<forall>mc \<in> set calls. \<not> nests mc \<Longrightarrow> bracketed (Suc 0) 0 (client_prog calls)"
  unfolding client_prog_def by (rule bracketed_concat, use bracketed_call in auto)+

lemma bracketed_tracker: "0 < k \<Longrightarrow> bracketed k 0 (tracker_prog evs)"
proof -
  have "bracketed k 0 (event_locks ev)" for ev by (cases ev) simp_all
  then show ?thesis unfolding tracker_prog_def by (intro bracketed_concat) auto
qed

subsection \<open>Properties\<close>



text \<open>
  C21: On a platform where new readers wait for a waiting writer, one call of
  \<open>estimated_blocks_to_confirm\<close> for a known transaction and one event can deadlock: the call
  holds the read lock, the tracker waits to write, and the nested \<open>gas_ahead\<close> waits behind it.
\<close>
theorem estimate_deadlocks:
  assumes "find_tx_by_id m i \<noteq> None"
  shows "\<exists>s. lock_reach True (locked_init [client_prog [(m, EstimatedBlocks i)], tracker_prog [ev]]) s \<and>
    \<not> all_done s \<and> (\<forall>s'. \<not> lock_step True s s')"
proof -
  let ?p = "[AcqRead, AcqRead, RelRead, RelRead]" and ?q = "[AcqWrite, RelWrite]"
  have "tracker_prog [ev] = ?q" by (cases ev) (simp_all add: tracker_prog_def)
  moreover have "client_prog [(m, EstimatedBlocks i)] = ?p" using assms by (auto simp: client_prog_def)
  ultimately have init: "locked_init [client_prog [(m, EstimatedBlocks i)], tracker_prog [ev]] = locked_init [?p, ?q]" by simp
  let ?s1 = "\<lparr>readers = [0], writer = None, queued = [], progs = [[AcqRead, RelRead, RelRead], ?q]\<rparr>"
  let ?s2 = "\<lparr>readers = [0], writer = None, queued = [1], progs = [[AcqRead, RelRead, RelRead], ?q]\<rparr>"
  have "lock_step True (locked_init [?p, ?q]) ?s1"
    using acquire_read [of "locked_init [?p, ?q]" 0 True] by (simp add: locked_init_def next_action_def advance_def)
  moreover have "lock_step True ?s1 ?s2"
    using enqueue [of ?s1 1 True] by (simp add: next_action_def)
  ultimately have "lock_reach True (locked_init [?p, ?q]) ?s2" by (meson converse_rtranclp_into_rtranclp r_into_rtranclp)
  moreover have "\<not> lock_step True ?s2 s'" for s'
    by (auto elim!: lock_stepE simp: next_action_Some less_Suc_eq nth_Cons' split: if_splits)
  ultimately show ?thesis unfolding init by (intro exI [of _ ?s2]) (simp add: all_done_def)
qed

theorem estimate_deadlocks_witness:
  "\<exists>s. lock_reach True (locked_init [client_prog [(ex_pool, EstimatedBlocks 1)], tracker_prog [PendingTransaction (ex_tx 3 7 7 10)]]) s \<and>
     \<not> all_done s \<and> (\<forall>s'. \<not> lock_step True s s')"
  using estimate_deadlocks [of ex_pool 1 "PendingTransaction (ex_tx 3 7 7 10)"]
  by (simp add: find_tx_by_id_def all_txs_def ex_pool_def ex_tx_def List.map_filter_def)

end
