(* ===== verification/Message_Tests.thy ===== *)
theory Message_Tests
  imports Message_Text "HOL-Library.Sublist"
begin

text \<open>
  The unit tests of crates/bulkmail/src/message.rs, each as the function it is in the source,
  run on the model in a build with or without overflow checks. A test that panics or whose
  assertion fails is false. \<open>message_tests_pass\<close> evaluates them all.
\<close>

subsection \<open>The test clock\<close>

definition manual_clock_new :: "u64 \<Rightarrow> u64" where
  "manual_clock_new initial_ms = initial_ms"

definition manual_clock_advance :: "u64 \<Rightarrow> u64 \<Rightarrow> u64" where
  "manual_clock_advance ms clock = clock + ms"

definition manual_clock_set :: "u64 \<Rightarrow> u64 \<Rightarrow> u64" where
  "manual_clock_set ms clock = ms"

definition manual_clock_now_ms :: "u64 \<Rightarrow> u64" where
  "manual_clock_now_ms clock = clock"

subsection \<open>Construction and priority\<close>

definition test_new_clamps_priority_to_max :: "bool \<Rightarrow> bool" where
  "test_new_clamps_priority_to_max oc \<longleftrightarrow> priority (message_new None 21000 0 [] 200 None 0) = MAX_PRIORITY"

definition test_new_accepts_priority_at_max :: "bool \<Rightarrow> bool" where
  "test_new_accepts_priority_at_max oc \<longleftrightarrow> priority (message_new None 21000 0 [] MAX_PRIORITY None 0) = MAX_PRIORITY"

definition test_new_stores_now_ms :: "bool \<Rightarrow> bool" where
  "test_new_stores_now_ms oc \<longleftrightarrow> created_at_ms (message_new None 0 0 [] 0 None 12345) = 12345"

definition test_effective_priority_base :: "bool \<Rightarrow> bool" where
  "test_effective_priority_base oc \<longleftrightarrow> effective_priority oc (message_new None 0 0 [] 5 None 0) 0 = Some 5"

definition test_effective_priority_includes_retry_count :: "bool \<Rightarrow> bool" where
  "test_effective_priority_includes_retry_count oc \<longleftrightarrow>
     (let msg = message_new None 0 0 [] 1 None 0; msg = fst (increment_retry msg) in effective_priority oc msg 0 = Some 2)"

definition test_effective_priority_age_factor :: "bool \<Rightarrow> bool" where
  "test_effective_priority_age_factor oc \<longleftrightarrow> effective_priority oc (message_new None 0 0 [] 0 None 0) 4000 = Some 2"

definition test_effective_priority_zero_when_deadline_passed :: "bool \<Rightarrow> bool" where
  "test_effective_priority_zero_when_deadline_passed oc \<longleftrightarrow>
     (let msg = message_new None 0 0 [] 50 (Some 1000) 0
      in effective_priority oc msg 1000 = Some 0 \<and> effective_priority oc msg 2000 = Some 0)"

subsection \<open>The deadline factor\<close>

definition test_deadline_factor_none_when_no_deadline :: "bool \<Rightarrow> bool" where
  "test_deadline_factor_none_when_no_deadline oc \<longleftrightarrow> deadline_factor oc (message_new None 0 0 [] 0 None 0) 0 = Some None"

definition test_deadline_factor_none_when_far_away :: "bool \<Rightarrow> bool" where
  "test_deadline_factor_none_when_far_away oc \<longleftrightarrow>
     (let far_ms = DEADLINE_BOOST_FAR_BLOCKS * BLOCK_TIME_MS + BLOCK_TIME_MS
      in deadline_factor oc (message_new None 0 0 [] 0 (Some (ucast far_ms)) 0) 0 = Some None)"

definition test_deadline_factor_max_when_near :: "bool \<Rightarrow> bool" where
  "test_deadline_factor_max_when_near oc \<longleftrightarrow>
     (let near_ms = DEADLINE_BOOST_NEAR_BLOCKS * BLOCK_TIME_MS - 1
      in deadline_factor oc (message_new None 0 0 [] 0 (Some (ucast near_ms)) 0) 0 = Some (Some MAX_PRIORITY))"

definition test_deadline_factor_linear_between_thresholds :: "bool \<Rightarrow> bool" where
  "test_deadline_factor_linear_between_thresholds oc \<longleftrightarrow>
     (let mid_ms = 6 * BLOCK_TIME_MS
      in case deadline_factor oc (message_new None 0 0 [] 0 (Some (ucast mid_ms)) 0) 0 of
           Some (Some factor) \<Rightarrow> MAX_PRIORITY div 3 < factor \<and> factor < MAX_PRIORITY
         | _ \<Rightarrow> False)"

definition test_deadline_factor_increases_as_deadline_approaches :: "bool \<Rightarrow> bool" where
  "test_deadline_factor_increases_as_deadline_approaches oc \<longleftrightarrow>
     (let msg9 = message_new None 0 0 [] 0 (Some (ucast (9 * BLOCK_TIME_MS))) 0;
          msg3 = message_new None 0 0 [] 0 (Some (ucast (3 * BLOCK_TIME_MS))) 0
      in case (deadline_factor oc msg9 0, deadline_factor oc msg3 0) of
           (Some (Some boost9), Some (Some boost3)) \<Rightarrow> boost9 < boost3
         | _ \<Rightarrow> False)"

subsection \<open>Expiry\<close>

definition test_is_expired_with_past_deadline :: "bool \<Rightarrow> bool" where
  "test_is_expired_with_past_deadline oc \<longleftrightarrow>
     (let msg = message_new None 0 0 [] 0 (Some 500) 0
      in is_expired oc msg 500 = Some True \<and> is_expired oc msg 1000 = Some True)"

definition test_is_not_expired_with_no_deadline :: "bool \<Rightarrow> bool" where
  "test_is_not_expired_with_no_deadline oc \<longleftrightarrow> is_expired oc (message_new None 0 0 [] 0 None 0) (- 1) = Some False"

definition test_is_not_expired_before_deadline :: "bool \<Rightarrow> bool" where
  "test_is_not_expired_before_deadline oc \<longleftrightarrow> is_expired oc (message_new None 0 0 [] 0 (Some 1000) 0) 999 = Some False"

definition test_deadline_expiry_with_manual_clock :: "bool \<Rightarrow> bool" where
  "test_deadline_expiry_with_manual_clock oc \<longleftrightarrow>
     (let clock = manual_clock_new 1000000;
          deadline = (5000 :: u32);
          msg = message_new None 0 0 [] 0 (Some deadline) (manual_clock_now_ms clock);
          later = manual_clock_advance (ucast deadline) clock
      in is_expired oc msg (manual_clock_now_ms clock) = Some False \<and> is_expired oc msg (manual_clock_now_ms later) = Some True)"

definition test_priority_boost_activates_with_manual_clock :: "bool \<Rightarrow> bool" where
  "test_priority_boost_activates_with_manual_clock oc \<longleftrightarrow>
     (let clock = manual_clock_new 0;
          deadline = ucast (20 * BLOCK_TIME_MS);
          msg = message_new None 0 0 [] 0 (Some deadline) (manual_clock_now_ms clock);
          clock5 = manual_clock_advance (15 * BLOCK_TIME_MS) clock;
          clock1 = manual_clock_advance (4 * BLOCK_TIME_MS) clock5
      in deadline_factor oc msg (manual_clock_now_ms clock) = Some None \<and>
         (case deadline_factor oc msg (manual_clock_now_ms clock5) of
            Some (Some factor) \<Rightarrow> MAX_PRIORITY div 3 < factor \<and> factor < MAX_PRIORITY
          | _ \<Rightarrow> False) \<and>
         deadline_factor oc msg (manual_clock_now_ms clock1) = Some (Some MAX_PRIORITY))"

subsection \<open>Retries, text and tables\<close>

fun increment_times :: "nat \<Rightarrow> message \<Rightarrow> message" where
  "increment_times 0 msg = msg"
| "increment_times (Suc n) msg = increment_times n (fst (increment_retry msg))"

definition test_can_retry_exhausted_after_max_retries :: "bool \<Rightarrow> bool" where
  "test_can_retry_exhausted_after_max_retries oc \<longleftrightarrow>
     (let msg = message_new None 0 0 [] 0 None 0
      in can_retry msg \<and> \<not> can_retry (increment_times (unat MAX_RETRIES) msg))"

fun all_increments :: "nat \<Rightarrow> message \<Rightarrow> bool \<times> message" where
  "all_increments 0 msg = (True, msg)"
| "all_increments (Suc n) msg = (let (msg, again) = increment_retry msg; (rest, msg) = all_increments n msg in (again \<and> rest, msg))"

definition test_increment_retry_returns_true_while_budget_remains :: "bool \<Rightarrow> bool" where
  "test_increment_retry_returns_true_while_budget_remains oc \<longleftrightarrow>
     (let (all, msg) = all_increments (unat (MAX_RETRIES - 1)) (message_new None 0 0 [] 0 None 0)
      in all \<and> \<not> snd (increment_retry msg))"

definition test_display_format :: "(address \<Rightarrow> string) \<Rightarrow> (u256 \<Rightarrow> string) \<Rightarrow> u64 \<Rightarrow> bool \<Rightarrow> bool" where
  "test_display_format show_address show_u256 now oc \<longleftrightarrow>
     (let s = message_display show_address show_u256 (message_default now)
      in prefix ''Message {'' s \<and> sublist ''retry_count: 0'' s)"

record priority_case =
  case_priority :: u32
  case_retries :: nat
  case_age_ms :: u64
  case_expected :: u32

definition priority_cases :: "priority_case list" where
  "priority_cases =
     [\<lparr>case_priority = 0, case_retries = 0, case_age_ms = 0, case_expected = 0\<rparr>,
      \<lparr>case_priority = 5, case_retries = 0, case_age_ms = 0, case_expected = 5\<rparr>,
      \<lparr>case_priority = 5, case_retries = 2, case_age_ms = 0, case_expected = 7\<rparr>,
      \<lparr>case_priority = 5, case_retries = 0, case_age_ms = 4000, case_expected = 7\<rparr>,
      \<lparr>case_priority = 5, case_retries = 1, case_age_ms = 4000, case_expected = 8\<rparr>]"

definition test_effective_priority_table :: "bool \<Rightarrow> bool" where
  "test_effective_priority_table oc \<longleftrightarrow> list_all (\<lambda>c.
     effective_priority oc (increment_times (case_retries c) (message_new None 0 0 [] (case_priority c) None 0)) (case_age_ms c)
       = Some (case_expected c)) priority_cases"

definition expired_cases :: "(u64 \<times> u32 option \<times> u64 \<times> bool) list" where
  "expired_cases =
     [(0, None, 9999, False), (0, Some 1000, 999, False), (0, Some 1000, 1000, True), (0, Some 1000, 2000, True),
      (5000, Some 3000, 7999, False), (5000, Some 3000, 8000, True)]"

definition test_is_expired_table :: "bool \<Rightarrow> bool" where
  "test_is_expired_table oc \<longleftrightarrow> list_all (\<lambda>(created, deadline, now, expected).
     is_expired oc (message_new None 0 0 [] 0 deadline created) now = Some expected) expired_cases"

definition test_new_message_fields :: "bool \<Rightarrow> bool" where
  "test_new_message_fields oc \<longleftrightarrow>
     (let msg = message_new (Some 0) 21000 0 [] 1 None 42
      in priority msg = 1 \<and> retry_count msg = 0 \<and> created_at_ms msg = 42 \<and> msg_gas msg = 21000)"

definition message_tests :: "(address \<Rightarrow> string) \<Rightarrow> (u256 \<Rightarrow> string) \<Rightarrow> u64 \<Rightarrow> (bool \<Rightarrow> bool) list" where
  "message_tests show_address show_u256 now =
     [test_new_clamps_priority_to_max, test_new_accepts_priority_at_max, test_new_stores_now_ms,
      test_effective_priority_base, test_effective_priority_includes_retry_count, test_effective_priority_age_factor,
      test_effective_priority_zero_when_deadline_passed, test_deadline_factor_none_when_no_deadline,
      test_deadline_factor_none_when_far_away, test_deadline_factor_max_when_near,
      test_deadline_factor_linear_between_thresholds, test_deadline_factor_increases_as_deadline_approaches,
      test_is_expired_with_past_deadline, test_is_not_expired_with_no_deadline, test_is_not_expired_before_deadline,
      test_deadline_expiry_with_manual_clock, test_priority_boost_activates_with_manual_clock,
      test_can_retry_exhausted_after_max_retries, test_increment_retry_returns_true_while_budget_remains,
      test_display_format show_address show_u256 now, test_effective_priority_table, test_is_expired_table,
      test_new_message_fields]"

subsection \<open>They pass\<close>

lemmas message_run = message_new_def message_consts effective_priority_def deadline_factor_def is_expired_def
  increment_retry_def can_retry_def saturating_sub_def saturating_add_def manual_clock_new_def manual_clock_advance_def
  manual_clock_now_ms_def rust_add_def rust_sub_def rust_mul_def Let_def

lemma loop_numeral [simp]:
  "increment_times (numeral k) msg = increment_times (pred_numeral k) (fst (increment_retry msg))"
  "all_increments (numeral k) msg =
    (let (msg, again) = increment_retry msg; (rest, msg) = all_increments (pred_numeral k) msg in (again \<and> rest, msg))"
  by (simp_all add: numeral_eq_Suc)

lemma construction_tests_pass:
  "test_new_clamps_priority_to_max oc" "test_new_accepts_priority_at_max oc" "test_new_stores_now_ms oc" "test_new_message_fields oc"
  by (simp_all add: test_new_clamps_priority_to_max_def test_new_accepts_priority_at_max_def test_new_stores_now_ms_def
      test_new_message_fields_def message_run)

lemma priority_tests_pass:
  "test_effective_priority_base oc" "test_effective_priority_includes_retry_count oc" "test_effective_priority_age_factor oc"
  "test_effective_priority_zero_when_deadline_passed oc" "test_effective_priority_table oc"
  by (simp_all add: test_effective_priority_base_def test_effective_priority_includes_retry_count_def
      test_effective_priority_age_factor_def test_effective_priority_zero_when_deadline_passed_def
      test_effective_priority_table_def priority_cases_def message_run)

lemma deadline_tests_pass:
  "test_deadline_factor_none_when_no_deadline oc" "test_deadline_factor_none_when_far_away oc"
  "test_deadline_factor_max_when_near oc" "test_deadline_factor_linear_between_thresholds oc"
  "test_deadline_factor_increases_as_deadline_approaches oc" "test_priority_boost_activates_with_manual_clock oc"
  by (simp_all add: test_deadline_factor_none_when_no_deadline_def test_deadline_factor_none_when_far_away_def
      test_deadline_factor_max_when_near_def test_deadline_factor_linear_between_thresholds_def
      test_deadline_factor_increases_as_deadline_approaches_def test_priority_boost_activates_with_manual_clock_def message_run)

lemma expiry_tests_pass:
  "test_is_expired_with_past_deadline oc" "test_is_not_expired_with_no_deadline oc" "test_is_not_expired_before_deadline oc"
  "test_deadline_expiry_with_manual_clock oc" "test_is_expired_table oc"
  by (simp_all add: test_is_expired_with_past_deadline_def test_is_not_expired_with_no_deadline_def
      test_is_not_expired_before_deadline_def test_deadline_expiry_with_manual_clock_def test_is_expired_table_def
      expired_cases_def message_run)

lemma retry_tests_pass:
  "test_can_retry_exhausted_after_max_retries oc" "test_increment_retry_returns_true_while_budget_remains oc"
  by (simp_all add: test_can_retry_exhausted_after_max_retries_def
      test_increment_retry_returns_true_while_budget_remains_def message_run)

lemma display_test_passes: "test_display_format show_address show_u256 now oc"
proof -
  have "prefix ''Message {'' (message_display show_address show_u256 (message_default now))"
    by (simp add: message_display_def)
  moreover have "show_word (0 :: u32) = ''0''" by (simp add: show_word_def show_nat.simps char_of_def bit_0)
  then have "suffix (''retry_count: 0'' @ '' }'') (message_display show_address show_u256 (message_default now))"
    by (simp add: message_display_def message_default_def suffix_def)
  then have "sublist ''retry_count: 0'' (message_display show_address show_u256 (message_default now))"
    unfolding suffix_def sublist_def by blast
  ultimately show ?thesis by (simp add: test_display_format_def Let_def)
qed

theorem message_tests_pass: "list_all (\<lambda>test. test oc) (message_tests show_address show_u256 now)"
  by (simp add: message_tests_def construction_tests_pass priority_tests_pass deadline_tests_pass expiry_tests_pass
      retry_tests_pass display_test_passes)

end
