(* ===== verification/Core_Tests.thy ===== *)
theory Core_Tests
  imports Sender_Steps
begin

text \<open>
  The unit tests of gas_price.rs, nonce_manager.rs, priority_queue.rs, adapter/ethereum.rs and
  sender.rs of crates/bulkmail, run on the model. The replies of the mocked chain are the
  arguments of the operations; a test that panics or whose assertion fails is false.
\<close>

subsection \<open>Gas price manager\<close>

definition price_is :: "bool \<Rightarrow> gas_price_manager \<Rightarrow> u32 \<Rightarrow> (u128 \<Rightarrow> u128 \<Rightarrow> bool) \<Rightarrow> bool" where
  "price_is oc g p P \<longleftrightarrow> (case get_gas_price oc g p of Some (Inr (base, fee)) \<Rightarrow> P base fee | _ \<Rightarrow> False)"

definition test_initial_gas_price :: "bool \<Rightarrow> bool" where
  "test_initial_gas_price oc \<longleftrightarrow> price_is oc gas_price_new 0 (\<lambda>base fee. base = INITIAL_BASE_FEE \<and> fee = 2000000000)"

definition test_priority_influence :: "bool \<Rightarrow> bool" where
  "test_priority_influence oc \<longleftrightarrow>
     price_is oc gas_price_new 1 (\<lambda>_ fee1. price_is oc gas_price_new 5 (\<lambda>_ fee5. fee1 < fee5))"

definition test_max_priority_fee :: "bool \<Rightarrow> bool" where
  "test_max_priority_fee oc \<longleftrightarrow>
     price_is oc gas_price_new MAX_PRIORITY (\<lambda>_ fee. fee \<le> MAX_PRIORITY_FEE \<and>
       price_is oc gas_price_new (MAX_PRIORITY + 100) (\<lambda>_ fee2. fee = fee2))"

definition confirm_times :: "bool \<Rightarrow> nat \<Rightarrow> nat \<Rightarrow> gas_price_manager \<Rightarrow> gas_price_manager option" where
  "confirm_times oc n secs = fold_opt (\<lambda>_. update_on_confirmation oc (secs * 10 ^ 9) 1000000000) [0..<n]"

definition test_congestion_levels :: "bool \<Rightarrow> bool" where
  "test_congestion_levels oc \<longleftrightarrow>
     (case confirm_times oc 10 10 gas_price_new of None \<Rightarrow> False
      | Some low \<Rightarrow> (case confirm_times oc 10 30 low of None \<Rightarrow> False
        | Some medium \<Rightarrow> (case confirm_times oc 10 70 medium of None \<Rightarrow> False
          | Some high \<Rightarrow> price_is oc low 1 (\<lambda>_ fee_low. price_is oc medium 1 (\<lambda>_ fee_medium. price_is oc high 1 (\<lambda>_ fee_high.
              fee_low < fee_medium \<and> fee_medium < fee_high))))))"

definition test_update_on_confirmation :: "bool \<Rightarrow> bool" where
  "test_update_on_confirmation oc \<longleftrightarrow>
     (case update_on_confirmation oc (30 * 10 ^ 9) 2000000000 gas_price_new of
        None \<Rightarrow> False | Some g \<Rightarrow> priority_fee gas_price_new < priority_fee g)"

definition test_confirmation_time_window :: "bool \<Rightarrow> bool" where
  "test_confirmation_time_window oc \<longleftrightarrow>
     (case fold_opt (\<lambda>i. update_on_confirmation oc (i * 10 ^ 9) 1000000000) [0..<Suc CONFIRMATION_TIME_WINDOW] gas_price_new of
        None \<Rightarrow> False
      | Some g \<Rightarrow> length (confirmation_times g) = CONFIRMATION_TIME_WINDOW \<and> hd (confirmation_times g) = 10 ^ 9 \<and>
          last (confirmation_times g) = CONFIRMATION_TIME_WINDOW * 10 ^ 9)"

lemma price_is_value:
  assumes "wf_gas_price g"
  shows "price_is oc g p P \<longleftrightarrow>
    P 2000000000 (of_nat (fee_spec (unat (priority_fee g)) (congestion_of (confirmation_times g)) (unat p)))"
proof -
  obtain f where f: "calculate_priority_fee oc g p = Some f"
    "unat f = fee_spec (unat (priority_fee g)) (congestion_of (confirmation_times g)) (unat p)"
    using calculate_priority_fee_value [OF assms] by blast
  from f(2) [symmetric] have "of_nat (fee_spec (unat (priority_fee g)) (congestion_of (confirmation_times g)) (unat p)) = f"
    by simp
  then show ?thesis using f(1) by (simp add: price_is_def get_gas_price_def get_base_fee_def gas_price_consts)
qed

lemma new_price:
  "price_is oc gas_price_new p P \<longleftrightarrow> P 2000000000 (of_nat (fee_spec 1000000000 Medium (unat p)))"
  using price_is_value [OF wf_gas_price_new, of oc p P]
  by (simp add: gas_price_new_def gas_price_consts congestion_of_def)

lemma price_tests_pass: "test_initial_gas_price oc" "test_priority_influence oc" "test_max_priority_fee oc"
  by (simp_all add: test_initial_gas_price_def test_priority_influence_def test_max_priority_fee_def new_price
      fee_spec_def pct_val_def gas_price_consts message_consts)

lemma fold_opt_map: "fold_opt f (map k xs) = fold_opt (\<lambda>x. f (k x)) xs"
  by (induction xs) (rule ext, simp)+

lemma record_gwei:
  assumes "wf_gas_price g" and "priority_fee g = 1000000000" and "\<forall>x \<in> set xs. time x \<le> 2 ^ 60 * 10 ^ 9" and "10 \<le> length xs"
  shows "\<exists>g'. fold_opt (\<lambda>x. update_on_confirmation oc (time x) 1000000000) xs g = Some g' \<and> wf_gas_price g' \<and>
    priority_fee g' = 1000000000 \<and> confirmation_times g' = drop (length xs - 10) (map time xs)"
proof -
  define us where "us = map (\<lambda>x. (time x, 1000000000 :: u128)) xs"
  have "\<forall>(d, fee) \<in> set us. in_range d fee" "\<forall>(d, fee) \<in> set us. 1000000000 \<le> unat fee \<and> unat fee \<le> 1000000000"
    using assms(3) by (auto simp: us_def in_range_def)
  then obtain g' where g': "record_confirmations oc us g = Some g'" "wf_gas_price g'"
    "unat (priority_fee g') = 1000000000"
    "confirmation_times g' = drop (length (confirmation_times g @ map fst us) - 10) (confirmation_times g @ map fst us)"
    using record_confirmations_window [OF assms(1), of us 1000000000 1000000000 oc] assms(2) by (auto simp: Let_def)
  have "unat (priority_fee g') = unat (1000000000 :: u128)" using g'(3) by simp
  then have fee: "priority_fee g' = 1000000000" by (simp only: word_unat_eq_iff)
  have "fold_opt (\<lambda>x. update_on_confirmation oc (time x) 1000000000) xs g = Some g'"
    using g'(1) unfolding record_confirmations_def us_def fold_opt_map by (simp only: prod.case)
  moreover have "confirmation_times g' = drop (length xs - 10) (map time xs)"
    using g'(4) assms(4) by (simp add: us_def comp_def)
  ultimately show ?thesis using g'(2) fee by blast
qed

lemma confirm_times_value:
  assumes "wf_gas_price g" and "priority_fee g = 1000000000" and "secs \<le> 2 ^ 60"
  shows "\<exists>g'. confirm_times oc 10 secs g = Some g' \<and> wf_gas_price g' \<and> priority_fee g' = 1000000000 \<and>
    confirmation_times g' = replicate 10 (secs * 10 ^ 9)"
  using record_gwei [OF assms(1,2), of "[0..<10]" "\<lambda>_. secs * 10 ^ 9" oc] assms(3)
  by (simp add: confirm_times_def map_replicate_const)

lemma congestion_test_passes: "test_congestion_levels oc"
proof -
  have new: "priority_fee gas_price_new = 1000000000" by (simp add: gas_price_new_def gas_price_consts)
  obtain low where l: "confirm_times oc 10 10 gas_price_new = Some low" "wf_gas_price low" "priority_fee low = 1000000000"
    "confirmation_times low = replicate 10 (10 * 10 ^ 9)" using confirm_times_value [OF wf_gas_price_new new, of 10 oc] by auto
  obtain medium where m: "confirm_times oc 10 30 low = Some medium" "wf_gas_price medium" "priority_fee medium = 1000000000"
    "confirmation_times medium = replicate 10 (30 * 10 ^ 9)" using confirm_times_value [OF l(2,3), of 30 oc] by auto
  obtain high where h: "confirm_times oc 10 70 medium = Some high" "wf_gas_price high" "priority_fee high = 1000000000"
    "confirmation_times high = replicate 10 (70 * 10 ^ 9)" using confirm_times_value [OF m(2,3), of 70 oc] by auto
  have c: "congestion_of (confirmation_times low) = Low" "congestion_of (confirmation_times medium) = Medium"
    "congestion_of (confirmation_times high) = High"
    by (simp_all add: l(4) m(4) h(4) congestion_of_def sum_list_replicate)
  show ?thesis
    by (simp add: test_congestion_levels_def l(1) m(1) h(1) price_is_value l(2,3) m(2,3) h(2,3) c fee_spec_def pct_val_def)
qed

lemma window_tests_pass: "test_update_on_confirmation oc" "test_confirmation_time_window oc"
proof -
  show "test_update_on_confirmation oc"
    by (simp add: test_update_on_confirmation_def update_on_confirmation_def gas_price_new_def gas_price_consts rust_add_def Let_def)
  have "priority_fee gas_price_new = 1000000000" by (simp add: gas_price_new_def gas_price_consts)
  from record_gwei [OF wf_gas_price_new this, of "[0..<11]" "\<lambda>i. i * 10 ^ 9" oc] obtain g where
    "fold_opt (\<lambda>i. update_on_confirmation oc (i * 10 ^ 9) 1000000000) [0..<11] gas_price_new = Some g"
    "confirmation_times g = map (\<lambda>i. i * 10 ^ 9) [1..<11]" by (auto simp: drop_map)
  then show "test_confirmation_time_window oc"
    by (simp add: test_confirmation_time_window_def CONFIRMATION_TIME_WINDOW_def hd_map last_map)
qed

subsection \<open>Nonce manager\<close>

text \<open>\<open>nonce_manager_at\<close> of the tests, and a sequence of assignments with the nonces they must yield.\<close>

definition nonce_manager_at :: "u64 \<Rightarrow> nonce_state option" where
  "nonce_manager_at nonce = (case nonce_manager_new (Inr nonce) of Inr st \<Rightarrow> Some st | Inl _ \<Rightarrow> None)"

fun assigns :: "bool \<Rightarrow> u64 list \<Rightarrow> nonce_state \<Rightarrow> nonce_state option" where
  "assigns oc [] st = Some st"
| "assigns oc (n # ns) st =
     (case get_next_available_nonce oc st of Some (m, st) \<Rightarrow> if m = n then assigns oc ns st else None | None \<Rightarrow> None)"

definition test_new_fetches_initial_nonce :: "bool \<Rightarrow> bool" where
  "test_new_fetches_initial_nonce oc \<longleftrightarrow> map_option current (nonce_manager_at 7) = Some 7"

definition test_sequential_assignment :: "bool \<Rightarrow> bool" where
  "test_sequential_assignment oc \<longleftrightarrow> nonce_manager_at 0 \<bind> assigns oc [0, 1, 2] \<noteq> None"

definition test_starts_from_offset :: "bool \<Rightarrow> bool" where
  "test_starts_from_offset oc \<longleftrightarrow> nonce_manager_at 5 \<bind> assigns oc [5, 6] \<noteq> None"

definition test_mark_available_allows_reuse :: "bool \<Rightarrow> bool" where
  "test_mark_available_allows_reuse oc \<longleftrightarrow>
     (do { st \<leftarrow> nonce_manager_at 0; (n, st) \<leftarrow> get_next_available_nonce oc st; assigns oc [0] (mark_nonce_available n st) }) \<noteq> None"

definition test_update_advances_baseline_and_prunes_in_flight :: "bool \<Rightarrow> bool" where
  "test_update_advances_baseline_and_prunes_in_flight oc \<longleftrightarrow>
     (case nonce_manager_at 0 \<bind> assigns oc [0, 1] of
        None \<Rightarrow> False
      | Some st \<Rightarrow> let st = update_current_nonce 2 st in current st = 2 \<and> in_flight st = {})"

definition test_update_ignores_rollback :: "bool \<Rightarrow> bool" where
  "test_update_ignores_rollback oc \<longleftrightarrow> map_option (\<lambda>st. current (update_current_nonce 5 st)) (nonce_manager_at 10) = Some 10"

definition test_update_retains_higher_in_flight_nonces :: "bool \<Rightarrow> bool" where
  "test_update_retains_higher_in_flight_nonces oc \<longleftrightarrow>
     (case nonce_manager_at 0 \<bind> assigns oc [0, 1, 2] of
        None \<Rightarrow> False
      | Some st \<Rightarrow> let nonces = in_flight (update_current_nonce 1 st) in 0 \<notin> nonces \<and> 1 \<in> nonces \<and> 2 \<in> nonces)"

definition test_sync_nonce_updates_from_chain :: "bool \<Rightarrow> bool" where
  "test_sync_nonce_updates_from_chain oc \<longleftrightarrow>
     (case nonce_manager_new (Inr 0) of
        Inl _ \<Rightarrow> False
      | Inr st \<Rightarrow> current st = 0 \<and> (case sync_nonce (Inr 5) st of (res, st) \<Rightarrow> \<not> isl res \<and> current st = 5))"

lemmas nonce_run = nonce_manager_at_def nonce_manager_new_def get_next_available_nonce_def next_nonce_from.simps rust_add_def
  update_current_nonce_def mark_nonce_available_def sync_nonce_def Let_def

lemma nonce_tests_pass:
  "test_new_fetches_initial_nonce oc" "test_sequential_assignment oc" "test_starts_from_offset oc"
  "test_mark_available_allows_reuse oc" "test_update_advances_baseline_and_prunes_in_flight oc"
  "test_update_ignores_rollback oc" "test_update_retains_higher_in_flight_nonces oc" "test_sync_nonce_updates_from_chain oc"
  by (auto simp: test_new_fetches_initial_nonce_def test_sequential_assignment_def test_starts_from_offset_def
      test_mark_available_allows_reuse_def test_update_advances_baseline_and_prunes_in_flight_def
      test_update_ignores_rollback_def test_update_retains_higher_in_flight_nonces_def
      test_sync_nonce_updates_from_chain_def nonce_run word_le_nat_alt)

subsection \<open>Priority queue\<close>

definition NOW_MS :: u64 where "NOW_MS = 1000000"

definition test_priority_queue_pops_in_priority_order :: "bool \<Rightarrow> bool" where
  "test_priority_queue_pops_in_priority_order oc \<longleftrightarrow>
     (case fold_opt (\<lambda>p q. queue_push oc q (message_new (Some 0) 21000 0 [] p None NOW_MS) NOW_MS) [0, 1, 2] queue_new of
        None \<Rightarrow> False
      | Some q \<Rightarrow> queue_len q = 3 \<and> \<not> queue_is_empty q \<and>
          (case queue_pop q of None \<Rightarrow> False | Some (m2, q) \<Rightarrow> priority m2 = 2 \<and>
            (case queue_pop q of None \<Rightarrow> False | Some (m1, q) \<Rightarrow> priority m1 = 1 \<and>
              (case queue_pop q of None \<Rightarrow> False | Some (m0, q) \<Rightarrow> priority m0 = 0 \<and> queue_is_empty q))))"

definition test_prioritized_message_ordering :: "bool \<Rightarrow> bool" where
  "test_prioritized_message_ordering oc \<longleftrightarrow>
     (let pm1 = \<lparr>pm_message = message_new None 0 0 [] 1 None NOW_MS, pm_priority = 1\<rparr>;
          pm2 = \<lparr>pm_message = message_new None 0 0 [] 2 None NOW_MS, pm_priority = 2\<rparr>
      in pm_priority pm1 < pm_priority pm2)"

lemma queue_tests_pass: "test_priority_queue_pops_in_priority_order oc" "test_prioritized_message_ordering oc"
proof -
  have prio: "effective_priority oc (message_new (Some 0) 21000 0 [] p None NOW_MS) NOW_MS = Some (min p 100)" if "unat p < 100" for p
    using that by (simp add: effective_priority_def deadline_factor_def message_new_def message_consts saturating_sub_def rust_add_def rust_mul_def)
  have clamp: "priority (message_new to gas val data p d now) = min p 100" for to gas val data p d now
    by (simp add: message_new_def message_consts)
  show "test_priority_queue_pops_in_priority_order oc"
    by (simp add: test_priority_queue_pops_in_priority_order_def queue_push_def prio queue_insert_def queue_new_def heap_push_def
        sift_up.simps queue_len_def queue_is_empty_def queue_pop_def queue_take_def heap_pop_def sift_down_to_bottom_def
        sift_hole_down.simps clamp word_le_nat_alt)
  show "test_prioritized_message_ordering oc" by (simp add: test_prioritized_message_ordering_def Let_def)
qed

subsection \<open>Fee bump\<close>

definition test_bump_zero_base :: "bool \<Rightarrow> bool" where
  "test_bump_zero_base oc \<longleftrightarrow> bump_by_percent oc 0 20 = Some 0"

definition test_bump_twenty_percent :: "bool \<Rightarrow> bool" where
  "test_bump_twenty_percent oc \<longleftrightarrow> bump_by_percent oc 100 20 = Some 120"

definition test_bump_zero_percent :: "bool \<Rightarrow> bool" where
  "test_bump_zero_percent oc \<longleftrightarrow> bump_by_percent oc 500 0 = Some 500"

definition test_bump_is_an_increase_not_a_fraction :: "bool \<Rightarrow> bool" where
  "test_bump_is_an_increase_not_a_fraction oc \<longleftrightarrow>
     (case bump_by_percent oc 1000000000 20 of None \<Rightarrow> False | Some bumped \<Rightarrow> 1000000000 < bumped \<and> bumped = 1200000000)"

lemma bump_tests_pass:
  "test_bump_zero_base oc" "test_bump_twenty_percent oc" "test_bump_zero_percent oc" "test_bump_is_an_increase_not_a_fraction oc"
  by (simp_all add: test_bump_zero_base_def test_bump_twenty_percent_def test_bump_zero_percent_def
      test_bump_is_an_increase_not_a_fraction_def bump_by_percent_def rust_add_def rust_mul_def)

subsection \<open>Sender\<close>

text \<open>\<open>make_sender\<close> with a chain whose account nonce is 0; the tests read the clock at the moments given.\<close>

definition make_sender :: "(nonce_state, gas_price_manager, eth_fee_params, u64) sender" where
  "make_sender = sender_new gas_price_new \<lparr>current = 0, in_flight = {}\<rparr>"

definition test_new_has_empty_queue :: "bool \<Rightarrow> bool" where
  "test_new_has_empty_queue oc \<longleftrightarrow> queue_len (queue make_sender) = 0"

definition test_add_message_enqueues :: "u64 \<Rightarrow> u64 \<Rightarrow> bool \<Rightarrow> bool" where
  "test_add_message_enqueues t0 t1 oc \<longleftrightarrow>
     (case add_message oc (message_default t0) t1 make_sender of None \<Rightarrow> False | Some s \<Rightarrow> queue_len (queue s) = 1)"

definition test_add_multiple_messages :: "(nat \<Rightarrow> u64 \<times> u64) \<Rightarrow> bool \<Rightarrow> bool" where
  "test_add_multiple_messages t oc \<longleftrightarrow>
     (case fold_opt (\<lambda>i. add_message oc (message_default (fst (t i))) (snd (t i))) [0..<4] make_sender of
        None \<Rightarrow> False | Some s \<Rightarrow> queue_len (queue s) = 4)"

definition test_run_errors_when_block_stream_closes :: "bool \<Rightarrow> bool" where
  "test_run_errors_when_block_stream_closes oc \<longleftrightarrow>
     (case fold_opt (exec (eth_adapter 1337) oc) [Subscribe (Inr ()), Block None] make_sender of
        None \<Rightarrow> False | Some s \<Rightarrow> (\<exists>e. main s = Stopped e))"

text \<open>\<open>process_next_message\<close> on an empty queue waits; \<open>notify_one\<close> lets it return.\<close>

definition test_process_next_message_blocks_when_queue_empty :: "bool \<Rightarrow> bool" where
  "test_process_next_message_blocks_when_queue_empty oc \<longleftrightarrow>
     (case fold_opt (exec (eth_adapter 1337) oc) [Acquire, TryPop] (make_sender\<lparr>main := AcquirePermit\<rparr>) of
        None \<Rightarrow> False
      | Some s \<Rightarrow> main s = Parked \<and> exec (eth_adapter 1337) oc Wake s = None \<and>
          (case exec (eth_adapter 1337) oc Wake (s\<lparr>message_ready := True\<rparr>) of None \<Rightarrow> False | Some s \<Rightarrow> main s = AcquirePermit))"

definition injected :: eth_reply where
  "injected = \<lparr>reply_submit = (\<lambda>_. Inl (Subscription ''injected'')), reply_register = Inr (), reply_watch = Inr 0,
     reply_receipt = (\<lambda>_. Inr None)\<rparr>"

definition test_process_next_message_pops_and_attempts_send :: "u64 \<Rightarrow> u64 \<Rightarrow> bool \<Rightarrow> bool" where
  "test_process_next_message_pops_and_attempts_send t0 t1 oc \<longleftrightarrow>
     (case add_message oc ((message_default t0)\<lparr>msg_to := Some 0, msg_gas := 21000\<rparr>) t1 (make_sender\<lparr>main := AcquirePermit\<rparr>) of
        None \<Rightarrow> False
      | Some s \<Rightarrow> queue_len (queue s) = 1 \<and>
          (case fold_opt (exec (eth_adapter 1337) oc) [Acquire, TryPop, TaskStep 0 (Clock t1 0), TaskStep 0 Go,
              TaskStep 0 (Clock t1 0), TaskStep 0 (Reply injected 0)] s of
             None \<Rightarrow> False | Some s \<Rightarrow> queue_len (queue s) = 0))"

lemma plain_priority:
  assumes "deadline_ms m = None" and "priority m = 0" and "retry_count m = 0"
  shows "\<exists>p. effective_priority oc m now = Some p"
proof -
  have "unat w < 4294967296" for w :: u32 using unsigned_less [of w] by simp
  then have "\<not> 4294967296 \<le> unat w" for w :: u32 by (simp add: not_le)
  then show ?thesis
    using assms by (simp add: effective_priority_def deadline_factor_def message_consts rust_add_def rust_mul_def Let_def)
qed

lemma add_plain:
  assumes "queue_invar (queue s)" and "deadline_ms m = None" and "priority m = 0" and "retry_count m = 0"
  shows "\<exists>s'. add_message oc m now s = Some s' \<and> queue_invar (queue s') \<and> queue_len (queue s') = Suc (queue_len (queue s))"
proof -
  obtain q where q: "queue_push oc (queue s) m now = Some q"
    using plain_priority [OF assms(2-4), of oc now] by (auto simp: queue_push_def)
  then show ?thesis
    using queue_push_messages [OF assms(1) q] by (simp add: add_message_def queue_len_messages)
qed

lemma add_defaults:
  "queue_invar (queue s) \<Longrightarrow>
   \<exists>s'. fold_opt (\<lambda>i. add_message oc (message_default (fst (t i))) (snd (t i))) xs s = Some s' \<and>
     queue_len (queue s') = length xs + queue_len (queue s)"
proof (induction xs arbitrary: s)
  case (Cons x xs)
  obtain s1 where s1: "add_message oc (message_default (fst (t x))) (snd (t x)) s = Some s1" "queue_invar (queue s1)"
    "queue_len (queue s1) = Suc (queue_len (queue s))"
    using add_plain [OF Cons.prems, of "message_default (fst (t x))" oc "snd (t x)"] by (auto simp: message_default_def)
  then show ?case using Cons.IH [OF s1(2)] by auto
qed simp

lemma make_sender_queue: "queue make_sender = queue_new" "queue_invar queue_new" "queue_len queue_new = 0"
  using pq.invar_empty by (simp_all add: make_sender_def sender_new_def queue_len_def queue_new_def)

lemma adding_tests_pass:
  "test_new_has_empty_queue oc" "test_add_message_enqueues t0 t1 oc" "test_add_multiple_messages t oc"
proof -
  show "test_new_has_empty_queue oc" by (simp add: test_new_has_empty_queue_def make_sender_queue)
  have inv: "queue_invar (queue make_sender)" by (simp add: make_sender_queue)
  show "test_add_message_enqueues t0 t1 oc"
    using add_plain [OF inv, of "message_default t0" oc t1]
    by (auto simp: test_add_message_enqueues_def message_default_def make_sender_queue)
  show "test_add_multiple_messages t oc"
    using add_defaults [OF inv, of oc t "[0..<4]"] by (auto simp: test_add_multiple_messages_def make_sender_queue)
qed

lemma run_tests_pass: "test_run_errors_when_block_stream_closes oc" "test_process_next_message_blocks_when_queue_empty oc"
  by (simp_all add: test_run_errors_when_block_stream_closes_def test_process_next_message_blocks_when_queue_empty_def
      make_sender_def sender_new_def select_block_def cancel_process_next_def acquire_permit_def pop_or_park_def wake_up_def
      MAX_IN_FLIGHT_TRANSACTIONS_def queue_pop_def queue_take_def queue_new_def heap_pop_def)

lemma send_test_passes: "test_process_next_message_pops_and_attempts_send t0 t1 oc"
proof -
  let ?m = "(message_default t0)\<lparr>msg_to := Some 0, msg_gas := 21000\<rparr>"
  obtain p where p: "effective_priority oc ?m t1 = Some p"
    using plain_priority [of ?m oc t1] by (auto simp: message_default_def)
  obtain fee where fee: "eth_get_fee_params oc p gas_price_new = Some (Inr fee)" "eth_fee_ok 0 fee"
    using eth_fee_params_ok [OF eth_fees_ok_new] by blast
  obtain tx where tx: "build_tx oc 1337 ?m fee 0 = Some tx"
    using build_tx_value [of fee oc 1337 ?m 0] eth_fee_ok_bound [OF fee(2)] fee(2) by (auto simp: eth_fee_ok_def)
  have push: "queue_push oc queue_new ?m t1 = Some \<lparr>heap = [\<lparr>pm_message = ?m, pm_priority = p\<rparr>]\<rparr>"
    by (simp add: queue_push_def p queue_insert_def queue_new_def heap_push_def sift_up.simps)
  have pop: "queue_pop \<lparr>heap = [\<lparr>pm_message = ?m, pm_priority = p\<rparr>]\<rparr> = Some (?m, queue_new)"
    by (simp add: queue_pop_def queue_take_def heap_pop_def queue_new_def)
  have live: "is_expired oc ?m t1 = Some False" by (simp add: is_expired_def message_default_def)
  have take: "get_next_available_nonce oc \<lparr>current = 0, in_flight = {}\<rparr> = Some (0, \<lparr>current = 0, in_flight = {0}\<rparr>)"
    by (simp add: get_next_available_nonce_def next_nonce_from.simps)
  have send: "eth_send_transaction 1337 oc ?m fee 0 injected = Some (Inl (ChainError (Subscription ''injected'')))"
    by (simp add: eth_send_transaction_def tx injected_def)
  show ?thesis
    unfolding test_process_next_message_pops_and_attempts_send_def make_sender_def sender_new_def
    by (simp add: add_message_def push queue_len_def acquire_permit_def pop_or_park_def pop run_task_def task_start_def live take
        task_bind_fee_def p fee(1) task_attempt_def task_reply_def send release_token_def MAX_IN_FLIGHT_TRANSACTIONS_def)
      (simp add: queue_new_def)
qed

end
