(* ===== verification/Flow_Tests.thy ===== *)
theory Flow_Tests
  imports Sender_Once Core_Tests
begin

text \<open>
  The tests of crates/bulkmail/tests/adapter_flow.rs: the sender under adapters written for
  the tests. They share a replay protection that counts up and remembers whether anything
  was released. The answers of a client to its submissions come with the events, so what a
  test reads off its client is read off \<open>submissions\<close>. \<open>RetryResubmit\<close> remembers that it was
  called; the fee managers have no state, and the flag takes the place of theirs. A test waits
  for what its tasks do; here it is the state after they did it. Operations that the sender
  never calls are left out.
\<close>

subsection \<open>The adapters\<close>

record flow_replay =
  next_value :: u64
  released :: bool

definition flow_replay_new :: "u64 \<Rightarrow> flow_replay" where
  "flow_replay_new start = \<lparr>next_value = start, released = False\<rparr>"

definition flow_next :: "bool \<Rightarrow> flow_replay \<Rightarrow> (u64 \<times> flow_replay) option" where
  "flow_next oc r = Some (next_value r, r\<lparr>next_value := next_value r + 1\<rparr>)"

definition flow_release :: "u64 \<Rightarrow> flow_replay \<Rightarrow> flow_replay" where
  "flow_release tok r = r\<lparr>released := True\<rparr>"

type_synonym flow_adapter = "(flow_replay, bool, u64, u64, u64, u64 send_outcome, unit) chain_adapter"

definition adapter_happy :: flow_adapter where
  "adapter_happy =
     \<lparr>client_send = (\<lambda>oc msg fee tok out. Some (Inr out)),
      replay_next = flow_next, replay_release = flow_release, replay_sync = (\<lambda>oc _ r. Some (Inr (), r)),
      fee_params = (\<lambda>oc p f. Some (Inr 1)),
      handle_confirmed = (\<lambda>oc pending d st. Some st),
      handle_dropped = (\<lambda>oc pending st. Some (Abandon, st))\<rparr>"

definition adapter_fee_err :: flow_adapter where
  "adapter_fee_err = adapter_happy\<lparr>fee_params := \<lambda>oc p f. Some (Inl (GasPriceError ''fail''))\<rparr>"

definition retry_resubmit ::
  "bool \<Rightarrow> (u64, u64, u64) pending_transaction \<Rightarrow> bool \<times> flow_replay \<Rightarrow> ((u64, u64) retry_decision \<times> bool \<times> flow_replay) option" where
  "retry_resubmit oc pending = (\<lambda>(called, r).
     if called then Some (Abandon, True, r)
     else map_option (\<lambda>fee. (Resubmit fee (pend_replay_token pending), True, r)) (rust_add oc (pend_fee pending) 1))"

definition adapter_resubmit :: flow_adapter where
  "adapter_resubmit = adapter_happy\<lparr>handle_dropped := retry_resubmit\<rparr>"

definition adapter_requeue :: flow_adapter where
  "adapter_requeue = adapter_happy\<lparr>handle_dropped := \<lambda>oc pending st. Some (Requeue, st)\<rparr>"

definition adapter_abandon :: flow_adapter where
  "adapter_abandon = adapter_happy\<lparr>handle_dropped := \<lambda>oc pending st. Some (Abandon, st)\<rparr>"

subsection \<open>The tests\<close>

definition flow_sender :: "u64 \<Rightarrow> (flow_replay, bool, u64, u64) sender" where
  "flow_sender start = sender_new False (flow_replay_new start)"

text \<open>The queued message is popped and its task runs up to its first submission; \<open>t\<close> is the time.\<close>

definition first_pop :: "u64 \<Rightarrow> (u64 send_outcome, unit) event list" where
  "first_pop t = [AddMessage (message_default t) t, Subscribe (Inr ()), Acquire, TryPop, TaskStep 0 (Clock t 0), TaskStep 0 Go]"

definition submit :: "u64 \<Rightarrow> u64 send_outcome \<Rightarrow> (u64 send_outcome, unit) event list" where
  "submit t out = [TaskStep 0 (Clock t 0), TaskStep 0 (Reply out 0)]"

definition sender_processes_message_with_adapter :: "u64 \<Rightarrow> bool \<Rightarrow> bool" where
  "sender_processes_message_with_adapter t oc \<longleftrightarrow>
     (let evs = [AddMessage (message_default t) t, Subscribe (Inr ()), Block (Some 1), SyncReply (), Acquire, TryPop,
            TaskStep 0 (Clock t 0), TaskStep 0 Go] @ submit t (Confirmed 1)
      in submissions adapter_happy oc evs (flow_sender 0) \<noteq> [] \<and>
         (case fold_opt (exec adapter_happy oc) (evs @ [Block None]) (flow_sender 0) of
            None \<Rightarrow> False | Some s \<Rightarrow> main s = Stopped SubscriptionClosed \<and> Panicked \<notin> set (tasks s)))"

definition releases_replay_token_on_fee_error :: "u64 \<Rightarrow> bool \<Rightarrow> bool" where
  "releases_replay_token_on_fee_error t oc \<longleftrightarrow>
     (case fold_opt (exec adapter_fee_err oc) (first_pop t) (flow_sender 0) of
        None \<Rightarrow> False | Some s \<Rightarrow> released (replay s))"

definition resubmit_reuses_replay_token :: "u64 \<Rightarrow> bool \<Rightarrow> bool" where
  "resubmit_reuses_replay_token t oc \<longleftrightarrow>
     (let evs = first_pop t @ submit t (Dropped 1) @ submit t (Confirmed 1)
      in length (submissions adapter_resubmit oc evs (flow_sender 100)) = 2 \<and>
         (case fold_opt (exec adapter_resubmit oc) evs (flow_sender 100) of
            None \<Rightarrow> False | Some s \<Rightarrow> \<not> released (replay s)))"

definition requeue_releases_replay_token :: "u64 \<Rightarrow> bool \<Rightarrow> bool" where
  "requeue_releases_replay_token t oc \<longleftrightarrow>
     (case fold_opt (exec adapter_requeue oc) (first_pop t @ submit t (Dropped 1) @ [TaskStep 0 Go]) (flow_sender 7) of
        None \<Rightarrow> False | Some s \<Rightarrow> released (replay s))"

definition abandon_releases_replay_token :: "u64 \<Rightarrow> bool \<Rightarrow> bool" where
  "abandon_releases_replay_token t oc \<longleftrightarrow>
     (case fold_opt (exec adapter_abandon oc) (first_pop t @ submit t (Dropped 1) @ [TaskStep 0 Go]) (flow_sender 11) of
        None \<Rightarrow> False | Some s \<Rightarrow> released (replay s))"

subsection \<open>They pass\<close>

lemmas flow_run = first_pop_def submit_def flow_sender_def sender_new_def flow_replay_new_def adapter_happy_def add_message_def
  acquire_permit_def pop_or_park_def run_task_def task_start_def task_bind_fee_def task_attempt_def task_reply_def
  task_outcome_def task_dropped_def release_token_def flow_next_def flow_release_def select_block_def cancel_process_next_def
  sync_done_def MAX_IN_FLIGHT_TRANSACTIONS_def increment_retry_def can_retry_def saturating_add_def

lemma default_message_queue:
  "\<exists>p. effective_priority oc (message_default t) t = Some p \<and>
    queue_push oc queue_new (message_default t) t = Some \<lparr>heap = [\<lparr>pm_message = message_default t, pm_priority = p\<rparr>]\<rparr>"
proof -
  obtain p where p: "effective_priority oc (message_default t) t = Some p"
    using plain_priority [of "message_default t" oc t] by (auto simp: message_default_def)
  then show ?thesis by (simp add: queue_push_def queue_insert_def queue_new_def heap_push_def sift_up.simps)
qed

lemma pop_single: "queue_pop \<lparr>heap = [\<lparr>pm_message = m, pm_priority = p\<rparr>]\<rparr> = Some (m, queue_new)"
  by (simp add: queue_pop_def queue_take_def heap_pop_def queue_new_def)

lemma default_live: "deadline_ms m = None \<Longrightarrow> is_expired oc m now = Some False"
  by (simp add: is_expired_def)

lemma default_fields: "deadline_ms (message_default t) = None" "retry_count (message_default t) = 0" "priority (message_default t) = 0"
  by (simp_all add: message_default_def)

lemma flow_tests_pass:
  "sender_processes_message_with_adapter t oc" "releases_replay_token_on_fee_error t oc" "resubmit_reuses_replay_token t oc"
  "requeue_releases_replay_token t oc" "abandon_releases_replay_token t oc"
proof -
  obtain p where p: "effective_priority oc (message_default t) t = Some p"
    "queue_push oc queue_new (message_default t) t = Some \<lparr>heap = [\<lparr>pm_message = message_default t, pm_priority = p\<rparr>]\<rparr>"
    using default_message_queue by blast
  note run = flow_run p pop_single default_live default_fields
  show "sender_processes_message_with_adapter t oc" by (simp add: sender_processes_message_with_adapter_def run)
  show "releases_replay_token_on_fee_error t oc" by (simp add: releases_replay_token_on_fee_error_def adapter_fee_err_def run)
  show "resubmit_reuses_replay_token t oc"
    by (simp add: resubmit_reuses_replay_token_def adapter_resubmit_def retry_resubmit_def run rust_add_def message_consts)
  show "requeue_releases_replay_token t oc"
    by (simp add: requeue_releases_replay_token_def adapter_requeue_def run message_consts)
  show "abandon_releases_replay_token t oc"
    by (simp add: abandon_releases_replay_token_def adapter_abandon_def run message_consts)
qed

end
