(* ===== verification/Mempool_Tests.thy ===== *)
theory Mempool_Tests
  imports Cli_Sim P2P
begin

text \<open>
  The tests of crates/mempooloracle/tests/mempool_oracle.rs, run on the model. A test waits
  until the tracker has handled what it sent, so that the events sent before a query are those
  \<open>tracker_run\<close> has applied.
\<close>

definition default_config :: tracker_config where
  "default_config = \<lparr>initial_base_fee = 10, global_capacity = 100, per_account_capacity = 10, private_flow_prior = Finite 0\<rparr>"

definition test_tx :: "u8 \<Rightarrow> u8 \<Rightarrow> u64 \<Rightarrow> u128 \<Rightarrow> u128 \<Rightarrow> pending_tx" where
  "test_tx i a n max_fee prio = \<lparr>ptx_id = repeat_byte 32 i, ptx_sender = repeat_byte 20 a, ptx_nonce = n,
     max_fee_per_gas = max_fee, max_priority_fee_per_gas = prio, gas_limit = 21000\<rparr>"

definition new_tracker :: "bool \<Rightarrow> pending_tx list \<Rightarrow> tracker_config \<Rightarrow> pending_tx list \<Rightarrow> mempool option" where
  "new_tracker oc initial_txs cfg sent =
     from_channel oc initial_txs cfg \<bind> tracker_run oc (map PendingTransaction sent)"

text \<open>The transport of the test is refused in every build, with an error that depends on the features.\<close>

definition test_p2p_transport_requires_feature :: "features \<Rightarrow> bool \<Rightarrow> bool" where
  "test_p2p_transport_requires_feature ft oc \<longleftrightarrow>
     (case tracker_connect oc ft (P2pTransport \<lparr>p2p_chain = ''mainnet'', bootnodes = [], discovery_v4 = True, listen_addr = None,
             block_transport = Consensus Eth2Libp2p\<rparr>) None (None :: (rpc_text + unit) option) (None :: (rpc_text + unit) option)
           default_config of
        Inl (FeatureDisabled name) \<Rightarrow> name = ''reth-p2p''
      | Inl (UnsupportedTransport _) \<Rightarrow> True
      | _ \<Rightarrow> False)"

definition test_classification_marketable :: "bool \<Rightarrow> bool" where
  "test_classification_marketable oc \<longleftrightarrow>
     (let tx = test_tx 1 1 0 20 10
      in (do { m \<leftarrow> new_tracker oc [tx] default_config []; classification oc m (ptx_id tx) }) = Some (Some Marketable))"

definition test_classification_base_fee_invalid :: "bool \<Rightarrow> bool" where
  "test_classification_base_fee_invalid oc \<longleftrightarrow>
     (let tx = test_tx 1 1 0 5 10
      in (do { m \<leftarrow> new_tracker oc [tx] default_config []; classification oc m (ptx_id tx) }) = Some (Some BaseFeeInvalid))"

definition test_classification_unmarketable :: "bool \<Rightarrow> bool" where
  "test_classification_unmarketable oc \<longleftrightarrow>
     (let tx = test_tx 1 1 0 10 0
      in (do { m \<leftarrow> new_tracker oc [tx] default_config []; classification oc m (ptx_id tx) }) = Some (Some Unmarketable))"

definition test_classification_nonce_bound_gap :: "bool \<Rightarrow> bool" where
  "test_classification_nonce_bound_gap oc \<longleftrightarrow>
     (let tx1 = test_tx 1 1 0 20 10; tx2 = test_tx 2 1 2 20 10
      in (do { m \<leftarrow> new_tracker oc [] default_config [tx1, tx2]; classification oc m (ptx_id tx2) }) = Some (Some NonceBound))"

definition test_classification_nonce_bound_unmarketable :: "bool \<Rightarrow> bool" where
  "test_classification_nonce_bound_unmarketable oc \<longleftrightarrow>
     (let tx1 = test_tx 1 1 0 10 0; tx2 = test_tx 2 1 1 20 10
      in (do { m \<leftarrow> new_tracker oc [] default_config [tx1, tx2]; classification oc m (ptx_id tx2) }) = Some (Some NonceBound))"

definition tracks :: "bool \<Rightarrow> mempool \<Rightarrow> pending_tx \<Rightarrow> bool option" where
  "tracks oc m tx = map_option (\<lambda>c. c \<noteq> None) (classification oc m (ptx_id tx))"

definition test_global_eviction :: "bool \<Rightarrow> bool" where
  "test_global_eviction oc \<longleftrightarrow>
     (let cfg = default_config\<lparr>global_capacity := 1\<rparr>;
          tx1 = test_tx 1 1 0 20 1; tx2 = test_tx 2 2 0 20 0; tx3 = test_tx 3 3 0 20 2
      in (do { m \<leftarrow> new_tracker oc [] cfg [tx1]; tracks oc m tx1 }) = Some True \<and>
         (do { m \<leftarrow> new_tracker oc [] cfg [tx1, tx2]; tracks oc m tx1 }) = Some True \<and>
         (do { m \<leftarrow> new_tracker oc [] cfg [tx1, tx2]; tracks oc m tx2 }) = Some False \<and>
         (do { m \<leftarrow> new_tracker oc [] cfg [tx1, tx2, tx3]; tracks oc m tx1 }) = Some False \<and>
         (do { m \<leftarrow> new_tracker oc [] cfg [tx1, tx2, tx3]; tracks oc m tx3 }) = Some True)"

definition test_out_of_order_nonce_insert_from_backfill :: "bool \<Rightarrow> bool" where
  "test_out_of_order_nonce_insert_from_backfill oc \<longleftrightarrow>
     (let tx_high = test_tx 5 7 5 20 10; tx_low = test_tx 4 7 4 20 10
      in case new_tracker oc [] default_config [tx_high, tx_low] of
           None \<Rightarrow> False
         | Some m \<Rightarrow> classification oc m (ptx_id tx_low) = Some (Some Marketable) \<and>
             classification oc m (ptx_id tx_high) = Some (Some Marketable) \<and>
             find_tx_by_addr_and_nonce m (ptx_sender tx_low) 4 \<noteq> None \<and> find_tx_by_addr_and_nonce m (ptx_sender tx_low) 5 \<noteq> None)"

text \<open>The low byte of a repeated byte is the byte.\<close>

lemma repeat_byte_low:
  assumes "8 \<le> LENGTH('a::len)"
  shows "take_bit 8 (repeat_byte (Suc n) b :: 'a word) = ucast b"
proof -
  let ?x = "repeat_byte n b :: 'a word"
  have "take_bit 8 (ucast b :: 'a word) = ucast b"
    by (intro bit_word_eqI) (auto simp: bit_take_bit_iff bit_ucast_iff dest: bit_imp_le_length)
  moreover have "take_bit 8 (push_bit 8 ?x) = 0" by (simp add: take_bit_push_bit)
  moreover have "repeat_byte (Suc n) b = push_bit 8 ?x + (ucast b :: 'a word)" by (simp add: repeat_byte_def)
  moreover have "push_bit 8 ?x + ucast b = or (push_bit 8 ?x) (ucast b)"
    by (intro disjunctive_add) (auto simp: bit_push_bit_iff bit_ucast_iff dest: bit_imp_le_length)
  ultimately show ?thesis by (simp add: take_bit_or)
qed

lemma repeat_byte_inj:
  assumes "8 \<le> LENGTH('a::len)" and "0 < n"
  shows "repeat_byte n b = (repeat_byte n c :: 'a word) \<longleftrightarrow> b = c"
proof
  assume "repeat_byte n b = (repeat_byte n c :: 'a word)"
  then have "(ucast b :: 'a word) = ucast c"
    using repeat_byte_low [OF assms(1), of "n - 1" b] repeat_byte_low [OF assms(1), of "n - 1" c] assms(2) by simp
  then show "b = c" using assms(1) by (simp add: word_unat_eq_iff unat_ucast_up)
qed simp

lemma two_slots: "replicate 2 x = [x, x]" "blocked_below m ss 2 = blocked_below m ss (Suc (Suc 0))"
  by (simp_all add: numeral_2_eq_2)

lemmas tracker_run_simps = test_tx_def default_config_def new_tracker_def from_channel_def tracker_run_def insert_tx_def evict_def
  place_def entry_queue_def prepend_slots_def put_slot_def effective_priority_fee_def saturating_sub_def rust_sub_def rust_add_def
  classification_def find_tx_by_id_def all_txs_def classify_transaction_def List.map_filter_def tracks_def slot_get_def
  find_tx_by_addr_and_nonce_def queue_find_def insort_insert_key_def less_reverse_def less_eq_reverse_def two_slots repeat_byte_inj word_le_nat_alt word_less_nat_alt Let_def

text \<open>With the one feature and without the other the test fails.\<close>

lemma p2p_test_passes_iff: "test_p2p_transport_requires_feature ft oc \<longleftrightarrow> (reth_p2p ft \<longrightarrow> consensus_p2p ft)"
  by (simp add: test_p2p_transport_requires_feature_def tracker_connect_def p2p_connect_def)

lemma classification_tests_pass:
  "test_classification_marketable oc" "test_classification_base_fee_invalid oc" "test_classification_unmarketable oc"
  "test_classification_nonce_bound_gap oc" "test_classification_nonce_bound_unmarketable oc"
  by (simp_all add: test_classification_marketable_def test_classification_base_fee_invalid_def
      test_classification_unmarketable_def test_classification_nonce_bound_gap_def
      test_classification_nonce_bound_unmarketable_def tracker_run_simps)

lemma eviction_test_passes: "test_global_eviction oc"
  by (simp add: test_global_eviction_def tracker_run_simps)

lemma backfill_test_passes: "test_out_of_order_nonce_insert_from_backfill oc"
  by (simp add: test_out_of_order_nonce_insert_from_backfill_def tracker_run_simps)

end
